(* ===== verification/Prelude.thy ===== *)
theory Prelude
  imports Main "HOL-Library.Word"
begin

unbundle bit_operations_syntax

text \<open>
  What every component of the library shares: the names of the machine types,
  the copy of bytes into and out of 64-bit words that the C++ code performs
  with \<open>memcpy\<close>, bounded appending to a character buffer, arithmetic facts on
  words and ring positions, and reachability in a step relation together with
  the locale that turns a preserved predicate into an invariant.
\<close>

section \<open>Machine types\<close>

type_synonym u8 = "8 word"
type_synonym u16 = "16 word"
type_synonym u32 = "32 word"
type_synonym u64 = "64 word"

text \<open>
  Collections: \<open>ring_simps\<close> gathers the access/update laws of placed cells,
  \<open>word_facts\<close> the no-wrap facts that move word arithmetic to \<open>nat\<close>.
\<close>

named_theorems ring_simps
named_theorems word_facts

section \<open>Words and naturals\<close>

lemma pos_mod_neq:
  assumes "p < q" "q < p + n" shows "p mod n \<noteq> (q::nat) mod n"
proof
  assume "p mod n = q mod n"
  then have "n dvd q - p" using assms(1) by (metis less_imp_le mod_eq_dvd_iff_nat)
  with assms show False by (auto dest: dvd_imp_le)
qed

lemma unat_plus1_nowrap [word_facts]:
  "unat (x :: u64) + 1 < 2 ^ 64 \<Longrightarrow> unat (x + 1) = unat x + 1"
  by (simp add: unat_word_ariths)

lemma unat_plus_nowrap: "unat (a :: u64) + unat b < 2 ^ 64 \<Longrightarrow> unat (a + b) = unat a + unat b"
  by (simp add: unat_word_ariths)

lemma unat_times_nowrap: "unat (a :: u64) * unat b < 2 ^ 64 \<Longrightarrow> unat (a * b) = unat a * unat b"
  by (simp add: unat_word_ariths)

lemma unat_plus2_nowrap [word_facts]:
  "unat (x :: u64) + 2 < 2 ^ 64 \<Longrightarrow> unat (x + 2) = unat x + 2"
  by (simp add: unat_word_ariths)

lemma unat_u64_bound [simp]: "unat (x :: u64) < 18446744073709551616"
  using unsigned_less [of x] by simp

lemma unat_inc_u32 [word_facts]:
  assumes "(x :: u32) \<noteq> - 1" shows "unat (x + 1) = unat x + 1"
proof -
  have "unat x \<noteq> 2 ^ 32 - 1"
    using assms by (auto simp: word_unat_eq_iff unsigned_minus_1_eq_mask mask_eq_exp_minus_1)
  then have "unat x + 1 < 2 ^ 32" using unsigned_less [of x, where ?'a = nat] by simp
  then show ?thesis by (simp add: unat_word_ariths)
qed

lemma unat_of_nat_u64 [word_facts]: "n < 2 ^ 64 \<Longrightarrow> unat (of_nat n :: u64) = n"
  by (simp add: unsigned_of_nat take_bit_nat_eq_self)

lemma unat_exp_u64: "k < 64 \<Longrightarrow> unat (2 ^ k :: u64) = 2 ^ k"
  using unat_of_nat_u64 [of "2 ^ k"] power_strict_increasing [of k 64 "2 :: nat"] by simp

lemma unat_pred: "unat (c :: u64) = n \<Longrightarrow> 0 < n \<Longrightarrow> unat (c - 1) = n - 1"
  by (metis One_nat_def unat_minus_one unat_0 less_irrefl)

lemma even_unat [simp]: "even (unat (x :: 'a::len word)) \<longleftrightarrow> even x"
proof -
  have "bit (unat x) 0 = bit x 0" by (simp only: bit_unsigned_iff) auto
  then show ?thesis by (simp add: bit_0)
qed

lemma and_one_word: "(x :: 'a::len word) AND 1 = (if even x then 0 else 1)"
  by (simp add: and_one_eq odd_iff_mod_2_eq_one even_iff_mod_2_eq_zero)

lemma word_xor_zero_iff: "(a :: 'a::len word) XOR b = 0 \<longleftrightarrow> a = b"
  by (metis xor.assoc xor.right_neutral xor_self_eq)

lemma word_xor_cancel [simp]:
  "(a :: 'a::len word) XOR c = b XOR c \<longleftrightarrow> a = b" "c XOR a = c XOR b \<longleftrightarrow> a = b"
  by (metis xor.assoc xor.right_neutral xor_self_eq, metis xor.assoc xor.left_neutral xor_self_eq)

section \<open>Bytes of a word\<close>

text \<open>
  \<open>memcpy\<close> between an object and 64-bit words is modelled on the byte sequence:
  the first byte in memory is the least significant one, which is the order of
  both baselines the project builds for (x86-64 and AArch64 Linux).
\<close>

definition u64_of_bytes :: "u8 list \<Rightarrow> u64" where
  "u64_of_bytes bs = foldr (\<lambda>b acc. ucast b OR push_bit 8 acc) bs 0"

definition bytes_of_u64 :: "u64 \<Rightarrow> u8 list" where
  "bytes_of_u64 w = map (\<lambda>i. ucast (drop_bit (8 * i) w)) [0..<8]"

lemma bit_u64_of_bytes:
  "length bs \<le> 8 \<Longrightarrow> bit (u64_of_bytes bs) n \<longleftrightarrow> n < 64 \<and> n div 8 < length bs \<and> bit (bs ! (n div 8)) (n mod 8)"
proof (induction bs arbitrary: n)
  case Nil
  then show ?case by (simp add: u64_of_bytes_def)
next
  case (Cons b bs)
  have eq: "u64_of_bytes (b # bs) = ucast b OR push_bit 8 (u64_of_bytes bs)"
    by (simp add: u64_of_bytes_def)
  show ?case
  proof (cases "n < 8")
    case True
    then show ?thesis by (auto simp: eq bit_or_iff bit_push_bit_iff bit_ucast_iff)
  next
    case False
    then obtain m where m: "n = m + 8" by (metis add.commute le_Suc_ex not_less)
    have IH: "bit (u64_of_bytes bs) m \<longleftrightarrow> m < 64 \<and> m div 8 < length bs \<and> bit (bs ! (m div 8)) (m mod 8)"
      using Cons.prems by (intro Cons.IH) simp
    have m64: "n < 64 \<Longrightarrow> m < 64" using m by linarith
    have "\<not> bit (ucast b :: u64) n"
      using False by (auto simp: bit_ucast_iff dest: bit_imp_le_length)
    then have "bit (u64_of_bytes (b # bs)) n \<longleftrightarrow> n < 64 \<and> bit (u64_of_bytes bs) m"
      by (simp add: eq m bit_or_iff bit_push_bit_iff)
    also have "\<dots> \<longleftrightarrow> n < 64 \<and> m div 8 < length bs \<and> bit (bs ! (m div 8)) (m mod 8)"
      using IH m64 by blast
    also have "\<dots> \<longleftrightarrow> n < 64 \<and> n div 8 < length (b # bs) \<and> bit ((b # bs) ! (n div 8)) (n mod 8)"
      unfolding m by (simp add: div_add_self2)
    finally show ?thesis .
  qed
qed

lemma nth_bytes_of_u64: "i < 8 \<Longrightarrow> bytes_of_u64 w ! i = ucast (drop_bit (8 * i) w)"
  by (simp add: bytes_of_u64_def)

lemma length_bytes_of_u64 [simp]: "length (bytes_of_u64 w) = 8"
  by (simp add: bytes_of_u64_def)

lemma bytes_of_u64_of_bytes:
  assumes "length bs \<le> 8" 
  shows "take (length bs) (bytes_of_u64 (u64_of_bytes bs)) = bs"
proof (rule nth_equalityI)
  fix i assume "i < length (take (length bs) (bytes_of_u64 (u64_of_bytes bs)))"
  then have i: "i < length bs" "i < 8" using assms by auto
  have "ucast (drop_bit (8 * i) (u64_of_bytes bs)) = bs ! i"
  proof (rule bit_word_eqI)
    fix n assume "n < LENGTH(8)"
    then have n: "n < 8" by simp
    then have "(8 * i + n) div 8 = i" "(8 * i + n) mod 8 = n" by auto
    with i n assms show "bit (ucast (drop_bit (8 * i) (u64_of_bytes bs)) :: u8) n = bit (bs ! i) n"
      by (simp add: bit_ucast_iff bit_drop_bit_eq bit_u64_of_bytes)
  qed
  with i show "take (length bs) (bytes_of_u64 (u64_of_bytes bs)) ! i = bs ! i"
    by (simp add: nth_bytes_of_u64)
qed (use assms in simp)

lemma u64_of_bytes_of_u64 [simp]: "u64_of_bytes (bytes_of_u64 w) = w"
proof (rule bit_word_eqI)
  fix n assume "n < LENGTH(64)"
  then have n: "n < 64" by simp
  then have "n div 8 < 8" by auto
  with n show "bit (u64_of_bytes (bytes_of_u64 w)) n = bit w n"
    by (simp add: bit_u64_of_bytes nth_bytes_of_u64 bit_ucast_iff bit_drop_bit_eq)
qed

section \<open>Staging an object as words\<close>

definition kWords :: "nat \<Rightarrow> nat" where
  "kWords sz = (sz + 8 - 1) div 8"

definition stage :: "u8 list \<Rightarrow> u64 list" where
  "stage bs = map (\<lambda>i. u64_of_bytes (take 8 (drop (8 * i) bs))) [0..<kWords (length bs)]"

definition unstage :: "nat \<Rightarrow> u64 list \<Rightarrow> u8 list" where
  "unstage sz ws = take sz (concat (map bytes_of_u64 ws))"

lemma length_stage [simp]: "length (stage bs) = kWords (length bs)"
  by (simp add: stage_def)

lemma concat_chunks:
  "concat (map (\<lambda>i. take 8 (drop (8 * i) bs)) [0..<n]) = take (8 * n) bs"
proof (induction n)
  case (Suc n)
  have "take (8 * Suc n) bs = take (8 * n) bs @ take 8 (drop (8 * n) bs)"
    using take_add [of "8 * n" 8 bs] by (simp add: add.commute)
  with Suc show ?case by (simp del: mult_Suc_right)
qed simp

lemma take_concat_map_prefix:
  assumes "\<And>i. i < n \<Longrightarrow> prefix_of i = take (length (prefix_of i)) (full i)"
    and "\<And>i. i < n - 1 \<Longrightarrow> prefix_of i = full i"
  shows "take (length (concat (map prefix_of [0..<n]))) (concat (map full [0..<n]))
       = concat (map prefix_of [0..<n])"
proof (cases n)
  case (Suc m)
  have pre: "map prefix_of [0..<m] = map full [0..<m]"
    using assms(2) Suc by simp
  have last: "prefix_of m = take (length (prefix_of m)) (full m)"
    using assms(1) Suc by blast
  show ?thesis using last by (simp add: Suc pre)
qed simp

lemma unstage_stage [simp]:
  assumes "length bs = sz"
  shows "unstage sz (stage bs) = bs"
proof -
  let ?n = "kWords (length bs)"
  let ?chunk = "\<lambda>i. take 8 (drop (8 * i) bs)"
  let ?full = "\<lambda>i. bytes_of_u64 (u64_of_bytes (?chunk i))"
  have all: "concat (map ?chunk [0..<?n]) = bs"
    by (simp add: concat_chunks kWords_def)
  have "take (length (concat (map ?chunk [0..<?n]))) (concat (map ?full [0..<?n]))
      = concat (map ?chunk [0..<?n])"
  proof (rule take_concat_map_prefix)
    fix i
    show "?chunk i = take (length (?chunk i)) (?full i)"
      by (rule bytes_of_u64_of_bytes [symmetric]) simp
  next
    fix i assume "i < ?n - 1"
    then have len: "length (?chunk i) = 8"
      by (auto simp: kWords_def)
    have "take (length (?chunk i)) (?full i) = ?chunk i"
      by (rule bytes_of_u64_of_bytes) simp
    then show "?chunk i = ?full i" using len by simp
  qed
  then show ?thesis
    by (simp add: all unstage_def stage_def comp_def assms [symmetric])
qed

section \<open>Overwriting part of a buffer\<close>

text \<open>The effect of a memcpy: the elements from offset \<open>at\<close> on are replaced.\<close>

definition overwrite :: "nat \<Rightarrow> 'a list \<Rightarrow> 'a list \<Rightarrow> 'a list" where
  "overwrite at bs mem = take at mem @ bs @ drop (at + length bs) mem"

lemma length_overwrite [simp]: "at + length bs \<le> length mem \<Longrightarrow> length (overwrite at bs mem) = length mem"
  by (simp add: overwrite_def)

lemma overwrite_append:
  assumes "at + length bs + length cs \<le> length mem"
  shows "overwrite (at + length bs) cs (overwrite at bs mem) = overwrite at (bs @ cs) mem"
proof -
  have "take (at + length bs) (take at mem @ bs @ drop (at + length bs) mem) = take at mem @ bs"
    using assms by simp
  moreover have "drop (at + length bs + length cs) (take at mem @ bs @ drop (at + length bs) mem)
      = drop (at + length bs + length cs) mem"
    using assms by (simp add: ac_simps)
  ultimately show ?thesis by (simp add: overwrite_def ac_simps)
qed

lemma overwrite_parts:
  assumes "at + length bs \<le> length mem"
  shows "take at (overwrite at bs mem) = take at mem" "take (length bs) (drop at (overwrite at bs mem)) = bs"
    "drop (at + length bs) (overwrite at bs mem) = drop (at + length bs) mem"
  using assms by (simp_all add: overwrite_def)

lemma overwrite_before:
  assumes "a + n \<le> at" "at + length bs \<le> length mem"
  shows "take n (drop a (overwrite at bs mem)) = take n (drop a mem)"
proof -
  have "take n (drop a (overwrite at bs mem)) = drop a (take (a + n) (take at (overwrite at bs mem)))"
    using assms(1) by (simp add: take_drop add.commute min_def)
  also have "\<dots> = drop a (take (a + n) (take at mem))" using overwrite_parts(1) [OF assms(2)] by simp
  also have "\<dots> = take n (drop a mem)" using assms(1) by (simp add: take_drop add.commute min_def)
  finally show ?thesis .
qed

text \<open>An object made of words, as its bytes, and a word read back from it.\<close>

definition object_bytes :: "u64 list \<Rightarrow> u8 list" where
  "object_bytes ws = concat (map bytes_of_u64 ws)"

definition word_at :: "nat \<Rightarrow> u8 list \<Rightarrow> u64" where
  "word_at k bs = u64_of_bytes (take 8 (drop (8 * k) bs))"

lemma object_bytes_simps [simp]: "object_bytes [] = []" "object_bytes (w # ws) = bytes_of_u64 w @ object_bytes ws"
  by (simp_all add: object_bytes_def)

lemma length_object_bytes [simp]: "length (object_bytes ws) = 8 * length ws"
  by (induction ws) simp_all

lemma word_at_object: "k < length ws \<Longrightarrow> word_at k (object_bytes ws) = ws ! k"
proof (induction ws arbitrary: k)
  case (Cons w ws)
  then show ?case by (cases k) (simp_all add: word_at_def)
qed simp

section \<open>Bounded character buffers\<close>

lemma take_append_take: "take k (take k xs @ ys) = take k (xs @ ys)"
  by (cases "length xs \<le> k") auto

section \<open>Reachability and invariants\<close>

inductive reach :: "('s \<Rightarrow> bool) \<Rightarrow> ('s \<Rightarrow> 's \<Rightarrow> bool) \<Rightarrow> 's \<Rightarrow> bool"
  for init :: "'s \<Rightarrow> bool" and step :: "'s \<Rightarrow> 's \<Rightarrow> bool"
where
  reach_init: "init s \<Longrightarrow> reach init step s"
| reach_step: "reach init step s \<Longrightarrow> step s t \<Longrightarrow> reach init step t"

lemma reach_funpow:
  assumes "\<And>s. step s (f s)" "reach init step s" shows "reach init step ((f ^^ n) s)"
  using assms by (induction n) (auto intro: reach_step)

text \<open>
  An inductive invariant that is kept while a budget lasts (\<open>fits\<close> bounds a
  counter that never decreases): it holds in every reachable state that still
  fits. Systems without such a counter use \<open>fits = (\<lambda>_. True)\<close>.
\<close>

locale inductive_invariant =
  fixes init :: "'s \<Rightarrow> bool" and step :: "'s \<Rightarrow> 's \<Rightarrow> bool"
    and fits :: "'s \<Rightarrow> bool" and inv :: "'s \<Rightarrow> bool"
  assumes init_inv: "init s \<Longrightarrow> inv s"
    and fits_back: "step s t \<Longrightarrow> fits t \<Longrightarrow> fits s"
    and step_inv: "step s t \<Longrightarrow> inv s \<Longrightarrow> fits t \<Longrightarrow> inv t"
begin

lemma reach_inv: "reach init step s \<Longrightarrow> fits s \<Longrightarrow> inv s"
proof (induction rule: reach.induct)
  case (reach_init s)
  then show ?case by (blast intro: init_inv)
next
  case (reach_step s t)
  then show ?case by (blast intro: step_inv fits_back)
qed

end

end
