(* ===== verification/Seqlock_Ring.thy ===== *)
theory Seqlock_Ring
  imports Prelude
begin

text \<open>
  Core A of the buffer taxonomy, \<open>detail::SeqlockRing<T, N>\<close> of
  \<open>concurrency/detail/seqlock_ring.hpp\<close>: its placed data and its operations
  as one thread executes them. The template parameters are data of the record:
  \<open>N\<close> is the number of cells and \<open>sizeofT\<close> the size of the trivially copyable
  payload, whose value is its byte sequence. The interleaving of a writer with
  readers, crashes and repairs is the theory \<open>Seqlock_Conc\<close>.
\<close>

section \<open>Data\<close>

record Cell =
  seq :: u64
  index :: u64
  words_of :: "u64 list"

record Ring =
  cells :: "Cell list"
  write_count :: u64
  sizeofT :: nat

datatype LoadResult = kValue "u8 list" | kEmpty | kStalled

abbreviation depthN :: "Ring \<Rightarrow> nat" where
  "depthN r \<equiv> length (cells r)"

text \<open>The cell a write position lives in: \<open>cells_[pos % N]\<close>.\<close>

definition cell_no :: "Ring \<Rightarrow> u64 \<Rightarrow> nat" where
  "cell_no r pos = unat pos mod depthN r"

definition cell_at :: "Ring \<Rightarrow> u64 \<Rightarrow> Cell" where
  "cell_at r pos = cells r ! cell_no r pos"

section \<open>Single accesses\<close>

definition set_seq :: "nat \<Rightarrow> u64 \<Rightarrow> Ring \<Rightarrow> Ring" where
  "set_seq i v r = r\<lparr>cells := (cells r)[i := (cells r ! i)\<lparr>seq := v\<rparr>]\<rparr>"

definition set_index :: "nat \<Rightarrow> u64 \<Rightarrow> Ring \<Rightarrow> Ring" where
  "set_index i v r = r\<lparr>cells := (cells r)[i := (cells r ! i)\<lparr>index := v\<rparr>]\<rparr>"

definition set_word :: "nat \<Rightarrow> nat \<Rightarrow> u64 \<Rightarrow> Ring \<Rightarrow> Ring" where
  "set_word i k v r =
     r\<lparr>cells := (cells r)[i := (cells r ! i)\<lparr>words_of := (words_of (cells r ! i))[k := v]\<rparr>]\<rparr>"

definition set_count :: "u64 \<Rightarrow> Ring \<Rightarrow> Ring" where
  "set_count v r = r\<lparr>write_count := v\<rparr>"

section \<open>Construction\<close>

text \<open>
  The constructor body under an initializing storage: an even, zero sequence
  means \<open>never written\<close>, a zero cursor \<open>nothing published\<close>. An attaching
  storage (\<open>Initialize() = false\<close>) leaves what it finds.
\<close>

definition zero_cell :: "nat \<Rightarrow> Cell" where
  "zero_cell sz = \<lparr>seq = 0, index = 0, words_of = replicate (kWords sz) 0\<rparr>"

definition SeqlockRing_ctor :: "bool \<Rightarrow> Ring \<Rightarrow> Ring" where
  "SeqlockRing_ctor initialize placed =
     (if initialize
      then placed\<lparr>write_count := 0, cells := map (\<lambda>_. zero_cell (sizeofT placed)) (cells placed)\<rparr>
      else placed)"

definition fresh_ring :: "nat \<Rightarrow> nat \<Rightarrow> Ring" where
  "fresh_ring n sz =
     SeqlockRing_ctor True \<lparr>cells = replicate n (zero_cell sz), write_count = 0, sizeofT = sz\<rparr>"

section \<open>Operations\<close>

text \<open>The payload loop of \<open>Store\<close>: words are stored one by one.\<close>

fun store_words :: "nat \<Rightarrow> nat \<Rightarrow> u64 list \<Rightarrow> Ring \<Rightarrow> Ring" where
  "store_words i k [] r = r"
| "store_words i k (w # ws) r = store_words i (Suc k) ws (set_word i k w r)"

definition Store :: "u8 list \<Rightarrow> Ring \<Rightarrow> Ring" where
  "Store value r =
     (let idx = write_count r;
          c = cell_no r idx;
          staged = stage value;
          s = seq (cells r ! c);
          r1 = set_seq c (s + 1) r;
          r2 = set_index c idx r1;
          r3 = store_words c 0 staged r2;
          r4 = set_seq c (s + 2) r3
      in set_count (idx + 1) r4)"

text \<open>
  One iteration of the read-latest loop, shared text of \<open>Load\<close> and
  \<open>LoadBounded\<close>: empty, a validated copy, or a retry.
\<close>

datatype attempt = Empty | Retry | Got "u64 list"

definition load_attempt :: "Ring \<Rightarrow> attempt" where
  "load_attempt r =
     (let c = write_count r in
      if c = 0 then Empty
      else let cell = cell_at r (c - 1); s1 = seq cell in
        if s1 = 0 then Empty
        else if s1 AND 1 \<noteq> 0 then Retry
        else let idx = index cell; staged = words_of cell in
          if seq cell \<noteq> s1 then Retry
          else if idx \<noteq> c - 1 then Retry
          else Got staged)"

text \<open>\<open>Load\<close> loops until an attempt decides; not returning is \<open>None\<close>.\<close>

partial_function (option) Load :: "Ring \<Rightarrow> u8 list option option" where
  "Load r =
     (case load_attempt r of
        Empty \<Rightarrow> Some None
      | Got staged \<Rightarrow> Some (Some (unstage (sizeofT r) staged))
      | Retry \<Rightarrow> Load r)"

text \<open>
  \<open>for (uint32_t attempt = 0; attempt <= max_retries; ++attempt)\<close>: the counter is
  a 32-bit word that wraps.
\<close>

partial_function (option) LoadBounded_loop :: "Ring \<Rightarrow> u32 \<Rightarrow> u32 \<Rightarrow> LoadResult option" where
  "LoadBounded_loop r max_retries attempt =
     (if attempt \<le> max_retries
      then case load_attempt r of
             Empty \<Rightarrow> Some kEmpty
           | Got staged \<Rightarrow> Some (kValue (unstage (sizeofT r) staged))
           | Retry \<Rightarrow> LoadBounded_loop r max_retries (attempt + 1)
      else Some kStalled)"

definition LoadBounded :: "Ring \<Rightarrow> u32 \<Rightarrow> LoadResult option" where
  "LoadBounded r max_retries = LoadBounded_loop r max_retries 0"

definition snapshot_limit :: "nat \<Rightarrow> u64 \<Rightarrow> nat \<Rightarrow> nat" where
  "snapshot_limit k c n =
     (let limit = k;
          limit = (if unat c < limit then unat c else limit)
      in if n < limit then n else limit)"

text \<open>The walk of \<open>Snapshot\<close> from entry \<open>i\<close>; it stops at the first failure.\<close>

function snapshot_walk :: "Ring \<Rightarrow> u64 \<Rightarrow> nat \<Rightarrow> nat \<Rightarrow> u8 list list" where
  "snapshot_walk r c limit i =
     (if i < limit then
        let want = c - 1 - of_nat i; cell = cell_at r want; s1 = seq cell in
        if s1 = 0 \<or> s1 AND 1 \<noteq> 0 then []
        else let idx = index cell; staged = words_of cell in
          if seq cell \<noteq> s1 then []
          else if idx \<noteq> want then []
          else unstage (sizeofT r) staged # snapshot_walk r c limit (Suc i)
      else [])"
  by pat_completeness auto
termination
  by (relation "measure (\<lambda>(r, c, limit, i). limit - i)") auto

declare snapshot_walk.simps [simp del]

definition Snapshot :: "Ring \<Rightarrow> nat \<Rightarrow> u8 list list" where
  "Snapshot r k =
     (let c = write_count r in snapshot_walk r c (snapshot_limit k c (depthN r)) 0)"

definition RepairAfterWriterCrash :: "Ring \<Rightarrow> Ring" where
  "RepairAfterWriterCrash r =
     (let c = cell_no r (write_count r) in
      if seq (cells r ! c) AND 1 \<noteq> 0 then set_seq c 0 r else r)"

section \<open>Region layout\<close>

definition RoundUpCacheLine :: "u64 \<Rightarrow> u64" where
  "RoundUpCacheLine bytes = (bytes + 63) AND NOT 63"

definition CellBytes :: "nat \<Rightarrow> u64" where
  "CellBytes sz = 8 + 8 + 8 * of_nat (kWords sz)"

definition HeaderBytes :: u64 where
  "HeaderBytes = 8"

definition StorageBytes :: "nat \<Rightarrow> nat \<Rightarrow> u64" where
  "StorageBytes n sz = RoundUpCacheLine (CellBytes sz * of_nat n) + HeaderBytes"

section \<open>Access laws\<close>

lemma set_seq_sel [ring_simps]:
  "write_count (set_seq i v r) = write_count r" "sizeofT (set_seq i v r) = sizeofT r"
  "length (cells (set_seq i v r)) = length (cells r)"
  "cells (set_seq i v r) = (cells r)[i := (cells r ! i)\<lparr>seq := v\<rparr>]"
  by (simp_all add: set_seq_def)

lemma set_index_sel [ring_simps]:
  "write_count (set_index i v r) = write_count r" "sizeofT (set_index i v r) = sizeofT r"
  "length (cells (set_index i v r)) = length (cells r)"
  "cells (set_index i v r) = (cells r)[i := (cells r ! i)\<lparr>index := v\<rparr>]"
  by (simp_all add: set_index_def)

lemma set_word_sel [ring_simps]:
  "write_count (set_word i k v r) = write_count r" "sizeofT (set_word i k v r) = sizeofT r"
  "length (cells (set_word i k v r)) = length (cells r)"
  "cells (set_word i k v r) =
     (cells r)[i := (cells r ! i)\<lparr>words_of := (words_of (cells r ! i))[k := v]\<rparr>]"
  by (simp_all add: set_word_def)

lemma set_count_sel [ring_simps]:
  "write_count (set_count v r) = v" "sizeofT (set_count v r) = sizeofT r"
  "cells (set_count v r) = cells r"
  by (simp_all add: set_count_def)

lemma store_words_sel [ring_simps]:
  "write_count (store_words i k ws r) = write_count r"
  "sizeofT (store_words i k ws r) = sizeofT r"
  "length (cells (store_words i k ws r)) = length (cells r)"
  by (induction i k ws r rule: store_words.induct) (simp_all add: ring_simps)

lemma take_Suc_list_update:
  "k < length xs \<Longrightarrow> take (Suc k) (xs[k := y]) = take k xs @ [y]"
  by (simp add: take_Suc_conv_app_nth)

text \<open>The payload loop writes the staged words from position \<open>k\<close> on.\<close>

lemma store_words_cells:
  assumes "i < length (cells r)" "k + length ws = length (words_of (cells r ! i))"
  shows "cells (store_words i k ws r) =
    (cells r)[i := (cells r ! i)\<lparr>words_of := take k (words_of (cells r ! i)) @ ws\<rparr>]"
  using assms
proof (induction i k ws r rule: store_words.induct)
  case (1 i k r)
  then show ?case by simp
next
  case (2 i k w ws r)
  then show ?case
    by (simp add: ring_simps take_Suc_list_update)
qed

lemma store_words_all [ring_simps]:
  assumes "i < length (cells r)" "length ws = length (words_of (cells r ! i))"
  shows "cells (store_words i 0 ws r) = (cells r)[i := (cells r ! i)\<lparr>words_of := ws\<rparr>]"
  using store_words_cells [of i r 0 ws] assms by simp

section \<open>Abstract contract\<close>

text \<open>
  A quiescent ring (no store in flight) represents the sequence \<open>h\<close> of the values
  published so far, of which the newest \<open>m\<close> are readable; older cells that were
  retracted by a crash repair read as never written. The count \<open>b\<close> bounds the stores
  begun, so that sequence words do not wrap below \<open>2^63\<close> stores.
\<close>

definition shape :: "Ring \<Rightarrow> bool" where
  "shape r \<longleftrightarrow> 0 < depthN r \<and> (\<forall>c \<in> set (cells r). length (words_of c) = kWords (sizeofT r))"

definition holds_pos :: "Ring \<Rightarrow> nat \<Rightarrow> u8 list \<Rightarrow> bool" where
  "holds_pos r p v \<longleftrightarrow>
     (let c = cells r ! (p mod depthN r)
      in even (seq c) \<and> seq c \<noteq> 0 \<and> unat (index c) = p \<and> words_of c = stage v)"

definition ring_repr :: "Ring \<Rightarrow> u8 list list \<Rightarrow> nat \<Rightarrow> nat \<Rightarrow> bool" where
  "ring_repr r h m b \<longleftrightarrow>
     shape r \<and> unat (write_count r) = length h \<and> length h \<le> b \<and>
     (\<forall>v \<in> set h. length v = sizeofT r) \<and>
     m \<le> depthN r \<and> m \<le> length h \<and>
     (\<forall>p. length h \<le> p + m \<and> p < length h \<longrightarrow> holds_pos r p (h ! p)) \<and>
     (\<forall>p. length h \<le> p + depthN r \<and> p + m < length h \<longrightarrow> seq (cells r ! (p mod depthN r)) = 0) \<and>
     (\<forall>c \<in> set (cells r). even (seq c) \<and> unat (seq c) \<le> 2 * b)"

lemma shape_nth: "shape r \<Longrightarrow> j < depthN r \<Longrightarrow> length (words_of (cells r ! j)) = kWords (sizeofT r)"
  by (simp add: shape_def)

lemma Cell_update_all: "(c :: Cell)\<lparr>index := a, words_of := b, seq := d\<rparr> = \<lparr>seq = d, index = a, words_of = b\<rparr>"
  by (cases c) simp

lemma Store_eq:
  assumes "shape r" "length v = sizeofT r"
  shows "Store v r = r\<lparr>write_count := write_count r + 1,
           cells := (cells r)[cell_no r (write_count r) :=
             \<lparr>seq = seq (cell_at r (write_count r)) + 2, index = write_count r, words_of = stage v\<rparr>]\<rparr>"
proof -
  let ?i = "cell_no r (write_count r)"
  have i: "?i < depthN r" using assms(1) by (simp add: cell_no_def shape_def)
  have "cells (Store v r) = (cells r)[?i :=
             \<lparr>seq = seq (cells r ! ?i) + 2, index = write_count r, words_of = stage v\<rparr>]"
    using i assms by (simp add: Store_def Let_def ring_simps shape_nth Cell_update_all)
  moreover have "write_count (Store v r) = write_count r + 1" "sizeofT (Store v r) = sizeofT r"
    by (simp_all add: Store_def Let_def ring_simps)
  ultimately show ?thesis by (simp add: cell_at_def)
qed

lemma fresh_ring_repr: "0 < n \<Longrightarrow> ring_repr (fresh_ring n sz) [] 0 0"
  by (auto simp: ring_repr_def shape_def fresh_ring_def SeqlockRing_ctor_def zero_cell_def)

lemma Store_repr:
  assumes R: "ring_repr r h m b" and v: "length v = sizeofT r" and b: "b + 1 < 2 ^ 63"
  shows "ring_repr (Store v r) (h @ [v]) (min (depthN r) (m + 1)) (b + 1)"
proof -
  let ?P = "length h" and ?N = "depthN r"
  let ?i = "?P mod ?N"
  have sh: "shape r" and wc: "unat (write_count r) = ?P" and hb: "?P \<le> b" and mN: "m \<le> ?N" "m \<le> ?P"
    and ok: "\<And>p. ?P \<le> p + m \<Longrightarrow> p < ?P \<Longrightarrow> holds_pos r p (h ! p)"
    and gone: "\<And>p. ?P \<le> p + ?N \<Longrightarrow> p + m < ?P \<Longrightarrow> seq (cells r ! (p mod ?N)) = 0"
    and ev: "\<And>c. c \<in> set (cells r) \<Longrightarrow> even (seq c) \<and> unat (seq c) \<le> 2 * b"
    and hs: "\<forall>v \<in> set h. length v = sizeofT r"
    using R by (auto simp: ring_repr_def)
  have N: "0 < ?N" using sh by (simp add: shape_def)
  then have i: "?i < ?N" by simp
  have cn: "cell_no r (write_count r) = ?i" by (simp add: cell_no_def wc)
  let ?c = "\<lparr>seq = seq (cells r ! ?i) + 2, index = write_count r, words_of = stage v\<rparr>"
  have eq: "Store v r = r\<lparr>write_count := write_count r + 1, cells := (cells r)[?i := ?c]\<rparr>"
    using Store_eq [OF sh v] by (simp add: cn cell_at_def)
  have old: "even (seq (cells r ! ?i))" "unat (seq (cells r ! ?i)) \<le> 2 * b"
    using ev i by (auto dest: nth_mem)
  have s2: "unat (seq (cells r ! ?i) + 2) = unat (seq (cells r ! ?i)) + 2"
    using old b by (intro unat_plus2_nowrap) simp
  have wc1: "unat (write_count r + 1) = ?P + 1"
    using wc hb b by (subst unat_plus1_nowrap) auto
  have seq': "seq (cells r ! ?i) + 2 \<noteq> 0" using s2 by (metis add_2_eq_Suc' nat.distinct(1) unsigned_0)
  have other: "p mod ?N \<noteq> ?i" if "p < ?P" "?P < p + ?N" for p
    using pos_mod_neq [OF that] .
  have "holds_pos (Store v r) p ((h @ [v]) ! p)"
    if "?P + 1 \<le> p + min ?N (m + 1)" "p < ?P + 1" for p
  proof (cases "p = ?P")
    case True
    then show ?thesis using i old seq' by (simp add: holds_pos_def eq Let_def wc)
  next
    case False
    with that have p: "p < ?P" "?P < p + ?N" "?P \<le> p + m" using N by auto
    with ok [of p] other [of p] show ?thesis
      by (simp add: holds_pos_def eq Let_def nth_append)
  qed
  moreover have "seq (cells (Store v r) ! (p mod ?N)) = 0"
    if "?P + 1 \<le> p + ?N" "p + min ?N (m + 1) < ?P + 1" for p
  proof -
    from that have p: "p < ?P" "?P < p + ?N" "?P \<le> p + ?N" "p + m < ?P" using N mN by auto
    with gone [of p] other [of p] show ?thesis by (simp add: eq)
  qed
  moreover have "even (seq c) \<and> unat (seq c) \<le> 2 * (b + 1)" if "c \<in> set (cells (Store v r))" for c
  proof -
    from that have "c = ?c \<or> c \<in> set (cells r)"
      using set_update_subset_insert [of "cells r" ?i ?c] by (auto simp: eq)
    then show ?thesis using ev [of c] old s2 by auto
  qed
  moreover have "shape (Store v r)"
    using sh v set_update_subset_insert [of "cells r" ?i ?c] by (fastforce simp: shape_def eq)
  ultimately show ?thesis
    using wc1 hb mN hs v by (auto simp: ring_repr_def eq)
qed

lemma ring_repr_readable:
  "ring_repr r h m b \<Longrightarrow> p < length h \<Longrightarrow> length h \<le> p + m \<Longrightarrow> holds_pos r p (h ! p)"
  by (auto simp: ring_repr_def)

lemma ring_repr_gone:
  "ring_repr r h m b \<Longrightarrow> length h \<le> p + depthN r \<Longrightarrow> p + m < length h \<Longrightarrow>
     seq (cells r ! (p mod depthN r)) = 0"
  by (auto simp: ring_repr_def)

lemma ring_repr_newest:
  assumes "ring_repr r h m b" "0 < m"
  shows "holds_pos r (length h - 1) (last h)" "h \<noteq> []" "unat (write_count r) = length h"
        "length (last h) = sizeofT r"
proof -
  from assms have l: "m \<le> length h" "unat (write_count r) = length h" by (simp_all add: ring_repr_def)
  with assms(2) show ne: "h \<noteq> []" and "unat (write_count r) = length h" by auto
  with assms(1) show "length (last h) = sizeofT r" by (simp add: ring_repr_def)
  have "holds_pos r (length h - 1) (h ! (length h - 1))"
    using assms l ne by (auto simp: ring_repr_def)
  then show "holds_pos r (length h - 1) (last h)" using ne by (simp add: last_conv_nth)
qed

lemma ring_repr_retracted:
  assumes "ring_repr r h 0 b" "h \<noteq> []"
  shows "seq (cell_at r (write_count r - 1)) = 0"
proof -
  have P: "unat (write_count r) = length h" and N: "0 < depthN r"
    using assms(1) by (auto simp: ring_repr_def shape_def)
  have ne: "0 < length h" using assms(2) by simp
  have "unat (write_count r - 1) = length h - 1"
    using P assms(2) by (intro unat_pred) auto
  moreover have "seq (cells r ! ((length h - 1) mod depthN r)) = 0"
    using N ne by (intro ring_repr_gone [OF assms(1)]) linarith+
  ultimately show ?thesis by (simp add: cell_at_def cell_no_def)
qed

text \<open>On a quiescent ring one attempt decides.\<close>

lemma load_attempt_repr:
  assumes R: "ring_repr r h m b"
  shows "load_attempt r = (if m = 0 then Empty else Got (stage (last h)))"
proof (cases "m = 0")
  case True
  show ?thesis
  proof (cases "h = []")
    case True
    with R have "write_count r = 0" by (simp add: ring_repr_def unat_eq_0)
    with \<open>m = 0\<close> show ?thesis by (simp add: load_attempt_def)
  next
    case False
    with R \<open>m = 0\<close> have "seq (cell_at r (write_count r - 1)) = 0"
      by (intro ring_repr_retracted) auto
    with True show ?thesis by (simp add: load_attempt_def Let_def)
  qed
next
  case False
  with R have N: "holds_pos r (length h - 1) (last h)" "h \<noteq> []" "unat (write_count r) = length h"
    by (auto dest: ring_repr_newest)
  have u: "unat (write_count r - 1) = length h - 1" and "write_count r \<noteq> 0"
    using N unat_pred [OF N(3)] by auto
  moreover have "index (cell_at r (write_count r - 1)) = write_count r - 1"
    using N u by (simp add: holds_pos_def cell_at_def cell_no_def Let_def word_unat_eq_iff)
  ultimately show ?thesis
    using N False by (simp add: load_attempt_def Let_def holds_pos_def cell_at_def cell_no_def and_one_word)
qed

lemma Load_repr:
  assumes R: "ring_repr r h m b"
  shows "Load r = Some (if m = 0 then None else Some (last h))"
  using load_attempt_repr [OF R] ring_repr_newest(4) [OF R]
  by (subst Load.simps) simp

lemma LoadBounded_repr:
  assumes R: "ring_repr r h m b"
  shows "LoadBounded r k = Some (if m = 0 then kEmpty else kValue (last h))"
  using load_attempt_repr [OF R] ring_repr_newest(4) [OF R]
  unfolding LoadBounded_def by (subst LoadBounded_loop.simps) simp

text \<open>The snapshot walk returns the readable entries, newest first.\<close>

lemma snapshot_walk_repr:
  assumes R: "ring_repr r h m b" and l: "limit \<le> depthN r" "limit \<le> length h" and i: "i \<le> limit"
  shows "snapshot_walk r (write_count r) limit i = drop i (take (min limit m) (rev h))"
  using i
proof (induction "limit - i" arbitrary: i)
  case 0
  then show ?case by (subst snapshot_walk.simps) simp
next
  case (Suc n)
  then have lt: "i < limit" by simp
  let ?p = "length h - 1 - i" and ?want = "write_count r - 1 - of_nat i"
  have P: "unat (write_count r) = length h" using R by (simp add: ring_repr_def)
  have hb: "length h < 2 ^ 64" using P unat_u64_bound [of "write_count r"] by simp
  have "unat (write_count r - 1) = length h - 1" using P lt l by (intro unat_pred) auto
  then have u: "unat ?want = ?p"
    using lt l hb by (simp add: unat_sub word_le_nat_alt unat_of_nat_u64)
  show ?case
  proof (cases "i < m")
    case True
    then have "holds_pos r ?p (h ! ?p)" using lt l by (intro ring_repr_readable [OF R]) auto
    moreover from this have "index (cell_at r ?want) = ?want"
      using u by (simp add: holds_pos_def cell_at_def cell_no_def Let_def word_unat_eq_iff)
    moreover have "length (h ! ?p) = sizeofT r" using R lt l by (auto simp: ring_repr_def)
    moreover have "snapshot_walk r (write_count r) limit (Suc i) = drop (Suc i) (take (min limit m) (rev h))"
      using Suc by auto
    moreover have "drop i (take (min limit m) (rev h)) = h ! ?p # drop (Suc i) (take (min limit m) (rev h))"
      using True lt l by (subst Cons_nth_drop_Suc [symmetric]) (auto simp: rev_nth)
    ultimately show ?thesis
      using lt by (subst snapshot_walk.simps)
        (auto simp: Let_def holds_pos_def cell_at_def cell_no_def u and_one_word dest: sym)
  next
    case False
    have "seq (cells r ! (?p mod depthN r)) = 0"
      using lt l False by (intro ring_repr_gone [OF R]) auto
    then show ?thesis
      using lt False by (subst snapshot_walk.simps) (simp add: Let_def cell_at_def cell_no_def u)
  qed
qed

lemma Snapshot_repr:
  assumes R: "ring_repr r h m b"
  shows "Snapshot r k = take (min k m) (rev h)"
proof -
  have P: "unat (write_count r) = length h" and m: "m \<le> depthN r" "m \<le> length h"
    using R by (auto simp: ring_repr_def)
  have lim: "snapshot_limit k (write_count r) (depthN r) = min k (min (length h) (depthN r))"
    by (simp add: snapshot_limit_def P min_def)
  show ?thesis
    unfolding Snapshot_def Let_def lim
    using snapshot_walk_repr [OF R, of "min k (min (length h) (depthN r))" 0] m
    by (simp add: min.commute min.left_commute min_def)
qed
section \<open>Termination of the bounded read\<close>

text \<open>One attempt on a fixed ring either decides or repeats identically.\<close>

definition attempt_result :: "Ring \<Rightarrow> LoadResult" where
  "attempt_result r =
     (case load_attempt r of Empty \<Rightarrow> kEmpty | Got staged \<Rightarrow> kValue (unstage (sizeofT r) staged) | Retry \<Rightarrow> kStalled)"

lemma LoadBounded_loop_returns:
  assumes "max_retries \<noteq> - 1" "a \<le> max_retries"
  shows "LoadBounded_loop r max_retries a = Some (attempt_result r)"
  using assms(2)
proof (induction "unat max_retries - unat a" arbitrary: a rule: less_induct)
  case less
  have next_a: "unat (a + 1) = unat a + 1"
    using assms(1) less.prems by (intro unat_inc_u32) (auto dest: order.antisym [OF word_order.extremum])
  show ?case
  proof (cases "a = max_retries")
    case True
    then have "\<not> a + 1 \<le> max_retries" using next_a by (simp add: word_le_nat_alt)
    then show ?thesis
      using less.prems LoadBounded_loop.simps [of r max_retries "a + 1"]
      by (subst LoadBounded_loop.simps) (simp add: attempt_result_def split: attempt.split)
  next
    case False
    with less.prems have lt: "unat a < unat max_retries" by (simp add: word_less_nat_alt [symmetric])
    then have "unat max_retries - unat (a + 1) < unat max_retries - unat a" "a + 1 \<le> max_retries"
      using next_a by (simp_all add: word_le_nat_alt)
    from less.hyps [OF this] less.prems show ?thesis
      by (subst LoadBounded_loop.simps) (simp add: attempt_result_def split: attempt.split)
  qed
qed

lemma LoadBounded_returns:
  "max_retries \<noteq> - 1 \<Longrightarrow> LoadBounded r max_retries = Some (attempt_result r)"
  unfolding LoadBounded_def by (rule LoadBounded_loop_returns) simp_all

text \<open>
  With \<open>max_retries = UINT32_MAX\<close> the guard is always true: the loop does not end
  while attempts ask for a retry.
\<close>

lemma LoadBounded_loop_decides:
  assumes "LoadBounded_loop r mx a = Some x"
  shows "mx = - 1 \<longrightarrow> load_attempt r \<noteq> Retry"
  by (rule LoadBounded_loop.raw_induct [where P = "\<lambda>r mx a x. mx = - 1 \<longrightarrow> load_attempt r \<noteq> Retry", OF _ assms])
    (auto split: attempt.splits if_splits)

lemma Load_decides:
  assumes "Load r = Some x"
  shows "load_attempt r \<noteq> Retry"
  by (rule Load.raw_induct [where P = "\<lambda>r x. load_attempt r \<noteq> Retry", OF _ assms])
    (auto split: attempt.splits)

section \<open>Crash and repair of a quiescent ring\<close>

text \<open>
  The shared-memory writes of one \<open>Store\<close> in program order, and the ring a
  writer killed after \<open>n\<close> of them leaves behind.
\<close>

definition store_writes :: "u8 list \<Rightarrow> Ring \<Rightarrow> (Ring \<Rightarrow> Ring) list" where
  "store_writes value r =
     (let idx = write_count r; c = cell_no r idx; staged = stage value; s = seq (cells r ! c)
      in [set_seq c (s + 1), set_index c idx]
         @ map (\<lambda>k. set_word c k (staged ! k)) [0..<length staged]
         @ [set_seq c (s + 2), set_count (idx + 1)])"

definition crashed_store :: "nat \<Rightarrow> u8 list \<Rightarrow> Ring \<Rightarrow> Ring" where
  "crashed_store n value r = fold (\<lambda>f. f) (take n (store_writes value r)) r"

lemma store_words_fold:
  "fold (\<lambda>f. f) (map (\<lambda>k. set_word i k (ws ! k)) [j..<length ws]) r = store_words i j (drop j ws) r"
proof (induction "length ws - j" arbitrary: j r)
  case 0
  then show ?case by simp
next
  case (Suc n)
  then have j: "j < length ws" by simp
  then have "[j..<length ws] = j # [Suc j..<length ws]" by (rule upt_conv_Cons)
  moreover have "drop j ws = ws ! j # drop (Suc j) ws" using j by (rule Cons_nth_drop_Suc [symmetric])
  moreover have "n = length ws - Suc j" using Suc.hyps(2) by simp
  ultimately show ?case using Suc.hyps(1) by simp
qed

lemma Store_is_all_writes: "Store v r = fold (\<lambda>f. f) (store_writes v r) r"
  using store_words_fold [of "cell_no r (write_count r)" "stage v" 0]
  by (simp add: Store_def store_writes_def Let_def)

definition mid_store :: "Ring \<Rightarrow> Ring \<Rightarrow> bool" where
  "mid_store r r' \<longleftrightarrow> (\<exists>c'. r' = r\<lparr>cells := (cells r)[cell_no r (write_count r) := c']\<rparr>
      \<and> seq c' = seq (cell_at r (write_count r)) + 1 \<and> length (words_of c') = kWords (sizeofT r))"

lemma mid_store_index: "mid_store r r' \<Longrightarrow> shape r \<Longrightarrow> mid_store r (set_index (cell_no r (write_count r)) x r')"
  by (auto simp: mid_store_def set_index_def cell_no_def shape_def)

lemma mid_store_word: "mid_store r r' \<Longrightarrow> shape r \<Longrightarrow> mid_store r (set_word (cell_no r (write_count r)) k x r')"
  by (auto simp: mid_store_def set_word_def cell_no_def shape_def)

lemma crashed_store_mid:
  assumes "shape r" "length v = sizeofT r" "1 \<le> n" "n \<le> kWords (sizeofT r) + 2"
  shows "mid_store r (crashed_store n v r)"
proof -
  let ?c = "cell_no r (write_count r)"
  let ?mid = "set_index ?c (write_count r) # map (\<lambda>k. set_word ?c k (stage v ! k)) [0..<kWords (sizeofT r)]"
  have "take n (store_writes v r) = set_seq ?c (seq (cells r ! ?c) + 1) # take (n - 1) ?mid"
    using assms by (cases n) (simp_all add: store_writes_def Let_def take_Cons' del: append.simps)
  moreover have "mid_store r (set_seq ?c (seq (cells r ! ?c) + 1) r)"
    using assms(1) by (auto simp: mid_store_def set_seq_def cell_at_def shape_def cell_no_def)
  moreover have "mid_store r (fold (\<lambda>f. f) (take (n - 1) ?mid) r')" if "mid_store r r'" for r'
  proof (rule fold_invariant [where Q = "\<lambda>f. f \<in> set ?mid"])
    show "f \<in> set ?mid" if "f \<in> set (take (n - 1) ?mid)" for f using that by (rule in_set_takeD)
    show "mid_store r (f s)" if "f \<in> set ?mid" "mid_store r s" for f s
      using that assms(1) by (auto intro: mid_store_index mid_store_word)
  qed (rule that)
  ultimately show ?thesis by (simp add: crashed_store_def)
qed

lemma Repair_mid_store:
  assumes R: "ring_repr r h m b" and M: "mid_store r r'"
  shows "ring_repr (RepairAfterWriterCrash r') h (min m (depthN r - 1)) b"
proof -
  let ?N = "depthN r" and ?P = "length h"
  have sh: "shape r" and N: "0 < ?N" and P: "unat (write_count r) = ?P"
    using R by (auto simp: ring_repr_def shape_def)
  have cn: "cell_no r (write_count r) = ?P mod ?N" by (simp add: cell_no_def P)
  have i: "?P mod ?N < ?N" using N by simp
  obtain c' where c': "r' = r\<lparr>cells := (cells r)[?P mod ?N := c']\<rparr>" "length (words_of c') = kWords (sizeofT r)"
      "seq c' = seq (cells r ! (?P mod ?N)) + 1"
    using M by (auto simp: mid_store_def cn cell_at_def)
  have "even (seq (cells r ! (?P mod ?N)))" using R i by (auto simp: ring_repr_def)
  then have rep: "RepairAfterWriterCrash r' = r\<lparr>cells := (cells r)[?P mod ?N := c'\<lparr>seq := 0\<rparr>]\<rparr>"
    using i c' by (simp add: RepairAfterWriterCrash_def cell_no_def P Let_def and_one_word set_seq_def)
  have other: "p mod ?N \<noteq> ?P mod ?N" if "p < ?P" "?P < p + ?N" for p
    using pos_mod_neq [OF that] .
  have wrap: "seq (cells (RepairAfterWriterCrash r') ! (p mod ?N)) = 0"
    if "?P \<le> p + ?N" "p + min m (?N - 1) < ?P" for p
  proof (cases "p + ?N = ?P")
    case True
    then have "p mod ?N = ?P mod ?N" by (metis mod_add_self2)
    then show ?thesis using i by (simp add: rep)
  next
    case False
    with that have "p + m < ?P" by auto
    with that ring_repr_gone [OF R, of p] other [of p] False show ?thesis by (auto simp: rep)
  qed
  have keep: "holds_pos (RepairAfterWriterCrash r') p (h ! p)"
    if "?P \<le> p + min m (?N - 1)" "p < ?P" for p
  proof -
    have "?P < p + ?N" "?P \<le> p + m" using that N by auto
    with that other [of p] ring_repr_readable [OF R, of p] show ?thesis
      by (simp add: holds_pos_def rep Let_def)
  qed
  have sub: "set (cells (RepairAfterWriterCrash r')) \<subseteq> insert (c'\<lparr>seq := 0\<rparr>) (set (cells r))"
    unfolding rep by (simp add: set_update_subset_insert)
  have "shape (RepairAfterWriterCrash r')"
    using sub sh c'(2) by (auto simp: shape_def rep)
  moreover have "\<forall>c \<in> set (cells (RepairAfterWriterCrash r')). even (seq c) \<and> unat (seq c) \<le> 2 * b"
    using sub R by (auto simp: ring_repr_def)
  moreover have "depthN (RepairAfterWriterCrash r') = ?N" "sizeofT (RepairAfterWriterCrash r') = sizeofT r"
      "write_count (RepairAfterWriterCrash r') = write_count r"
    by (simp_all add: rep)
  moreover have "min m (?N - 1) \<le> ?N" "min m (?N - 1) \<le> length h"
    using R by (auto simp: ring_repr_def)
  ultimately show ?thesis
    using R wrap keep N unfolding ring_repr_def by simp
qed

section \<open>Properties\<close>

text \<open>Property C21. The bounded read is bounded for every retry budget but the largest: with
  \<open>max_retries < UINT32_MAX\<close> it returns the decision of the attempt, and reports a stalled
  writer exactly when the attempts keep asking for a retry. With \<open>max_retries = UINT32_MAX\<close> the
  loop guard \<open>attempt <= max_retries\<close> never fails, so on a dead writer's odd sequence the
  call does not return.\<close>

theorem LoadBounded_budget:
  "LoadBounded r max_retries =
     (if max_retries = - 1 \<and> load_attempt r = Retry then None
      else Some (case load_attempt r of Empty \<Rightarrow> kEmpty | Retry \<Rightarrow> kStalled
                 | Got staged \<Rightarrow> kValue (unstage (sizeofT r) staged)))"
proof (cases "max_retries = - 1")
  case True
  show ?thesis
  proof (cases "load_attempt r = Retry")
    case retry: True
    have "LoadBounded r max_retries \<noteq> Some x" for x
      using LoadBounded_loop_decides [of r max_retries 0 x] True retry by (auto simp: LoadBounded_def)
    with True retry show ?thesis by (cases "LoadBounded r max_retries") auto
  next
    case False
    with True show ?thesis
      unfolding LoadBounded_def by (subst LoadBounded_loop.simps) (auto split: attempt.splits)
  qed
next
  case False
  with LoadBounded_returns [OF False, of r] show ?thesis by (auto simp: attempt_result_def split: attempt.splits)
qed

end
