(* ===== verification/Seqlock_Conc.thy ===== *)
theory Seqlock_Conc
  imports Seqlock_Ring
begin

text \<open>
  One writer, any number of readers, writer crashes and crash repair over one
  \<open>SeqlockRing\<close>: every access to a shared atomic of
  \<open>detail/seqlock_ring.hpp\<close> is one step, and steps of different threads
  interleave arbitrarily (sequentially consistent interleaving; the fence pairs
  the header documents are what makes the executions of the C++ code such
  interleavings). Fields after the marker are ghost state: they record the history
  for the theorems and are never read by the code's steps.
\<close>

section \<open>The writer\<close>

text \<open>
  Program points of \<open>Store\<close> (the value, the loaded cursor \<open>idx\<close> and the loaded
  sequence \<open>s\<close> are its locals), of \<open>RepairAfterWriterCrash\<close>, and the dead
  writer.
\<close>

datatype wpc =
    WIdle
  | WCount "u8 list"
  | WSeq "u8 list" u64
  | WOdd "u8 list" u64 u64
  | WIndex "u8 list" u64 u64
  | WWord "u8 list" u64 u64 nat
  | WPub "u8 list" u64
  | WDead
  | WRepCount
  | WRepSeq u64
  | WRepZero u64

section \<open>The readers\<close>

datatype verb = VLoad | VBounded u32 | VSnapshot nat

datatype outcome = OEmpty | OStalled | OValue "u8 list" | OSnap "u8 list list"

datatype rpc = RIdle | RCount | RSeq | RIndex u64 | RWord u64 u64 "u64 list" | RDone outcome

record reader =
  verb_of :: verb
  pc :: rpc
  tries :: u32
  cur :: u64
  limit_of :: nat
  taken :: "u8 list list"

record sys =
  ring :: Ring
  wpc_of :: wpc
  readers :: "nat \<Rightarrow> reader"
  \<comment> \<open>ghost: published values, completed but unpublished value, effective repairs, stores begun\<close>
  hist :: "u8 list list"
  pend :: "u8 list option"
  repairs :: nat
  stores :: nat
  \<comment> \<open>ghost, per reader: repairs at the copy's first sequence load, copy free of repairs,
      values published when the verb was called\<close>
  gep :: "nat \<Rightarrow> nat"
  gclean :: "nat \<Rightarrow> bool"
  gfrom :: "nat \<Rightarrow> nat"

section \<open>Steps of the writer\<close>

text \<open>\<open>RepairAfterWriterCrash\<close>, one access per step.\<close>

definition repair_step :: "sys \<Rightarrow> sys" where
  "repair_step s =
     (let r = ring s in
      case wpc_of s of
        WRepCount \<Rightarrow> s\<lparr>wpc_of := WRepSeq (write_count r)\<rparr>
      | WRepSeq c \<Rightarrow>
          (if seq (cell_at r c) AND 1 \<noteq> 0 then s\<lparr>wpc_of := WRepZero c\<rparr> else s\<lparr>wpc_of := WIdle\<rparr>)
      | WRepZero c \<Rightarrow>
          s\<lparr>ring := set_seq (cell_no r c) 0 r, wpc_of := WIdle, repairs := Suc (repairs s)\<rparr>
      | _ \<Rightarrow> s)"

text \<open>\<open>Store\<close>, one access per step; a repairing writer takes its own steps.\<close>

definition writer_step :: "sys \<Rightarrow> sys" where
  "writer_step s =
     (let r = ring s in
      case wpc_of s of
        WCount v \<Rightarrow> s\<lparr>wpc_of := WSeq v (write_count r)\<rparr>
      | WSeq v idx \<Rightarrow> s\<lparr>wpc_of := WOdd v idx (seq (cell_at r idx))\<rparr>
      | WOdd v idx q \<Rightarrow>
          s\<lparr>ring := set_seq (cell_no r idx) (q + 1) r, wpc_of := WIndex v idx q, pend := None\<rparr>
      | WIndex v idx q \<Rightarrow>
          s\<lparr>ring := set_index (cell_no r idx) idx r, wpc_of := WWord v idx q 0\<rparr>
      | WWord v idx q k \<Rightarrow>
          (if k < length (stage v)
           then s\<lparr>ring := set_word (cell_no r idx) k (stage v ! k) r, wpc_of := WWord v idx q (Suc k)\<rparr>
           else s\<lparr>ring := set_seq (cell_no r idx) (q + 2) r, wpc_of := WPub v idx, pend := Some v\<rparr>)
      | WPub v idx \<Rightarrow>
          s\<lparr>ring := set_count (idx + 1) r, wpc_of := WIdle, pend := None, hist := hist s @ [v]\<rparr>
      | _ \<Rightarrow> repair_step s)"

lemmas writer_steps = writer_step_def repair_step_def

section \<open>Steps of a reader\<close>

definition want_of :: "reader \<Rightarrow> u64" where
  "want_of rd = cur rd - 1 - of_nat (length (taken rd))"

text \<open>A failed validation: \<open>Load\<close> retries, \<open>LoadBounded\<close> spends its budget,
  \<open>Snapshot\<close> ends.\<close>

definition retry :: "reader \<Rightarrow> reader" where
  "retry rd =
     (case verb_of rd of
        VLoad \<Rightarrow> rd\<lparr>pc := RCount\<rparr>
      | VBounded m \<Rightarrow>
          (if tries rd + 1 \<le> m then rd\<lparr>pc := RCount, tries := tries rd + 1\<rparr>
           else rd\<lparr>pc := RDone OStalled\<rparr>)
      | VSnapshot k \<Rightarrow> rd\<lparr>pc := RDone (OSnap (taken rd))\<rparr>)"

definition accept :: "nat \<Rightarrow> u64 list \<Rightarrow> reader \<Rightarrow> reader" where
  "accept sz staged rd =
     (case verb_of rd of
        VSnapshot k \<Rightarrow>
          (let out = taken rd @ [unstage sz staged] in
           if length out < limit_of rd then rd\<lparr>taken := out, pc := RSeq\<rparr>
           else rd\<lparr>taken := out, pc := RDone (OSnap out)\<rparr>)
      | _ \<Rightarrow> rd\<lparr>pc := RDone (OValue (unstage sz staged))\<rparr>)"

definition read_cursor :: "Ring \<Rightarrow> reader \<Rightarrow> reader" where
  "read_cursor r rd0 =
     (let c = write_count r; rd = rd0\<lparr>cur := c\<rparr> in
      case verb_of rd of
        VSnapshot k \<Rightarrow>
          (let limit = snapshot_limit k c (depthN r) in
           if 0 < limit then rd\<lparr>limit_of := limit, pc := RSeq\<rparr>
           else rd\<lparr>limit_of := limit, pc := RDone (OSnap [])\<rparr>)
      | _ \<Rightarrow> if c = 0 then rd\<lparr>pc := RDone OEmpty\<rparr> else rd\<lparr>pc := RSeq\<rparr>)"

definition read_seq :: "u64 \<Rightarrow> reader \<Rightarrow> reader" where
  "read_seq s1 rd =
     (if s1 = 0 then
        (case verb_of rd of
           VSnapshot k \<Rightarrow> rd\<lparr>pc := RDone (OSnap (taken rd))\<rparr>
         | _ \<Rightarrow> rd\<lparr>pc := RDone OEmpty\<rparr>)
      else if s1 AND 1 \<noteq> 0 then retry rd
      else rd\<lparr>pc := RIndex s1\<rparr>)"

definition read_check :: "Ring \<Rightarrow> u64 \<Rightarrow> u64 \<Rightarrow> u64 list \<Rightarrow> reader \<Rightarrow> reader" where
  "read_check r s1 idx staged rd =
     (if seq (cell_at r (want_of rd)) \<noteq> s1 then retry rd
      else if idx \<noteq> want_of rd then retry rd
      else accept (sizeofT r) staged rd)"

definition reader_step :: "Ring \<Rightarrow> reader \<Rightarrow> reader" where
  "reader_step r rd =
     (case pc rd of
        RCount \<Rightarrow> read_cursor r rd
      | RSeq \<Rightarrow> read_seq (seq (cell_at r (want_of rd))) rd
      | RIndex s1 \<Rightarrow> rd\<lparr>pc := RWord s1 (index (cell_at r (want_of rd))) []\<rparr>
      | RWord s1 idx staged \<Rightarrow>
          (if length staged < kWords (sizeofT r)
           then rd\<lparr>pc := RWord s1 idx
                  (staged @ [words_of (cell_at r (want_of rd)) ! length staged])\<rparr>
           else read_check r s1 idx staged rd)
      | RIdle \<Rightarrow> rd
      | RDone out \<Rightarrow> rd)"

definition call_reader :: "verb \<Rightarrow> reader" where
  "call_reader v = \<lparr>verb_of = v, pc = RCount, tries = 0, cur = 0, limit_of = 0, taken = []\<rparr>"

fun copying :: "rpc \<Rightarrow> bool" where
  "copying (RIndex s1) = True"
| "copying (RWord s1 idx staged) = True"
| "copying p = False"

definition read_step :: "nat \<Rightarrow> sys \<Rightarrow> sys" where
  "read_step i s =
     (let rd = readers s i in
      s\<lparr>readers := (readers s)(i := reader_step (ring s) rd),
        gep := (if pc rd = RSeq then (gep s)(i := repairs s) else gep s),
        gclean := (gclean s)(i := (pc rd = RCount \<or>
                     gclean s i \<and> (copying (pc rd) \<longrightarrow> gep s i = repairs s)))\<rparr>)"

definition invoke :: "nat \<Rightarrow> verb \<Rightarrow> sys \<Rightarrow> sys" where
  "invoke i v s = s\<lparr>readers := (readers s)(i := call_reader v), gfrom := (gfrom s)(i := length (hist s))\<rparr>"

section \<open>The system\<close>

fun ready :: "rpc \<Rightarrow> bool" where
  "ready RIdle = True"
| "ready (RDone out) = True"
| "ready p = False"

inductive step :: "sys \<Rightarrow> sys \<Rightarrow> bool" where
  begin_store: "wpc_of s = WIdle \<Longrightarrow> length v = sizeofT (ring s) \<Longrightarrow>
    step s (s\<lparr>wpc_of := WCount v, stores := Suc (stores s)\<rparr>)"
| writer: "wpc_of s \<noteq> WIdle \<Longrightarrow> wpc_of s \<noteq> WDead \<Longrightarrow> step s (writer_step s)"
| crash: "wpc_of s \<noteq> WDead \<Longrightarrow> step s (s\<lparr>wpc_of := WDead\<rparr>)"
| reclaim: "wpc_of s = WDead \<Longrightarrow> step s (s\<lparr>wpc_of := WRepCount\<rparr>)"
| call: "ready (pc (readers s i)) \<Longrightarrow> step s (invoke i v s)"
| read: "\<not> ready (pc (readers s i)) \<Longrightarrow> step s (read_step i s)"

definition init_sys :: "nat \<Rightarrow> nat \<Rightarrow> sys" where
  "init_sys n sz =
     \<lparr>ring = fresh_ring n sz, wpc_of = WIdle,
      readers = (\<lambda>_. \<lparr>verb_of = VLoad, pc = RIdle, tries = 0, cur = 0, limit_of = 0, taken = []\<rparr>),
      hist = [], pend = None, repairs = 0, stores = 0,
      gep = (\<lambda>_. 0), gclean = (\<lambda>_. True), gfrom = (\<lambda>_. 0)\<rparr>"

definition initial :: "sys \<Rightarrow> bool" where
  "initial s \<longleftrightarrow> (\<exists>n sz. 0 < n \<and> s = init_sys n sz)"

text \<open>Schedules: the same steps as a function, so that concrete runs evaluate.\<close>

datatype action = Begin "u8 list" | Write | Crash | Reclaim | Call nat verb | Read nat

definition exec :: "action \<Rightarrow> sys \<Rightarrow> sys option" where
  "exec a s =
     (case a of
        Begin v \<Rightarrow> if wpc_of s = WIdle \<and> length v = sizeofT (ring s)
                   then Some (s\<lparr>wpc_of := WCount v, stores := Suc (stores s)\<rparr>) else None
      | Write \<Rightarrow> if wpc_of s \<noteq> WIdle \<and> wpc_of s \<noteq> WDead then Some (writer_step s) else None
      | Crash \<Rightarrow> if wpc_of s \<noteq> WDead then Some (s\<lparr>wpc_of := WDead\<rparr>) else None
      | Reclaim \<Rightarrow> if wpc_of s = WDead then Some (s\<lparr>wpc_of := WRepCount\<rparr>) else None
      | Call i v \<Rightarrow> if ready (pc (readers s i)) then Some (invoke i v s) else None
      | Read i \<Rightarrow> if \<not> ready (pc (readers s i)) then Some (read_step i s) else None)"

fun run :: "action list \<Rightarrow> sys \<Rightarrow> sys option" where
  "run [] s = Some s"
| "run (a # as) s = (case exec a s of None \<Rightarrow> None | Some t \<Rightarrow> run as t)"

lemma exec_step: "exec a s = Some t \<Longrightarrow> step s t"
  by (cases a) (auto simp: exec_def intro: step.intros split: if_splits)

lemma run_reach: "run as s = Some t \<Longrightarrow> reach initial step s \<Longrightarrow> reach initial step t"
proof (induction as arbitrary: s)
  case (Cons a as)
  then show ?case by (auto split: option.splits dest: exec_step intro: reach_step)
qed simp

section \<open>The invariant of the ring and its writer\<close>

abbreviation pubs :: "sys \<Rightarrow> nat" where
  "pubs s \<equiv> length (hist s)"

definition tgt :: "sys \<Rightarrow> nat" where
  "tgt s = pubs s mod depthN (ring s)"

abbreviation tcell :: "sys \<Rightarrow> Cell" where
  "tcell s \<equiv> cells (ring s) ! tgt s"

fun quiet :: "wpc \<Rightarrow> bool" where
  "quiet WIdle = True" | "quiet (WCount v) = True" | "quiet (WSeq v idx) = True"
| "quiet (WOdd v idx q) = True" | "quiet (WPub v idx) = True" | "quiet p = False"

definition base_inv :: "sys \<Rightarrow> bool" where
  "base_inv s \<longleftrightarrow> shape (ring s) \<and> unat (write_count (ring s)) = pubs s \<and>
     (\<forall>v \<in> set (hist s). length v = sizeofT (ring s))"

text \<open>A cell is empty, or holds the newest completed position of its residue class, or is
  the one cell a store is (or died) writing.\<close>

definition cell_inv :: "sys \<Rightarrow> nat \<Rightarrow> bool" where
  "cell_inv s j \<longleftrightarrow>
     (let c = cells (ring s) ! j; p = unat (index c) in
      (even (seq c) \<and> seq c \<noteq> 0 \<longrightarrow>
         p mod depthN (ring s) = j \<and> pubs s \<le> p + depthN (ring s) \<and>
         (p < pubs s \<and> words_of c = stage (hist s ! p) \<or>
          p = pubs s \<and> pubs s < stores s \<and> (\<exists>w. pend s = Some w \<and> words_of c = stage w))) \<and>
      (odd (seq c) \<longrightarrow> j = tgt s \<and> \<not> quiet (wpc_of s) \<and> pubs s < stores s) \<and>
      unat (seq c) \<le> 2 * stores s \<and>
      (repairs s = 0 \<and> j < pubs s \<longrightarrow> seq c \<noteq> 0))"

definition room :: "sys \<Rightarrow> u8 list \<Rightarrow> u64 \<Rightarrow> bool" where
  "room s v q \<longleftrightarrow> length v = sizeofT (ring s) \<and> pubs s < stores s \<and> even q \<and> unat q + 2 \<le> 2 * stores s"

fun writer_inv :: "sys \<Rightarrow> wpc \<Rightarrow> bool" where
  "writer_inv s (WCount v) \<longleftrightarrow> room s v (seq (tcell s))"
| "writer_inv s (WSeq v idx) \<longleftrightarrow> room s v (seq (tcell s)) \<and> idx = write_count (ring s)"
| "writer_inv s (WOdd v idx q) \<longleftrightarrow> room s v q \<and> idx = write_count (ring s) \<and> q = seq (tcell s)"
| "writer_inv s (WIndex v idx q) \<longleftrightarrow> room s v q \<and> idx = write_count (ring s) \<and> seq (tcell s) = q + 1"
| "writer_inv s (WWord v idx q k) \<longleftrightarrow> room s v q \<and> idx = write_count (ring s) \<and> seq (tcell s) = q + 1 \<and>
     index (tcell s) = idx \<and> k \<le> length (stage v) \<and> take k (words_of (tcell s)) = take k (stage v)"
| "writer_inv s (WPub v idx) \<longleftrightarrow> length v = sizeofT (ring s) \<and> pubs s < stores s \<and> idx = write_count (ring s) \<and>
     even (seq (tcell s)) \<and> seq (tcell s) \<noteq> 0 \<and> index (tcell s) = idx \<and> words_of (tcell s) = stage v"
| "writer_inv s (WRepSeq c) \<longleftrightarrow> pubs s \<le> stores s \<and> c = write_count (ring s)"
| "writer_inv s (WRepZero c) \<longleftrightarrow> pubs s \<le> stores s \<and> c = write_count (ring s) \<and> odd (seq (tcell s))"
| "writer_inv s p \<longleftrightarrow> pubs s \<le> stores s"

definition ring_inv :: "sys \<Rightarrow> bool" where
  "ring_inv s \<longleftrightarrow> base_inv s \<and> (\<forall>j < depthN (ring s). cell_inv s j) \<and> writer_inv s (wpc_of s)"

definition fits :: "sys \<Rightarrow> bool" where
  "fits s \<longleftrightarrow> stores s < 2 ^ 63"

lemma tgt_less: "base_inv s \<Longrightarrow> tgt s < depthN (ring s)"
  by (simp add: base_inv_def shape_def tgt_def)

lemma cell_no_tgt: "base_inv s \<Longrightarrow> cell_no (ring s) (write_count (ring s)) = tgt s"
  by (simp add: base_inv_def cell_no_def tgt_def)

lemma writer_inv_stores: "writer_inv s p \<Longrightarrow> pubs s \<le> stores s"
  by (cases p) (auto simp: room_def)

text \<open>What a step of the writer side can do to the shared state, as the readers see it.\<close>

definition weff :: "sys \<Rightarrow> sys \<Rightarrow> bool" where
  "weff s t \<longleftrightarrow>
     depthN (ring t) = depthN (ring s) \<and> sizeofT (ring t) = sizeofT (ring s) \<and>
     readers t = readers s \<and> gep t = gep s \<and> gclean t = gclean s \<and> gfrom t = gfrom s \<and>
     (\<exists>vs. hist t = hist s @ vs) \<and> repairs s \<le> repairs t \<and> stores s \<le> stores t \<and>
     (\<forall>j < depthN (ring s). repairs t \<noteq> repairs s \<or> cells (ring t) ! j = cells (ring s) ! j \<or>
        odd (seq (cells (ring s) ! j)) \<and> seq (cells (ring t) ! j) = seq (cells (ring s) ! j) \<or>
        unat (seq (cells (ring s) ! j)) < unat (seq (cells (ring t) ! j)) \<and> j = tgt s \<and> pubs s < stores s)"

lemmas inv_defs = ring_inv_def base_inv_def cell_inv_def Let_def tgt_def weff_def

text \<open>One lemma per program point.\<close>

lemma WCount_inv: "ring_inv s \<Longrightarrow> wpc_of s = WCount v \<Longrightarrow> ring_inv (writer_step s) \<and> weff s (writer_step s)"
  by (auto simp: inv_defs room_def writer_steps)

lemma WSeq_inv: "ring_inv s \<Longrightarrow> wpc_of s = WSeq v idx \<Longrightarrow> ring_inv (writer_step s) \<and> weff s (writer_step s)"
  by (auto simp: inv_defs room_def writer_steps cell_at_def cell_no_def)


text \<open>The steps that write the target cell share one frame: the other cells, the history and
  the cursor are untouched.\<close>

definition put_tcell :: "Cell \<Rightarrow> wpc \<Rightarrow> u8 list option \<Rightarrow> nat \<Rightarrow> sys \<Rightarrow> sys" where
  "put_tcell c p d e s =
     s\<lparr>ring := (ring s)\<lparr>cells := (cells (ring s))[tgt s := c]\<rparr>, wpc_of := p, pend := d, repairs := e\<rparr>"

lemma put_tcell_sel [simp]:
  "depthN (ring (put_tcell c p d e s)) = depthN (ring s)" "hist (put_tcell c p d e s) = hist s"
  "sizeofT (ring (put_tcell c p d e s)) = sizeofT (ring s)" "tgt (put_tcell c p d e s) = tgt s"
  "write_count (ring (put_tcell c p d e s)) = write_count (ring s)" "stores (put_tcell c p d e s) = stores s"
  "wpc_of (put_tcell c p d e s) = p" "pend (put_tcell c p d e s) = d" "repairs (put_tcell c p d e s) = e"
  "cells (ring (put_tcell c p d e s)) = (cells (ring s))[tgt s := c]"
  by (simp_all add: put_tcell_def tgt_def)

lemma put_tcell_inv:
  assumes I: "ring_inv s" and len: "length (words_of c) = kWords (sizeofT (ring s))"
    and cell: "cell_inv (put_tcell c p d e s) (tgt s)"
    and w: "writer_inv (put_tcell c p d e s) p" and e: "repairs s \<le> e"
  shows "ring_inv (put_tcell c p d e s)"
proof -
  have B: "base_inv s" and C: "\<And>j. j < depthN (ring s) \<Longrightarrow> cell_inv s j"
    using I by (auto simp: ring_inv_def)
  have "base_inv (put_tcell c p d e s)"
    using B len set_update_subset_insert [of "cells (ring s)" "tgt s" c]
    by (auto simp: base_inv_def shape_def)
  moreover have "cell_inv (put_tcell c p d e s) j" if "j < depthN (ring s)" "j \<noteq> tgt s" for j
    using C [OF that(1)] that e by (auto simp: cell_inv_def Let_def tgt_def [of s])
  ultimately show ?thesis using cell w by (auto simp: ring_inv_def)
qed

lemma put_tcell_weff:
  assumes "base_inv s" "repairs s \<le> e"
    and "repairs s \<noteq> e \<or> odd (seq (tcell s)) \<and> seq c = seq (tcell s) \<or> unat (seq (tcell s)) < unat (seq c) \<and> pubs s < stores s"
  shows "weff s (put_tcell c p d e s)"
  using assms tgt_less [OF assms(1)] by (auto simp: weff_def nth_list_update) (auto simp: put_tcell_def)

lemma set_to_put_tcell:
  "s\<lparr>ring := set_seq (tgt s) q (ring s), wpc_of := p, pend := d\<rparr> = put_tcell ((tcell s)\<lparr>seq := q\<rparr>) p d (repairs s) s"
  "s\<lparr>ring := set_seq (tgt s) q (ring s), wpc_of := p, repairs := e\<rparr> = put_tcell ((tcell s)\<lparr>seq := q\<rparr>) p (pend s) e s"
  "s\<lparr>ring := set_index (tgt s) x (ring s), wpc_of := p\<rparr> = put_tcell ((tcell s)\<lparr>index := x\<rparr>) p (pend s) (repairs s) s"
  "s\<lparr>ring := set_word (tgt s) k y (ring s), wpc_of := p\<rparr> =
     put_tcell ((tcell s)\<lparr>words_of := (words_of (tcell s))[k := y]\<rparr>) p (pend s) (repairs s) s"
  by (simp_all add: put_tcell_def set_seq_def set_index_def set_word_def)

lemma ring_invD:
  assumes "ring_inv s"
  shows "base_inv s" "tgt s < depthN (ring s)" "cell_inv s (tgt s)" "writer_inv s (wpc_of s)"
    "length (words_of (tcell s)) = kWords (sizeofT (ring s))"
    "unat (write_count (ring s)) = pubs s" "pubs s mod depthN (ring s) = tgt s"
  using assms tgt_less [of s] by (auto simp: ring_inv_def base_inv_def shape_nth tgt_def)

lemma room_nowrap:
  "room s v q \<Longrightarrow> fits s \<Longrightarrow> unat (q + 1) = unat q + 1" "room s v q \<Longrightarrow> fits s \<Longrightarrow> unat (q + 2) = unat q + 2"
  by (rule unat_plus1_nowrap unat_plus2_nowrap, simp add: room_def fits_def)+

lemma WOdd_inv:
  assumes I: "ring_inv s" "wpc_of s = WOdd v idx q" "fits s"
  shows "ring_inv (writer_step s) \<and> weff s (writer_step s)"
proof -
  note D = ring_invD [OF I(1)]
  have W: "room s v q" "idx = write_count (ring s)" "q = seq (tcell s)" using D(4) I(2) by auto
  have q1: "unat (q + 1) = unat q + 1" using W I(3) by (blast intro: room_nowrap)
  have "writer_step s = put_tcell ((tcell s)\<lparr>seq := q + 1\<rparr>) (WIndex v idx q) None (repairs s) s"
    using I(2) W by (simp add: writer_steps Let_def cell_no_tgt D(1) set_to_put_tcell)
  moreover have "ring_inv (put_tcell ((tcell s)\<lparr>seq := q + 1\<rparr>) (WIndex v idx q) None (repairs s) s)"
    by (rule put_tcell_inv [OF I(1)]) (use D W q1 in \<open>auto simp: cell_inv_def Let_def room_def\<close>)
  moreover have "weff s (put_tcell ((tcell s)\<lparr>seq := q + 1\<rparr>) (WIndex v idx q) None (repairs s) s)"
    by (rule put_tcell_weff) (use D W q1 in \<open>auto simp: room_def\<close>)
  ultimately show ?thesis by simp
qed

lemma WIndex_inv:
  assumes I: "ring_inv s" "wpc_of s = WIndex v idx q"
  shows "ring_inv (writer_step s) \<and> weff s (writer_step s)"
proof -
  note D = ring_invD [OF I(1)]
  have W: "room s v q" "idx = write_count (ring s)" "seq (tcell s) = q + 1" using D(4) I(2) by auto
  have "writer_step s = put_tcell ((tcell s)\<lparr>index := idx\<rparr>) (WWord v idx q 0) (pend s) (repairs s) s"
    using I(2) W by (simp add: writer_steps Let_def cell_no_tgt D(1) set_to_put_tcell)
  moreover have "ring_inv (put_tcell ((tcell s)\<lparr>index := idx\<rparr>) (WWord v idx q 0) (pend s) (repairs s) s)"
    by (rule put_tcell_inv [OF I(1)]) (use D W in \<open>auto simp: cell_inv_def Let_def room_def\<close>)
  moreover have "weff s (put_tcell ((tcell s)\<lparr>index := idx\<rparr>) (WWord v idx q 0) (pend s) (repairs s) s)"
    by (rule put_tcell_weff) (use D W in \<open>auto simp: room_def\<close>)
  ultimately show ?thesis by simp
qed

lemma WWord_inv:
  assumes I: "ring_inv s" "wpc_of s = WWord v idx q k" and k: "k < length (stage v)"
  shows "ring_inv (writer_step s) \<and> weff s (writer_step s)"
proof -
  note D = ring_invD [OF I(1)]
  let ?c = "(tcell s)\<lparr>words_of := (words_of (tcell s))[k := stage v ! k]\<rparr>"
  have W: "room s v q" "idx = write_count (ring s)" "seq (tcell s) = q + 1" "index (tcell s) = idx"
    "take k (words_of (tcell s)) = take k (stage v)" using D(4) I(2) by auto
  have tk: "take (Suc k) ((words_of (tcell s))[k := stage v ! k]) = take (Suc k) (stage v)"
    using k D(5) W by (simp add: take_Suc_list_update take_Suc_conv_app_nth room_def)
  have "writer_step s = put_tcell ?c (WWord v idx q (Suc k)) (pend s) (repairs s) s"
    using I(2) W k by (simp add: writer_steps Let_def cell_no_tgt D(1) set_to_put_tcell)
  moreover have "ring_inv (put_tcell ?c (WWord v idx q (Suc k)) (pend s) (repairs s) s)"
    by (rule put_tcell_inv [OF I(1)]) (use D W tk k in \<open>auto simp: cell_inv_def Let_def room_def\<close>)
  moreover have "weff s (put_tcell ?c (WWord v idx q (Suc k)) (pend s) (repairs s) s)"
    by (rule put_tcell_weff) (use D W in \<open>auto simp: room_def\<close>)
  ultimately show ?thesis by simp
qed

lemma WEven_inv:
  assumes I: "ring_inv s" "wpc_of s = WWord v idx q k" "fits s" and k: "\<not> k < length (stage v)"
  shows "ring_inv (writer_step s) \<and> weff s (writer_step s)"
proof -
  note D = ring_invD [OF I(1)]
  let ?c = "(tcell s)\<lparr>seq := q + 2\<rparr>"
  have W: "room s v q" "idx = write_count (ring s)" "seq (tcell s) = q + 1" "index (tcell s) = idx"
    "words_of (tcell s) = stage v" using D(4,5) I(2) k by (auto simp: room_def)
  have q1: "unat (q + 1) = unat q + 1" "unat (q + 2) = unat q + 2"
    using W(1) I(3) by (rule room_nowrap)+
  have q2: "q + 2 \<noteq> 0" using q1 by (metis add_2_eq_Suc' nat.distinct(1) unsigned_0)
  have "writer_step s = put_tcell ?c (WPub v idx) (Some v) (repairs s) s"
    using I(2) W k by (simp add: writer_steps Let_def cell_no_tgt D(1) set_to_put_tcell)
  moreover have "ring_inv (put_tcell ?c (WPub v idx) (Some v) (repairs s) s)"
    by (rule put_tcell_inv [OF I(1)]) (use D W q1 q2 in \<open>auto simp: cell_inv_def Let_def room_def\<close>)
  moreover have "weff s (put_tcell ?c (WPub v idx) (Some v) (repairs s) s)"
    by (rule put_tcell_weff) (use D W q1 in \<open>auto simp: room_def\<close>)
  ultimately show ?thesis by simp
qed

lemma WRepZero_inv:
  assumes I: "ring_inv s" "wpc_of s = WRepZero c"
  shows "ring_inv (writer_step s) \<and> weff s (writer_step s)"
proof -
  note D = ring_invD [OF I(1)]
  let ?c = "(tcell s)\<lparr>seq := 0\<rparr>"
  have W: "c = write_count (ring s)" "pubs s \<le> stores s" using D(4) I(2) by auto
  have "writer_step s = put_tcell ?c WIdle (pend s) (Suc (repairs s)) s"
    using I(2) W by (simp add: writer_steps Let_def cell_no_tgt D(1) set_to_put_tcell)
  moreover have "ring_inv (put_tcell ?c WIdle (pend s) (Suc (repairs s)) s)"
    by (rule put_tcell_inv [OF I(1)]) (use D W in \<open>auto simp: cell_inv_def Let_def\<close>)
  moreover have "weff s (put_tcell ?c WIdle (pend s) (Suc (repairs s)) s)"
    by (rule put_tcell_weff) (use D in auto)
  ultimately show ?thesis by simp
qed

lemma WPub_inv:
  assumes I: "ring_inv s" "wpc_of s = WPub v idx" "fits s"
  shows "ring_inv (writer_step s) \<and> weff s (writer_step s)"
proof -
  note D = ring_invD [OF I(1)]
  have W: "length v = sizeofT (ring s)" "pubs s < stores s" "idx = write_count (ring s)" "even (seq (tcell s))"
    "seq (tcell s) \<noteq> 0" "unat (index (tcell s)) = pubs s" "words_of (tcell s) = stage v"
    using D(4,6) I(2) by auto
  have t: "writer_step s = s\<lparr>ring := set_count (idx + 1) (ring s), wpc_of := WIdle, pend := None, hist := hist s @ [v]\<rparr>"
    using I(2) by (simp add: writer_steps Let_def)
  have wc: "unat (idx + 1) = pubs s + 1"
    using W D(6) I(3) by (subst unat_plus1_nowrap) (auto simp: fits_def)
  have N: "Suc 0 \<le> depthN (ring s)" using D(2) by linarith
  have "cell_inv (writer_step s) j" if j: "j < depthN (ring s)" for j
  proof (cases "j = tgt s")
    case True
    have "cell_inv s j" using I(1) j by (auto simp: ring_inv_def)
    then show ?thesis using True W D(7) N by (auto simp: cell_inv_def Let_def t ring_simps nth_append)
  next
    case False
    have C: "cell_inv s j" using I(1) j by (auto simp: ring_inv_def)
    have "unat (index (cells (ring s) ! j)) + depthN (ring s) \<noteq> pubs s"
      if "unat (index (cells (ring s) ! j)) mod depthN (ring s) = j"
      using False that D(7) by (metis mod_add_self2)
    moreover have "j \<noteq> pubs s" using False D(7) j by (metis mod_less)
    ultimately show ?thesis
      using C False D(7) I(2) by (auto simp: cell_inv_def Let_def t ring_simps nth_append)
  qed
  moreover have "base_inv (writer_step s)"
    using D(1) W wc by (auto simp: base_inv_def shape_def t ring_simps)
  moreover have "weff s (writer_step s)" by (auto simp: weff_def t ring_simps)
  moreover have "depthN (ring (writer_step s)) = depthN (ring s)" "writer_inv (writer_step s) (wpc_of (writer_step s))"
    using W by (simp_all add: t ring_simps)
  ultimately show ?thesis by (simp add: ring_inv_def)
qed

lemma ring_inv_wpc:
  assumes "ring_inv s" "writer_inv (s\<lparr>wpc_of := p\<rparr>) p" "quiet p \<longrightarrow> quiet (wpc_of s) \<or> even (seq (tcell s))"
  shows "ring_inv (s\<lparr>wpc_of := p\<rparr>) \<and> weff s (s\<lparr>wpc_of := p\<rparr>)"
  using assms by (auto simp: inv_defs)

lemma WRepCount_inv: "ring_inv s \<Longrightarrow> wpc_of s = WRepCount \<Longrightarrow> ring_inv (writer_step s) \<and> weff s (writer_step s)"
  using ring_invD(4) [of s] by (simp add: writer_steps Let_def ring_inv_wpc)

lemma WRepSeq_inv:
  assumes "ring_inv s" "wpc_of s = WRepSeq c"
  shows "ring_inv (writer_step s) \<and> weff s (writer_step s)"
proof -
  note D = ring_invD [OF assms(1)]
  have c: "c = write_count (ring s)" "pubs s \<le> stores s" using D(4) assms(2) by auto
  have t: "writer_step s = s\<lparr>wpc_of := (if even (seq (tcell s)) then WIdle else WRepZero c)\<rparr>"
    using assms(2) c by (simp add: writer_steps Let_def cell_at_def cell_no_tgt D(1) and_one_word)
  show ?thesis
    unfolding t by (rule ring_inv_wpc [OF assms(1)]) (use c in \<open>auto simp: tgt_def\<close>)
qed

lemma writer_step_inv:
  assumes "ring_inv s" "fits s" "wpc_of s \<noteq> WIdle" "wpc_of s \<noteq> WDead"
  shows "ring_inv (writer_step s) \<and> weff s (writer_step s)"
proof (cases "wpc_of s")
  case (WWord v idx q k)
  then show ?thesis
    using WWord_inv [OF assms(1) WWord] WEven_inv [OF assms(1) WWord assms(2)] by blast
qed (use assms in \<open>simp_all add: WCount_inv WSeq_inv WOdd_inv WIndex_inv WPub_inv WRepCount_inv
  WRepSeq_inv WRepZero_inv\<close>)

lemma begin_store_inv:
  assumes "ring_inv s" "wpc_of s = WIdle" "length v = sizeofT (ring s)"
  shows "ring_inv (s\<lparr>wpc_of := WCount v, stores := Suc (stores s)\<rparr>) \<and>
         weff s (s\<lparr>wpc_of := WCount v, stores := Suc (stores s)\<rparr>)"
proof -
  note D = ring_invD [OF assms(1)]
  have "even (seq (tcell s))" "unat (seq (tcell s)) \<le> 2 * stores s" "pubs s \<le> stores s"
    using D(3,4) assms(2) by (auto simp: cell_inv_def Let_def)
  with assms show ?thesis
    by (fastforce simp: ring_inv_def base_inv_def cell_inv_def Let_def tgt_def weff_def room_def)
qed

section \<open>The invariant of a reader\<close>

definition want_no :: "reader \<Rightarrow> nat" where
  "want_no rd = unat (cur rd) - 1 - length (taken rd)"

text \<open>The writer has come round to position \<open>p\<close> again: a later store to its cell has begun.\<close>

definition lapped :: "sys \<Rightarrow> nat \<Rightarrow> bool" where
  "lapped s p \<longleftrightarrow> p + depthN (ring s) \<le> pubs s \<and> p + depthN (ring s) < stores s"

lemma lappedI: "p + depthN (ring s) \<le> pubs s \<Longrightarrow> pubs s < stores s \<Longrightarrow> lapped s p"
  by (simp add: lapped_def)

abbreviation rcell :: "sys \<Rightarrow> reader \<Rightarrow> Cell" where
  "rcell s rd \<equiv> cells (ring s) ! (want_no rd mod depthN (ring s))"

text \<open>Entries are the values at strictly consecutive descending positions below the cursor.\<close>

definition descending :: "sys \<Rightarrow> u64 \<Rightarrow> u8 list list \<Rightarrow> bool" where
  "descending s c vs \<longleftrightarrow> (\<forall>j < length vs. vs ! j = hist s ! (unat c - 1 - j))"

text \<open>How many entries a verb may still return: one for the read-latest verbs,
  \<open>min(k, c, N)\<close> for a snapshot.\<close>

definition budget :: "nat \<Rightarrow> reader \<Rightarrow> nat" where
  "budget n rd = (case verb_of rd of VSnapshot k \<Rightarrow> min k (min (unat (cur rd)) n) | _ \<Rightarrow> 1)"

fun is_snapshot :: "verb \<Rightarrow> bool" where
  "is_snapshot (VSnapshot k) = True"
| "is_snapshot v = False"

definition walking :: "sys \<Rightarrow> nat \<Rightarrow> bool" where
  "walking s i \<longleftrightarrow>
     (let rd = readers s i; c = unat (cur rd); m = length (taken rd) in
      c \<le> pubs s \<and> gfrom s i \<le> c \<and> m < c \<and> m < depthN (ring s) \<and>
      m < budget (depthN (ring s)) rd \<and>
      (is_snapshot (verb_of rd) \<longrightarrow> limit_of rd = budget (depthN (ring s)) rd) \<and>
      (gclean s i \<longrightarrow> descending s (cur rd) (taken rd)))"

definition copy_inv :: "sys \<Rightarrow> nat \<Rightarrow> u64 \<Rightarrow> bool" where
  "copy_inv s i s1 \<longleftrightarrow>
     (let rd = readers s i in
      walking s i \<and> gep s i \<le> repairs s \<and> even s1 \<and> s1 \<noteq> 0 \<and>
      (gep s i = repairs s \<longrightarrow> unat s1 \<le> unat (seq (rcell s rd))) \<and>
      (repairs s = 0 \<longrightarrow> seq (rcell s rd) \<noteq> s1 \<longrightarrow> lapped s (want_no rd)))"

definition done_inv :: "sys \<Rightarrow> nat \<Rightarrow> outcome \<Rightarrow> bool" where
  "done_inv s i out \<longleftrightarrow>
     (let c = unat (cur (readers s i)) in
      case out of
        OEmpty \<Rightarrow> repairs s = 0 \<longrightarrow> gfrom s i = 0
      | OStalled \<Rightarrow> True
      | OValue v \<Rightarrow> gclean s i \<longrightarrow> 0 < c \<and> c \<le> pubs s \<and> gfrom s i \<le> c \<and> v = hist s ! (c - 1)
      | OSnap vs \<Rightarrow>
          c \<le> pubs s \<and> gfrom s i \<le> c \<and>
          length vs \<le> c \<and> length vs \<le> budget (depthN (ring s)) (readers s i) \<and>
          (repairs s = 0 \<longrightarrow> length vs < budget (depthN (ring s)) (readers s i) \<longrightarrow>
             lapped s (c - 1 - length vs)) \<and>
          (gclean s i \<longrightarrow> descending s (cur (readers s i)) vs))"

definition rd_inv :: "sys \<Rightarrow> nat \<Rightarrow> bool" where
  "rd_inv s i \<longleftrightarrow> gfrom s i \<le> pubs s \<and>
     (case pc (readers s i) of
        RIdle \<Rightarrow> True
      | RCount \<Rightarrow> taken (readers s i) = []
      | RSeq \<Rightarrow> walking s i
      | RIndex s1 \<Rightarrow> copy_inv s i s1
      | RWord s1 idx staged \<Rightarrow> copy_inv s i s1 \<and> length staged \<le> kWords (sizeofT (ring s)) \<and>
          (gep s i = repairs s \<longrightarrow> seq (rcell s (readers s i)) = s1 \<longrightarrow>
             idx = index (rcell s (readers s i)) \<and>
             take (length staged) (words_of (rcell s (readers s i))) = staged)
      | RDone out \<Rightarrow> done_inv s i out)"

lemma mod_eq_lapped: "p < q \<Longrightarrow> p mod n = q mod n \<Longrightarrow> p + n \<le> (q::nat)"
  using pos_mod_neq [of p q n] by fastforce

lemma unat_want:
  assumes "length (taken rd) < unat (cur rd)"
  shows "unat (want_of rd) = want_no rd"
proof -
  have c: "unat (cur rd - 1) = unat (cur rd) - 1" using assms by (intro unat_pred) auto
  have "unat (cur rd) < 2 ^ 64" by simp
  then have l: "length (taken rd) < 2 ^ 64" using assms by linarith
  have "of_nat (length (taken rd)) \<le> cur rd - 1"
    using assms c l by (simp add: word_le_nat_alt unat_of_nat_u64)
  then show ?thesis using c l by (simp add: want_of_def want_no_def unat_sub unat_of_nat_u64)
qed

lemma cell_at_want: "length (taken rd) < unat (cur rd) \<Longrightarrow> cell_at (ring s) (want_of rd) = rcell s rd"
  by (simp add: cell_at_def cell_no_def unat_want)

subsection \<open>Steps of the writer side keep it\<close>

lemma weff_pubs: "weff s t \<Longrightarrow> pubs s \<le> pubs t"
  by (auto simp: weff_def)

lemma weff_hist: "weff s t \<Longrightarrow> p < pubs s \<Longrightarrow> hist t ! p = hist s ! p"
  by (auto simp: weff_def nth_append)

lemma weff_descending:
  "weff s t \<Longrightarrow> unat c \<le> pubs s \<Longrightarrow> length vs \<le> unat c \<Longrightarrow> descending t c vs = descending s c vs"
  by (fastforce simp: descending_def weff_hist)

lemma weff_lapped: "weff s t \<Longrightarrow> lapped s p \<Longrightarrow> lapped t p"
  using weff_pubs [of s t] by (auto simp: weff_def lapped_def)

lemma weff_walking:
  assumes E: "weff s t" and W: "walking s i" shows "walking t i"
proof -
  have same: "readers t = readers s" "gclean t = gclean s" "gfrom t = gfrom s"
      "depthN (ring t) = depthN (ring s)" using E by (auto simp: weff_def)
  have "descending t (cur (readers s i)) (taken (readers s i)) = descending s (cur (readers s i)) (taken (readers s i))"
    using W by (intro weff_descending [OF E]) (auto simp: walking_def Let_def)
  with W weff_pubs [OF E] show ?thesis
    by (simp add: walking_def Let_def same )
qed

lemma weff_rcell:
  assumes E: "weff s t" and B: "base_inv s" and same: "repairs t = repairs s"
  shows "rcell t rd = rcell s rd \<or>
    odd (seq (rcell s rd)) \<and> seq (rcell t rd) = seq (rcell s rd) \<or>
    unat (seq (rcell s rd)) < unat (seq (rcell t rd)) \<and> want_no rd mod depthN (ring s) = tgt s \<and> pubs s < stores s"
proof -
  have "want_no rd mod depthN (ring s) < depthN (ring s)" using B by (simp add: base_inv_def shape_def)
  with E same show ?thesis unfolding weff_def by (metis (no_types, lifting))
qed

lemma weff_copy:
  assumes E: "weff s t" and B: "base_inv s" and C: "copy_inv s i s1"
  shows "copy_inv t i s1"
proof -
  let ?rd = "readers s i"
  have same: "readers t = readers s" "gep t = gep s" "depthN (ring t) = depthN (ring s)" "repairs s \<le> repairs t"
    using E by (auto simp: weff_def)
  have W: "walking s i" and g: "gep s i \<le> repairs s" and s1: "even s1" "s1 \<noteq> 0"
    and up: "gep s i = repairs s \<Longrightarrow> unat s1 \<le> unat (seq (rcell s ?rd))"
    and lap: "repairs s = 0 \<Longrightarrow> seq (rcell s ?rd) \<noteq> s1 \<Longrightarrow> lapped s (want_no ?rd)"
    using C by (auto simp: copy_inv_def Let_def)
  have less: "want_no ?rd < pubs s" using W by (auto simp: walking_def want_no_def Let_def)
  have "unat s1 \<le> unat (seq (rcell t ?rd))" if "gep s i = repairs t"
    using that g same(4) up weff_rcell [OF E B, of ?rd] by auto
  moreover have "lapped t (want_no ?rd)" if "repairs t = 0" "seq (rcell t ?rd) \<noteq> s1"
  proof -
    have r: "repairs t = repairs s" "repairs s = 0" using that(1) same(4) by auto
    have "seq (rcell s ?rd) \<noteq> s1 \<or> want_no ?rd mod depthN (ring s) = pubs s mod depthN (ring s) \<and> pubs s < stores s"
      using weff_rcell [OF E B r(1), of ?rd] that(2) by (auto simp: tgt_def)
    then have "lapped s (want_no ?rd)"
      using lap r(2) less by (auto intro: lappedI mod_eq_lapped)
    then show ?thesis by (rule weff_lapped [OF E])
  qed
  ultimately show ?thesis
    using weff_walking [OF E W] g s1 same by (simp add: copy_inv_def Let_def)
qed

lemma weff_done:
  assumes E: "weff s t" and D: "done_inv s i out" shows "done_inv t i out"
proof -
  have same: "readers t = readers s" "gclean t = gclean s" "gfrom t = gfrom s"
      "depthN (ring t) = depthN (ring s)" "repairs s \<le> repairs t" using E by (auto simp: weff_def)
  note p = weff_pubs [OF E]
  show ?thesis
  proof (cases out)
    case (OValue v)
    with D p weff_hist [OF E, of "unat (cur (readers s i)) - 1"] show ?thesis
      by (auto simp: done_inv_def Let_def same)
  next
    case (OSnap vs)
    with D have "descending t (cur (readers s i)) vs = descending s (cur (readers s i)) vs"
      by (intro weff_descending [OF E]) (auto simp: done_inv_def Let_def)
    moreover have "repairs t = 0 \<Longrightarrow> repairs s = 0" using same(5) by simp
    ultimately show ?thesis using OSnap D p weff_lapped [OF E] by (auto simp: done_inv_def Let_def same)
  qed (use D same in \<open>auto simp: done_inv_def\<close>)
qed

lemma weff_rd_inv:
  assumes E: "weff s t" and B: "base_inv s" and R: "rd_inv s i"
  shows "rd_inv t i"
proof (cases "pc (readers s i)")
  case (RWord s1 idx staged)
  have same: "readers t = readers s" "gep t = gep s" "gfrom t = gfrom s" "sizeofT (ring t) = sizeofT (ring s)"
      "repairs s \<le> repairs t" using E by (auto simp: weff_def)
  have C: "copy_inv s i s1" and R': "length staged \<le> kWords (sizeofT (ring s))" "gfrom s i \<le> pubs s"
    and eq: "gep s i = repairs s \<Longrightarrow> seq (rcell s (readers s i)) = s1 \<Longrightarrow>
       idx = index (rcell s (readers s i)) \<and> take (length staged) (words_of (rcell s (readers s i))) = staged"
    using R RWord by (auto simp: rd_inv_def)
  have "rcell t (readers s i) = rcell s (readers s i)"
    if "gep s i = repairs t" "seq (rcell t (readers s i)) = s1"
  proof -
    have "repairs t = repairs s" using that(1) C same(5) by (auto simp: copy_inv_def Let_def)
    moreover have "even s1" "unat s1 \<le> unat (seq (rcell s (readers s i)))"
      using calculation C that by (simp_all add: copy_inv_def Let_def)
    ultimately show ?thesis using weff_rcell [OF E B, of "readers s i"] that(2) by fastforce
  qed
  moreover have "gep s i = repairs t \<Longrightarrow> gep s i = repairs s"
    using C same(5) by (auto simp: copy_inv_def Let_def)
  ultimately show ?thesis
    using weff_copy [OF E B C] R' eq weff_pubs [OF E] RWord same by (auto simp: rd_inv_def)
qed (use R weff_pubs [OF E] weff_walking [OF E] weff_copy [OF E B] weff_done [OF E] E in
      \<open>simp_all add: rd_inv_def weff_def\<close>)

subsection \<open>The reader's own steps keep it\<close>

text \<open>A step of reader \<open>i\<close> leaves the shared state alone; \<open>same_walk\<close> adds that the walk
  (cursor, entries taken, limit) stays as it is.\<close>

definition rframe :: "sys \<Rightarrow> sys \<Rightarrow> bool" where
  "rframe s t \<longleftrightarrow> ring t = ring s \<and> hist t = hist s \<and> pend t = pend s \<and> wpc_of t = wpc_of s \<and>
     repairs t = repairs s \<and> stores t = stores s \<and> gfrom t = gfrom s"

definition same_walk :: "reader \<Rightarrow> reader \<Rightarrow> bool" where
  "same_walk rd rd' \<longleftrightarrow> cur rd' = cur rd \<and> taken rd' = taken rd \<and> verb_of rd' = verb_of rd \<and> limit_of rd' = limit_of rd"

lemma same_walk_budget: "same_walk rd rd' \<Longrightarrow> budget n rd' = budget n rd \<and> want_no rd' = want_no rd"
  by (simp add: same_walk_def budget_def want_no_def split: verb.split)

lemma walking_frame:
  "rframe s t \<Longrightarrow> same_walk (readers s i) (readers t i) \<Longrightarrow> (gclean t i \<Longrightarrow> gclean s i) \<Longrightarrow>
     walking s i \<Longrightarrow> walking t i"
  using same_walk_budget [of "readers s i" "readers t i" "depthN (ring s)"]
  by (auto simp: walking_def rframe_def same_walk_def Let_def descending_def)

lemma walkingD:
  assumes "walking s i"
  shows "unat (cur (readers s i)) \<le> pubs s" "gfrom s i \<le> unat (cur (readers s i))"
    "length (taken (readers s i)) < unat (cur (readers s i))" "want_no (readers s i) < pubs s"
    "length (taken (readers s i)) < budget (depthN (ring s)) (readers s i)"
    "unat (want_of (readers s i)) = want_no (readers s i)"
    "\<not> is_snapshot (verb_of (readers s i)) \<Longrightarrow> taken (readers s i) = []"
    "gclean s i \<Longrightarrow> descending s (cur (readers s i)) (taken (readers s i))"
  using assms
  by (auto simp: walking_def Let_def want_no_def unat_want budget_def split: verb.splits)

lemma snapshot_limit_min: "snapshot_limit k c n = min k (min (unat c) n)"
  by (simp add: snapshot_limit_def min_def)

lemma walk_ends:
  assumes F: "rframe s t" and W: "walking s i" and S: "same_walk (readers s i) (readers t i)"
    and g: "gclean t i \<Longrightarrow> gclean s i"
    and lap: "repairs s = 0 \<Longrightarrow> lapped s (want_no (readers s i))"
  shows "done_inv t i (OSnap (taken (readers s i)))"
proof -
  have "done_inv s i (OSnap (taken (readers s i)))"
    using walkingD [OF W] lap by (simp add: done_inv_def Let_def want_no_def)
  then show ?thesis
    using F S g same_walk_budget [OF S]
    by (simp add: done_inv_def Let_def rframe_def same_walk_def descending_def lapped_def)
qed

lemma retry_inv:
  assumes F: "rframe s t" and W: "walking s i" and t: "readers t i = retry (readers s i)"
    and g: "gclean t i \<Longrightarrow> gclean s i"
    and lap: "repairs s = 0 \<Longrightarrow> lapped s (want_no (readers s i))"
  shows "rd_inv t i"
proof -
  have S: "same_walk (readers s i) (readers t i)"
    by (simp add: t retry_def same_walk_def split: verb.split)
  have gf: "gfrom t i \<le> pubs t" using walkingD(1,2) [OF W] F by (simp add: rframe_def)
  show ?thesis
  proof (cases "verb_of (readers s i)")
    case (VSnapshot k)
    with gf walk_ends [OF F W S g lap] show ?thesis by (simp add: rd_inv_def t retry_def)
  qed (use gf walkingD(7) [OF W] in \<open>simp_all add: rd_inv_def t retry_def done_inv_def\<close>)
qed

lemma read_cursor_inv:
  assumes I: "ring_inv s" and F: "rframe s t" and R: "rd_inv s i" "pc (readers s i) = RCount"
    and t: "readers t i = read_cursor (ring s) (readers s i)"
  shows "rd_inv t i"
proof -
  note D = ring_invD [OF I]
  have tk: "taken (readers s i) = []" "gfrom s i \<le> pubs s" using R by (auto simp: rd_inv_def)
  have N: "0 < depthN (ring s)" using D(2) by linarith
  have c0: "write_count (ring s) = 0 \<longleftrightarrow> pubs s = 0" using D(6) by (metis unat_eq_0)
  have z: "hist s = [] \<Longrightarrow> gfrom s i = 0" using tk(2) by simp
  show ?thesis
    using tk N c0 D(6) F z
    by (cases "verb_of (readers s i)")
      (simp_all add: rd_inv_def t read_cursor_def Let_def snapshot_limit_min done_inv_def walking_def
        budget_def descending_def rframe_def)
qed

lemma rcell_cell_inv:
  assumes "ring_inv s" shows "cell_inv s (want_no rd mod depthN (ring s))"
proof -
  have "0 < depthN (ring s)" using ring_invD(2) [OF assms] by linarith
  then show ?thesis using assms by (simp add: ring_inv_def)
qed

lemma rcell_lapped:
  assumes "ring_inv s" "walking s i" "odd (seq (rcell s (readers s i)))"
  shows "lapped s (want_no (readers s i))"
  using rcell_cell_inv [OF assms(1), of "readers s i"] walkingD(4) [OF assms(2)] assms(3)
  by (auto simp: cell_inv_def Let_def tgt_def intro: lappedI mod_eq_lapped)

lemma rcell_written:
  assumes "ring_inv s" "walking s i" "repairs s = 0"
  shows "seq (rcell s (readers s i)) \<noteq> 0"
proof -
  have "want_no (readers s i) mod depthN (ring s) < pubs s"
    using walkingD(4) [OF assms(2)] by (meson le_less_trans mod_less_eq_dividend)
  then show ?thesis
    using rcell_cell_inv [OF assms(1), of "readers s i"] assms(3) by (simp add: cell_inv_def Let_def)
qed

lemma read_seq_inv:
  assumes I: "ring_inv s" and F: "rframe s t" and W: "walking s i"
    and t: "readers t i = read_seq (seq (rcell s (readers s i))) (readers s i)"
    and g: "gep t i = repairs s" "gclean t i \<Longrightarrow> gclean s i"
  shows "rd_inv t i"
proof -
  let ?s1 = "seq (rcell s (readers s i))"
  have gf: "gfrom t i \<le> pubs t" using walkingD(1,2) [OF W] F by (simp add: rframe_def)
  consider (zero) "?s1 = 0" | (odd) "?s1 \<noteq> 0" "odd ?s1" | (even) "?s1 \<noteq> 0" "even ?s1" by blast
  then show ?thesis
  proof cases
    case zero
    then have r: "repairs s \<noteq> 0" using rcell_written [OF I W] by blast
    show ?thesis
    proof (cases "is_snapshot (verb_of (readers s i))")
      case True
      then have "readers t i = (readers s i)\<lparr>pc := RDone (OSnap (taken (readers s i)))\<rparr>"
        using t zero by (cases "verb_of (readers s i)") (simp_all add: read_seq_def)
      with gf walk_ends [OF F W _ g(2)] r show ?thesis by (simp add: rd_inv_def same_walk_def)
    next
      case False
      then have "pc (readers t i) = RDone OEmpty"
        using t zero by (cases "verb_of (readers s i)") (simp_all add: read_seq_def)
      with gf r F show ?thesis by (simp add: rd_inv_def done_inv_def rframe_def)
    qed
  next
    case odd
    with t have "readers t i = retry (readers s i)" by (simp add: read_seq_def and_one_word)
    with odd F W g(2) rcell_lapped [OF I W] show ?thesis by (auto intro: retry_inv)
  next
    case even
    then have e: "readers t i = (readers s i)\<lparr>pc := RIndex ?s1\<rparr>" using t by (simp add: read_seq_def and_one_word)
    then have S: "same_walk (readers s i) (readers t i)" by (simp add: same_walk_def)
    have "rcell t (readers t i) = rcell s (readers s i)"
      using F same_walk_budget [OF S] by (simp add: rframe_def)
    then have "copy_inv t i ?s1"
      using walking_frame [OF F S g(2) W] F g(1) even by (simp add: copy_inv_def Let_def rframe_def lapped_def)
    with gf e show ?thesis by (simp add: rd_inv_def)
  qed
qed

lemma copy_frame:
  assumes F: "rframe s t" and S: "same_walk (readers s i) (readers t i)"
    and g: "gclean t i \<Longrightarrow> gclean s i" "gep t i = gep s i" and C: "copy_inv s i s1"
  shows "copy_inv t i s1" "rcell t (readers t i) = rcell s (readers s i)" "gfrom t i \<le> pubs t"
proof -
  have W: "walking s i" using C by (simp add: copy_inv_def Let_def)
  show "rcell t (readers t i) = rcell s (readers s i)"
    using F same_walk_budget [OF S] by (simp add: rframe_def)
  with C walking_frame [OF F S g(1) W] F g(2) same_walk_budget [OF S]
  show "copy_inv t i s1" by (simp add: copy_inv_def Let_def rframe_def lapped_def)
  show "gfrom t i \<le> pubs t" using walkingD(1,2) [OF W] F by (simp add: rframe_def)
qed

text \<open>A validated, index-matched copy is the value stored at the wanted position.\<close>

lemma validated_copy:
  assumes I: "ring_inv s" and C: "copy_inv s i s1" "seq (rcell s (readers s i)) = s1"
    and idx: "index (rcell s (readers s i)) = want_of (readers s i)"
  shows "unstage (sizeofT (ring s)) (words_of (rcell s (readers s i))) = hist s ! want_no (readers s i)"
proof -
  let ?p = "want_no (readers s i)"
  have W: "walking s i" and s1: "even s1" "s1 \<noteq> 0" using C by (auto simp: copy_inv_def Let_def)
  have p: "?p < pubs s" "unat (want_of (readers s i)) = ?p" using walkingD [OF W] by simp_all
  then have "words_of (rcell s (readers s i)) = stage (hist s ! ?p)"
    using rcell_cell_inv [OF I, of "readers s i"] C(2) s1 idx by (auto simp: cell_inv_def Let_def)
  moreover have "length (hist s ! ?p) = sizeofT (ring s)"
    using I p(1) by (simp add: ring_inv_def base_inv_def)
  ultimately show ?thesis by simp
qed

lemma want_no_pc [simp]: "want_no (rd\<lparr>pc := p\<rparr>) = want_no rd"
  by (simp add: want_no_def)

lemma accept_inv:
  assumes I: "ring_inv s" and F: "rframe s t" and C: "copy_inv s i s1"
    and t: "readers t i = accept (sizeofT (ring s)) staged (readers s i)"
    and g: "gclean t i \<Longrightarrow> gclean s i"
    and v: "gclean t i \<Longrightarrow> unstage (sizeofT (ring s)) staged = hist s ! want_no (readers s i)"
  shows "rd_inv t i"
proof -
  let ?rd = "readers s i" and ?v = "unstage (sizeofT (ring s)) staged"
  have W: "walking s i" using C by (simp add: copy_inv_def Let_def)
  note D = walkingD [OF W]
  have gf: "gfrom t i \<le> pubs t" using D(1,2) F by (simp add: rframe_def)
  show ?thesis
  proof (cases "is_snapshot (verb_of ?rd)")
    case True
    then obtain k where k: "verb_of ?rd = VSnapshot k" by (cases "verb_of ?rd") auto
    have lim: "limit_of ?rd = budget (depthN (ring s)) ?rd" "budget (depthN (ring s)) ?rd \<le> depthN (ring s)"
        "budget (depthN (ring s)) ?rd \<le> unat (cur ?rd)"
      using W k by (simp_all add: walking_def Let_def budget_def)
    have desc: "descending s (cur ?rd) (taken ?rd @ [?v])" if "gclean t i"
      using D(8) [OF g [OF that]] v [OF that] by (auto simp: descending_def nth_append want_no_def less_Suc_eq)
    have b: "budget n (readers t i) = budget n ?rd" for n
      by (simp add: t accept_def k Let_def budget_def)
    show ?thesis
      using gf lim D F desc k b
      by (cases "length (taken ?rd @ [?v]) < limit_of ?rd")
        (auto simp: rd_inv_def t accept_def Let_def walking_def done_inv_def rframe_def descending_def b [unfolded t])
  next
    case False
    then have "readers t i = ?rd\<lparr>pc := RDone (OValue ?v)\<rparr>"
      using t by (cases "verb_of ?rd") (simp_all add: accept_def)
    with gf D D(7) [OF False] F v show ?thesis
      by (simp add: rd_inv_def done_inv_def rframe_def want_no_def)
  qed
qed

lemma rcell_words:
  assumes "ring_inv s" shows "length (words_of (rcell s rd)) = kWords (sizeofT (ring s))"
proof -
  have "0 < depthN (ring s)" "shape (ring s)"
    using ring_invD(1,2) [OF assms] by (auto simp: base_inv_def)
  then show ?thesis by (intro shape_nth) simp_all
qed

lemma read_check_inv:
  assumes I: "ring_inv s" and F: "rframe s t" and R: "rd_inv s i" "pc (readers s i) = RWord s1 idx staged"
    and full: "length staged = kWords (sizeofT (ring s))"
    and t: "readers t i = read_check (ring s) s1 idx staged (readers s i)"
    and g: "gclean t i \<Longrightarrow> gclean s i \<and> gep s i = repairs s"
  shows "rd_inv t i"
proof -
  let ?rd = "readers s i"
  have C: "copy_inv s i s1" and eq: "gep s i = repairs s \<Longrightarrow> seq (rcell s ?rd) = s1 \<Longrightarrow>
      idx = index (rcell s ?rd) \<and> words_of (rcell s ?rd) = staged"
    using R full take_all [of "words_of (rcell s ?rd)" "length staged"] rcell_words [OF I, of ?rd]
    by (auto simp: rd_inv_def)
  have W: "walking s i" using C by (simp add: copy_inv_def Let_def)
  note D = walkingD [OF W]
  have cell: "cell_at (ring s) (want_of ?rd) = rcell s ?rd" using D(3) by (rule cell_at_want)
  consider (moved) "seq (rcell s ?rd) \<noteq> s1" | (lapped) "seq (rcell s ?rd) = s1" "idx \<noteq> want_of ?rd"
    | (good) "seq (rcell s ?rd) = s1" "idx = want_of ?rd" by blast
  then show ?thesis
  proof cases
    case moved
    then show ?thesis
      using retry_inv [OF F W] t g C by (simp add: read_check_def cell copy_inv_def Let_def)
  next
    case lapped
    have "lapped s (want_no ?rd)" if "repairs s = 0"
    proof -
      let ?p = "unat (index (rcell s ?rd))" and ?n = "depthN (ring s)"
      have "idx = index (rcell s ?rd)" using eq C lapped(1) that by (auto simp: copy_inv_def Let_def)
      then have ne: "?p \<noteq> want_no ?rd" using lapped(2) D(6) by (metis word_unat_eq_iff)
      have p: "?p mod ?n = want_no ?rd mod ?n" "pubs s \<le> ?p + ?n" "?p < pubs s \<or> ?p = pubs s \<and> pubs s < stores s"
        using rcell_cell_inv [OF I, of ?rd] C lapped(1) by (auto simp: cell_inv_def copy_inv_def Let_def)
      have "\<not> ?p < want_no ?rd" using D(4) p(2) mod_eq_lapped [OF _ p(1)] by linarith
      then have "want_no ?rd + ?n \<le> ?p" using ne mod_eq_lapped [OF _ p(1) [symmetric]] by linarith
      then show ?thesis
        unfolding lapped_def using p(3) writer_inv_stores [OF ring_invD(4) [OF I]] by linarith
    qed
    then show ?thesis
      using retry_inv [OF F W] t g lapped by (simp add: read_check_def cell)
  next
    case good
    have "unstage (sizeofT (ring s)) staged = hist s ! want_no ?rd" if "gclean t i"
    proof -
      have "idx = index (rcell s ?rd)" "words_of (rcell s ?rd) = staged" using eq g [OF that] good(1) by blast+
      then show ?thesis using validated_copy [OF I C good(1)] good(2) by simp
    qed
    then show ?thesis
      using accept_inv [OF I F C] t g good by (simp add: read_check_def cell)
  qed
qed

lemma read_step_frame: "rframe s (read_step i s)"
  by (simp add: rframe_def read_step_def Let_def)

lemma read_step_reader: "readers (read_step i s) i = reader_step (ring s) (readers s i)"
  by (simp add: read_step_def Let_def)

lemma read_step_inv:
  assumes I: "ring_inv s" and R: "rd_inv s i" and act: "\<not> ready (pc (readers s i))"
  shows "rd_inv (read_step i s) i"
proof -
  let ?t = "read_step i s" and ?rd = "readers s i"
  note F = read_step_frame [of s i] and t = read_step_reader [of i s]
  have g: "gclean ?t i \<Longrightarrow> pc ?rd \<noteq> RCount \<Longrightarrow> gclean s i" by (simp add: read_step_def Let_def)
  have gc: "gclean ?t i \<Longrightarrow> copying (pc ?rd) \<Longrightarrow> gclean s i \<and> gep s i = repairs s"
    by (cases "pc ?rd") (simp_all add: read_step_def Let_def)
  have ge: "gep ?t i = (if pc ?rd = RSeq then repairs s else gep s i)" by (simp add: read_step_def Let_def)
  show ?thesis
  proof (cases "pc ?rd")
    case RCount
    with read_cursor_inv [OF I F R] t show ?thesis by (simp add: reader_step_def)
  next
    case RSeq
    then have W: "walking s i" using R by (simp add: rd_inv_def)
    have "readers ?t i = read_seq (seq (rcell s ?rd)) ?rd"
      using t RSeq walkingD(3) [OF W] by (simp add: reader_step_def cell_at_want)
    then show ?thesis using read_seq_inv [OF I F W] ge g RSeq by simp
  next
    case (RIndex s1)
    then have C: "copy_inv s i s1" using R by (simp add: rd_inv_def)
    then have c: "length (taken ?rd) < unat (cur ?rd)" by (auto simp: copy_inv_def Let_def dest: walkingD)
    have e: "readers ?t i = ?rd\<lparr>pc := RWord s1 (index (rcell s ?rd)) []\<rparr>"
      using t RIndex by (simp add: reader_step_def cell_at_want [OF c])
    then have S: "same_walk ?rd (readers ?t i)" by (simp add: same_walk_def)
    have "gep ?t i = gep s i" using ge RIndex by simp
    from copy_frame [OF F S _ this C] g RIndex e show ?thesis by (simp add: rd_inv_def)
  next
    case (RWord s1 idx staged)
    then have C: "copy_inv s i s1" and R': "length staged \<le> kWords (sizeofT (ring s))"
      and eq: "gep s i = repairs s \<Longrightarrow> seq (rcell s ?rd) = s1 \<Longrightarrow>
        idx = index (rcell s ?rd) \<and> take (length staged) (words_of (rcell s ?rd)) = staged"
      using R by (simp_all add: rd_inv_def)
    have c: "length (taken ?rd) < unat (cur ?rd)" using C by (auto simp: copy_inv_def Let_def dest: walkingD)
    show ?thesis
    proof (cases "length staged < kWords (sizeofT (ring s))")
      case True
      let ?staged = "staged @ [words_of (rcell s ?rd) ! length staged]"
      have e: "readers ?t i = ?rd\<lparr>pc := RWord s1 idx ?staged\<rparr>"
        using t RWord True by (simp add: reader_step_def cell_at_want [OF c])
      then have S: "same_walk ?rd (readers ?t i)" by (simp add: same_walk_def)
      have tk: "take (length staged) (words_of (rcell s ?rd)) = staged \<Longrightarrow>
          take (length ?staged) (words_of (rcell s ?rd)) = ?staged"
        using True rcell_words [OF I, of ?rd] by (simp add: take_Suc_conv_app_nth)
      have ge': "gep ?t i = gep s i" using ge RWord by simp
      from copy_frame [OF F S _ ge' C] g RWord e eq tk True ge' F show ?thesis
        by (simp add: rd_inv_def rframe_def)
    next
      case False
      then have full: "length staged = kWords (sizeofT (ring s))" using R' by simp
      have "readers ?t i = read_check (ring s) s1 idx staged ?rd"
        using t RWord False by (simp add: reader_step_def)
      from read_check_inv [OF I F R RWord full this] gc RWord show ?thesis by simp
    qed
  qed (use act in simp_all)
qed

lemma rd_inv_cong:
  assumes "ring t = ring s" "hist t = hist s" "repairs t = repairs s" "stores t = stores s" "readers t j = readers s j"
    "gep t j = gep s j" "gclean t j = gclean s j" "gfrom t j = gfrom s j"
  shows "rd_inv t j = rd_inv s j"
proof -
  have d: "descending t = descending s" "lapped t = lapped s" using assms by (auto simp: descending_def lapped_def fun_eq_iff)
  then have "walking t j = walking s j" using assms by (simp add: walking_def)
  moreover from this have "copy_inv t j = copy_inv s j" using assms d by (simp add: copy_inv_def fun_eq_iff)
  moreover have "done_inv t j out = done_inv s j out" for out
    using assms d by (cases out) (simp_all add: done_inv_def)
  ultimately show ?thesis using assms by (cases "pc (readers s j)") (simp_all add: rd_inv_def)
qed

lemma rd_inv_other: "j \<noteq> i \<Longrightarrow> rd_inv s j \<Longrightarrow> rd_inv (read_step i s) j"
  using rd_inv_cong [of "read_step i s" s j] by (simp add: read_step_def Let_def)

section \<open>The invariant holds in every reachable state\<close>

definition sys_inv :: "sys \<Rightarrow> bool" where
  "sys_inv s \<longleftrightarrow> ring_inv s \<and> (\<forall>i. rd_inv s i)"

lemma weff_sys_inv: "sys_inv s \<Longrightarrow> ring_inv t \<and> weff s t \<Longrightarrow> sys_inv t"
  by (auto simp: sys_inv_def intro: weff_rd_inv ring_invD(1))

lemma ring_inv_cong:
  assumes "ring t = ring s" "hist t = hist s" "pend t = pend s" "wpc_of t = wpc_of s"
    "repairs t = repairs s" "stores t = stores s"
  shows "ring_inv t = ring_inv s"
proof -
  have "tgt t = tgt s" "room t = room s" using assms by (auto simp: tgt_def room_def fun_eq_iff)
  then have "writer_inv t p = writer_inv s p" for p using assms by (cases p) simp_all
  then show ?thesis using assms by (simp add: ring_inv_def base_inv_def cell_inv_def tgt_def)
qed

lemma ring_inv_rframe: "rframe s t \<Longrightarrow> ring_inv s \<Longrightarrow> ring_inv t"
  using ring_inv_cong [of t s] by (simp add: rframe_def)

lemma initial_inv: "initial s \<Longrightarrow> sys_inv s"
  by (auto simp: initial_def init_sys_def sys_inv_def ring_inv_def base_inv_def cell_inv_def rd_inv_def
      fresh_ring_def SeqlockRing_ctor_def zero_cell_def shape_def Let_def)

lemma invoke_inv:
  assumes "sys_inv s" shows "sys_inv (invoke i v s)"
proof -
  have "ring_inv (invoke i v s)"
    using assms ring_inv_cong [of "invoke i v s" s] by (simp add: sys_inv_def invoke_def)
  moreover have "rd_inv (invoke i v s) j" for j
  proof (cases "j = i")
    case True
    then show ?thesis by (simp add: rd_inv_def invoke_def call_reader_def)
  next
    case False
    then show ?thesis using assms rd_inv_cong [of "invoke i v s" s j] by (simp add: sys_inv_def invoke_def)
  qed
  ultimately show ?thesis by (simp add: sys_inv_def)
qed

lemma step_sys_inv: "step s t \<Longrightarrow> sys_inv s \<Longrightarrow> fits t \<Longrightarrow> sys_inv t"
proof (induction rule: step.induct)
  case (begin_store s v)
  then show ?case by (intro weff_sys_inv [OF _ begin_store_inv]) (auto simp: sys_inv_def)
next
  case (writer s)
  have "stores (writer_step s) = stores s" by (simp add: writer_steps Let_def split: wpc.split)
  with writer show ?case by (intro weff_sys_inv [OF _ writer_step_inv]) (auto simp: sys_inv_def fits_def)
next
  case (crash s)
  then have "pubs s \<le> stores s" by (auto simp: sys_inv_def dest: ring_invD writer_inv_stores)
  with crash show ?case by (intro weff_sys_inv [OF _ ring_inv_wpc]) (auto simp: sys_inv_def)
next
  case (reclaim s)
  then have "pubs s \<le> stores s" by (auto simp: sys_inv_def dest: ring_invD writer_inv_stores)
  with reclaim show ?case by (intro weff_sys_inv [OF _ ring_inv_wpc]) (auto simp: sys_inv_def)
next
  case (call s i v)
  then show ?case by (simp add: invoke_inv)
next
  case (read s i)
  then have "ring_inv (read_step i s)" using ring_inv_rframe [OF read_step_frame] by (simp add: sys_inv_def)
  moreover have "rd_inv (read_step i s) j" for j
    using read read_step_inv rd_inv_other by (cases "j = i") (auto simp: sys_inv_def)
  ultimately show ?case by (simp add: sys_inv_def)
qed

lemma step_fits: "step s t \<Longrightarrow> fits t \<Longrightarrow> fits s"
  by (induction rule: step.induct)
    (auto simp: fits_def writer_steps invoke_def read_step_def Let_def split: wpc.splits if_splits)

interpretation seqlock: inductive_invariant initial step fits sys_inv
  by unfold_locales (auto intro: initial_inv step_sys_inv step_fits)

text \<open>Without an effective repair every copy is clean.\<close>

definition ghost_inv :: "sys \<Rightarrow> bool" where
  "ghost_inv s \<longleftrightarrow> (\<forall>i. gep s i \<le> repairs s \<and> (repairs s = 0 \<longrightarrow> gclean s i))"

lemma step_ghost_inv: "step s t \<Longrightarrow> ghost_inv s \<Longrightarrow> ghost_inv t"
  by (induction rule: step.induct)
    (auto simp: ghost_inv_def writer_steps invoke_def read_step_def Let_def le_Suc_eq
      split: wpc.splits if_splits)

lemma initial_ghost_inv: "initial s \<Longrightarrow> ghost_inv s"
  by (auto simp: initial_def init_sys_def ghost_inv_def)

interpretation ghosts: inductive_invariant initial step "\<lambda>_. True" ghost_inv
  by unfold_locales (auto intro: initial_ghost_inv step_ghost_inv)

lemma reach_rd_inv: "reach initial step s \<Longrightarrow> fits s \<Longrightarrow> rd_inv s i"
  using seqlock.reach_inv by (auto simp: sys_inv_def)

lemma reach_clean: "reach initial step s \<Longrightarrow> repairs s = 0 \<Longrightarrow> gclean s i"
  using ghosts.reach_inv by (auto simp: ghost_inv_def)

section \<open>Progress\<close>

text \<open>Writes a store still has to perform; the reader side cannot change it.\<close>

fun writes_left :: "wpc \<Rightarrow> nat" where
  "writes_left (WCount v) = length (stage v) + 6"
| "writes_left (WSeq v idx) = length (stage v) + 5"
| "writes_left (WOdd v idx q) = length (stage v) + 4"
| "writes_left (WIndex v idx q) = length (stage v) + 3"
| "writes_left (WWord v idx q k) = length (stage v) - k + 2"
| "writes_left (WPub v idx) = 1"
| "writes_left p = 0"

fun storing :: "u8 list \<Rightarrow> wpc \<Rightarrow> bool" where
  "storing v (WCount w) \<longleftrightarrow> v = w"
| "storing v (WSeq w idx) \<longleftrightarrow> v = w"
| "storing v (WOdd w idx q) \<longleftrightarrow> v = w"
| "storing v (WIndex w idx q) \<longleftrightarrow> v = w"
| "storing v (WWord w idx q k) \<longleftrightarrow> v = w"
| "storing v (WPub w idx) \<longleftrightarrow> v = w"
| "storing v p \<longleftrightarrow> False"

fun live :: "action \<Rightarrow> bool" where
  "live (Call i v) = True"
| "live (Read i) = True"
| "live Write = True"
| "live a = False"

lemma storing_step:
  assumes "storing v (wpc_of s)"
  shows "writes_left (wpc_of s) = Suc (writes_left (wpc_of (writer_step s)))"
    and "storing v (wpc_of (writer_step s)) \<and> hist (writer_step s) = hist s \<or>
         wpc_of (writer_step s) = WIdle \<and> hist (writer_step s) = hist s @ [v]"
  using assms by (cases "wpc_of s"; auto simp: writer_steps Let_def)+

lemma reader_side_frame:
  "wpc_of (invoke i v s) = wpc_of s" "hist (invoke i v s) = hist s"
  "wpc_of (read_step i s) = wpc_of s" "hist (read_step i s) = hist s"
  by (simp_all add: invoke_def read_step_def Let_def)

lemma idle_run:
  "run as s = Some t \<Longrightarrow> \<forall>a \<in> set as. live a \<Longrightarrow> Write \<notin> set as \<Longrightarrow> wpc_of t = wpc_of s \<and> hist t = hist s"
proof (induction as arbitrary: s)
  case (Cons a as)
  then show ?case
    by (cases a) (auto simp: exec_def reader_side_frame split: if_splits option.splits)
qed simp

lemma storing_run:
  assumes "run as s = Some t" "\<forall>a \<in> set as. live a" "storing v (wpc_of s)"
    "count_list as Write = writes_left (wpc_of s)"
  shows "wpc_of t = WIdle \<and> hist t = hist s @ [v]"
  using assms
proof (induction as arbitrary: s)
  case Nil
  then show ?case by (cases "wpc_of s") auto
next
  case (Cons a as)
  show ?case
  proof (cases "a = Write")
    case True
    then have run: "run as (writer_step s) = Some t"
      using Cons.prems by (auto simp: exec_def split: if_splits)
    have cnt: "count_list as Write = writes_left (wpc_of (writer_step s))"
      using Cons.prems(4) True storing_step(1) [OF Cons.prems(3)] by simp
    from storing_step(2) [OF Cons.prems(3)] show ?thesis
    proof
      assume "storing v (wpc_of (writer_step s)) \<and> hist (writer_step s) = hist s"
      then show ?thesis using Cons.IH [OF run] Cons.prems(2) cnt by simp
    next
      assume d: "wpc_of (writer_step s) = WIdle \<and> hist (writer_step s) = hist s @ [v]"
      then have "Write \<notin> set as" using cnt by (simp add: count_list_0_iff)
      with d show ?thesis using idle_run [OF run] Cons.prems(2) by simp
    qed
  next
    case False
    then obtain u where "run as u = Some t" "wpc_of u = wpc_of s" "hist u = hist s"
      using Cons.prems(1,2) by (cases a) (auto simp: exec_def reader_side_frame split: if_splits)
    with Cons.IH [of u] Cons.prems False show ?thesis by simp
  qed
qed

text \<open>A reader that runs alone: the word loop copies the cell, and one pass of the machine is
  one iteration of the loop body of \<open>Load\<close>.\<close>

lemma solo_words:
  assumes "n + length st \<le> kWords (sizeofT r)" "length (words_of (cell_at r (want_of rd))) = kWords (sizeofT r)"
    "pc rd = RWord s1 idx st"
  shows "(reader_step r ^^ n) rd =
    rd\<lparr>pc := RWord s1 idx (st @ take n (drop (length st) (words_of (cell_at r (want_of rd)))))\<rparr>"
  using assms
proof (induction n arbitrary: rd st)
  case 0
  then show ?case by simp
next
  case (Suc n)
  let ?ws = "words_of (cell_at r (want_of rd))"
  let ?rd = "rd\<lparr>pc := RWord s1 idx (st @ [?ws ! length st])\<rparr>"
  have w: "want_of ?rd = want_of rd" by (simp add: want_of_def)
  have "reader_step r rd = ?rd" using Suc.prems by (simp add: reader_step_def)
  then have "(reader_step r ^^ Suc n) rd = (reader_step r ^^ n) ?rd" by (simp add: funpow_Suc_right del: funpow.simps)
  also have "\<dots> = ?rd\<lparr>pc := RWord s1 idx ((st @ [?ws ! length st]) @
      take n (drop (length (st @ [?ws ! length st])) (words_of (cell_at r (want_of ?rd)))))\<rparr>"
    using Suc.prems w by (intro Suc.IH) simp_all
  also have "\<dots> = rd\<lparr>pc := RWord s1 idx (st @ take (Suc n) (drop (length st) ?ws))\<rparr>"
    using Suc.prems w by (simp add: Cons_nth_drop_Suc [symmetric])
  finally show ?case .
qed

lemma solo_load_eq:
  assumes sh: "shape r" and decides: "load_attempt r \<noteq> Retry"
  shows "pc ((reader_step r ^^ (kWords (sizeofT r) + 4)) (call_reader VLoad)) =
    (case load_attempt r of
       Empty \<Rightarrow> RDone OEmpty
     | Got staged \<Rightarrow> RDone (OValue (unstage (sizeofT r) staged))
     | Retry \<Rightarrow> RIdle)"
proof -
  let ?K = "kWords (sizeofT r)" and ?c = "write_count r"
  let ?cell = "cell_at r (?c - 1)"
  have fin: "pc ((reader_step r ^^ n) rd) = RDone out" if "pc rd = RDone out" for n rd out
    using that by (induction n) (simp_all add: reader_step_def)
  define rd1 where "rd1 = (call_reader VLoad)\<lparr>cur := ?c, pc := RSeq\<rparr>"
  have want: "want_of (rd1\<lparr>pc := p\<rparr>) = ?c - 1" for p by (simp add: rd1_def call_reader_def want_of_def)
  have unroll: "(reader_step r ^^ (?K + 4)) x = reader_step r ((reader_step r ^^ ?K) (reader_step r (reader_step r (reader_step r x))))" for x
    by (simp add: numeral_eq_Suc funpow_swap1)
  show ?thesis
  proof (cases "?c = 0")
    case True
    then have "pc (reader_step r (call_reader VLoad)) = RDone OEmpty"
      by (simp add: reader_step_def call_reader_def read_cursor_def)
    from fin [OF this, of "?K + 3"] show ?thesis
      using True by (simp add: load_attempt_def funpow_swap1 numeral_eq_Suc)
  next
    case False
    then have 1: "reader_step r (call_reader VLoad) = rd1"
      by (simp add: reader_step_def call_reader_def read_cursor_def rd1_def)
    show ?thesis
    proof (cases "load_attempt r")
      case Empty
      then have "seq ?cell = 0" using False by (auto simp: load_attempt_def Let_def split: if_splits)
      then have "pc (reader_step r rd1) = RDone OEmpty"
        using want [of RSeq] by (simp add: reader_step_def rd1_def read_seq_def call_reader_def)
      from fin [OF this, of "?K + 2"] show ?thesis
        using Empty 1 by (simp add: funpow_swap1 numeral_eq_Suc)
    next
      case (Got staged)
      then have g: "seq ?cell \<noteq> 0" "even (seq ?cell)" "index ?cell = ?c - 1" "words_of ?cell = staged"
        using False by (auto simp: load_attempt_def Let_def and_one_word split: if_splits)
      have len: "length (words_of ?cell) = ?K"
        using sh by (simp add: cell_at_def cell_no_def shape_def)
      have 2: "reader_step r rd1 = rd1\<lparr>pc := RIndex (seq ?cell)\<rparr>"
        using g want [of RSeq] by (simp add: reader_step_def rd1_def read_seq_def call_reader_def and_one_word)
      have 3: "reader_step r (rd1\<lparr>pc := RIndex (seq ?cell)\<rparr>) = rd1\<lparr>pc := RWord (seq ?cell) (?c - 1) []\<rparr>"
        using g want by (simp add: reader_step_def)
      have 4: "(reader_step r ^^ ?K) (rd1\<lparr>pc := RWord (seq ?cell) (?c - 1) []\<rparr>) =
          rd1\<lparr>pc := RWord (seq ?cell) (?c - 1) staged\<rparr>"
        using solo_words [of ?K "[]" r "rd1\<lparr>pc := RWord (seq ?cell) (?c - 1) []\<rparr>"] want len g by simp
      show ?thesis
        using Got 1 2 3 4 g want len
        by (simp add: unroll reader_step_def read_check_def accept_def rd1_def call_reader_def)
    qed (use decides in simp)
  qed
qed

text \<open>Accesses a snapshot still has to make: it never retries, so each entry costs at most one pass over
  its cell, whatever the writer does.\<close>

definition reads_left :: "nat \<Rightarrow> nat \<Rightarrow> nat \<Rightarrow> reader \<Rightarrow> nat" where
  "reads_left k n words rd =
     (let todo = (limit_of rd - length (taken rd)) * (words + 3) in
      case pc rd of
        RCount \<Rightarrow> min k n * (words + 3) + 1
      | RSeq \<Rightarrow> todo
      | RIndex s1 \<Rightarrow> todo - 1
      | RWord s1 idx staged \<Rightarrow> todo - 2 - length staged
      | _ \<Rightarrow> 0)"

definition snapping :: "nat \<Rightarrow> nat \<Rightarrow> reader \<Rightarrow> bool" where
  "snapping k words rd \<longleftrightarrow> verb_of rd = VSnapshot k \<and>
     (case pc rd of
        RCount \<Rightarrow> taken rd = []
      | RSeq \<Rightarrow> length (taken rd) < limit_of rd
      | RIndex s1 \<Rightarrow> length (taken rd) < limit_of rd
      | RWord s1 idx staged \<Rightarrow> length (taken rd) < limit_of rd \<and> length staged \<le> words
      | RDone out \<Rightarrow> (case out of OSnap vs \<Rightarrow> True | _ \<Rightarrow> False)
      | RIdle \<Rightarrow> False)"

lemma snapping_step:
  assumes "snapping k (kWords (sizeofT r)) rd" "\<not> ready (pc rd)"
  shows "snapping k (kWords (sizeofT r)) (reader_step r rd) \<and>
    reads_left k (depthN r) (kWords (sizeofT r)) (reader_step r rd) < reads_left k (depthN r) (kWords (sizeofT r)) rd"
proof -
  have v: "verb_of rd = VSnapshot k" using assms(1) by (simp add: snapping_def)
  have todo: "(limit_of rd - length (taken rd)) * (kWords (sizeofT r) + 3) =
      kWords (sizeofT r) + 3 + (limit_of rd - Suc (length (taken rd))) * (kWords (sizeofT r) + 3)"
    if "length (taken rd) < limit_of rd"
    using that by (simp add: Suc_diff_Suc [symmetric])
  note defs = reads_left_def snapping_def reader_step_def Let_def v retry_def
  show ?thesis
  proof (cases "pc rd")
    case RCount
    have "snapshot_limit k c n * m \<le> min k n * m" for c n m
      by (intro mult_le_mono1) (auto simp: snapshot_limit_min min_def)
    then show ?thesis using RCount assms by (simp add: defs read_cursor_def le_imp_less_Suc)
  next
    case RSeq
    then show ?thesis using assms todo by (auto simp: defs read_seq_def)
  next
    case (RIndex s1)
    then show ?thesis using assms todo by (simp add: defs)
  next
    case (RWord s1 idx staged)
    then show ?thesis using assms todo by (auto simp: defs read_check_def accept_def)
  qed (use assms(2) in simp_all)
qed

lemma exec_dims: "exec a s = Some t \<Longrightarrow> depthN (ring t) = depthN (ring s) \<and> sizeofT (ring t) = sizeofT (ring s)"
  by (cases a)
    (auto simp: exec_def invoke_def read_step_def writer_steps Let_def ring_simps split: if_splits wpc.splits)

lemma exec_other:
  "exec a s = Some t \<Longrightarrow> a \<noteq> Read i \<Longrightarrow> \<forall>v. a \<noteq> Call i v \<Longrightarrow> readers t i = readers s i"
  by (cases a)
    (auto simp: exec_def invoke_def read_step_def writer_steps Let_def split: if_splits wpc.splits)

lemma snapping_run:
  assumes "run as s = Some t" "\<forall>v. Call i v \<notin> set as" "snapping k (kWords (sizeofT (ring s))) (readers s i)"
  shows "count_list as (Read i) + reads_left k (depthN (ring t)) (kWords (sizeofT (ring t))) (readers t i) \<le>
      reads_left k (depthN (ring s)) (kWords (sizeofT (ring s))) (readers s i) \<and>
    snapping k (kWords (sizeofT (ring t))) (readers t i)"
  using assms
proof (induction as arbitrary: s)
  case (Cons a as)
  then obtain u where u: "exec a s = Some u" "run as u = Some t" by (auto split: option.splits)
  note dims = exec_dims [OF u(1)]
  show ?case
  proof (cases "a = Read i")
    case True
    then have "\<not> ready (pc (readers s i))" "readers u i = reader_step (ring s) (readers s i)"
      using u(1) by (auto simp: exec_def read_step_reader split: if_splits)
    then show ?thesis using snapping_step [OF Cons.prems(3)] Cons.IH [OF u(2)] Cons.prems(2) True dims by auto
  next
    case False
    then have "readers u i = readers s i" using exec_other [OF u(1)] Cons.prems(2) by auto
    then show ?thesis using Cons.IH [OF u(2)] Cons.prems(2,3) False dims by auto
  qed
qed simp

section \<open>Properties\<close>

text \<open>Schedules used by the witnesses and the counterexample runs (payload of nine bytes, so
  two words per cell).\<close>

abbreviation nine :: "u8 \<Rightarrow> u8 list" where
  "nine b \<equiv> replicate 9 b"

definition store_acts :: "u8 \<Rightarrow> action list" where
  "store_acts b = Begin (nine b) # replicate 8 Write"

definition read_trace :: "verb \<Rightarrow> action list" where
  "read_trace v = store_acts 1 @ store_acts 2 @ store_acts 3 @ [Call 0 v] @ replicate 6 (Read 0)"

definition lap_trace :: "action list" where
  "lap_trace = store_acts 1 @ store_acts 2 @ [Call 0 (VSnapshot 2)] @ replicate 6 (Read 0)
     @ store_acts 3 @ store_acts 4 @ replicate 5 (Read 0)"

definition aba_trace :: "action list" where
  "aba_trace = store_acts 1 @ [Call 0 VLoad] @ replicate 4 (Read 0)
     @ [Begin (nine 2), Write, Write, Write, Crash, Reclaim, Write, Write, Write]
     @ [Begin (nine 3)] @ replicate 7 Write @ [Read 0, Read 0]"

definition retract_trace :: "action list" where
  "retract_trace = store_acts 1 @ [Call 0 VLoad, Read 0] @ store_acts 2
     @ [Begin (nine 3), Write, Write, Write, Crash, Reclaim, Write, Write, Write] @ [Read 0]"

definition end_of :: "action list \<Rightarrow> nat \<Rightarrow> sys" where
  "end_of as n = the (run as (init_sys n 9))"

lemma end_of_reach:
  assumes "\<not> Option.is_none (run as (init_sys n 9))" "0 < n"
  shows "reach initial step (end_of as n)"
proof -
  have "run as (init_sys n 9) = Some (end_of as n)"
    using assms(1) by (simp add: end_of_def Option.is_none_def split: option.splits)
  moreover have "reach initial step (init_sys n 9)"
    using assms(2) by (intro reach_init) (auto simp: initial_def)
  ultimately show ?thesis by (rule run_reach)
qed

text \<open>Property C1. A read-latest verb never returns a torn or invented value: in every reachable
  state of one writer and any number of readers, with crashes and repairs at any point, a value
  returned by a copy that no effective crash repair overlapped is exactly the value stored at
  the position below the captured cursor, which is at least as new as what was published when
  the verb was called.\<close>

theorem load_never_torn:
  assumes "reach initial step s" "stores s < 2 ^ 63"
    and "pc (readers s i) = RDone (OValue v)" "gclean s i"
  shows "v = hist s ! (unat (cur (readers s i)) - 1) \<and> 0 < unat (cur (readers s i)) \<and>
    unat (cur (readers s i)) \<le> length (hist s) \<and> gfrom s i \<le> unat (cur (readers s i))"
  using reach_rd_inv [OF assms(1), of i] assms(2-4) by (simp add: rd_inv_def fits_def done_inv_def Let_def)

theorem load_never_torn_witness:
  "(let s = end_of (read_trace VLoad) 2 in
     pc (readers s 0) = RDone (OValue (nine 3)) \<and> gclean s 0 \<and>
     nine 3 = hist s ! (unat (cur (readers s 0)) - 1))"
proof -
  let ?s = "end_of (read_trace VLoad) 2"
  have r: "reach initial step ?s" by (rule end_of_reach) (code_simp, simp)
  have sk: "stores ?s = 3" and p: "pc (readers ?s 0) = RDone (OValue (nine 3))" and g: "gclean ?s 0"
    by code_simp+
  from sk have st: "stores ?s < 2 ^ 63" by simp
  from load_never_torn [OF r st p g] p g show ?thesis by (simp add: Let_def)
qed

text \<open>Property C2. However a snapshot interleaves with the writer, as long as no crash repair took effect while it was
  copying a cell (\<open>gclean\<close>), it returns values at strictly consecutive descending write positions below the cursor it
  captured, newest first, none of them torn, and no more than \<open>min(k, c, N)\<close> of them.\<close>

theorem snapshot_consecutive:
  assumes "reach initial step s" "stores s < 2 ^ 63"
    and "pc (readers s i) = RDone (OSnap vs)" "verb_of (readers s i) = VSnapshot k" "gclean s i"
  shows "(\<forall>j < length vs. vs ! j = hist s ! (unat (cur (readers s i)) - 1 - j)) \<and>
    unat (cur (readers s i)) \<le> length (hist s) \<and> gfrom s i \<le> unat (cur (readers s i)) \<and>
    length vs \<le> min k (min (unat (cur (readers s i))) (length (cells (ring s))))"
  using reach_rd_inv [OF assms(1), of i] assms(2-5)
  by (simp add: rd_inv_def fits_def done_inv_def Let_def descending_def budget_def)

theorem snapshot_consecutive_witness:
  "(let s = end_of lap_trace 2 in pc (readers s 0) = RDone (OSnap [nine 2]) \<and> hist s ! 1 = nine 2)"
proof -
  let ?s = "end_of lap_trace 2"
  have r: "reach initial step ?s" by (rule end_of_reach) (code_simp, simp)
  have sk: "stores ?s = 4" and p: "pc (readers ?s 0) = RDone (OSnap [nine 2])"
    and v: "verb_of (readers ?s 0) = VSnapshot 2" and g: "gclean ?s 0" and c: "unat (cur (readers ?s 0)) = 2"
    by code_simp+
  from sk have st: "stores ?s < 2 ^ 63" by simp
  from snapshot_consecutive [OF r st p v g] p c show ?thesis by (simp add: Let_def)
qed

text \<open>A concurrent writer can only shorten the tail of a snapshot: while no crash
  repair has taken effect, a snapshot that returns fewer than \<open>min(k, c, N)\<close> entries stopped at a
  position whose cell the writer has come round to again, so that position and every older one
  is beyond the last \<open>N\<close>.\<close>

theorem snapshot_loses_only_lapped:
  assumes "reach initial step s" "stores s < 2 ^ 63" "repairs s = 0"
    and "pc (readers s i) = RDone (OSnap vs)" "verb_of (readers s i) = VSnapshot k"
    and "length vs < min k (min (unat (cur (readers s i))) (length (cells (ring s))))" "length vs \<le> j"
  shows "unat (cur (readers s i)) - 1 - j + length (cells (ring s)) \<le> length (hist s)"
proof -
  have "unat (cur (readers s i)) - 1 - length vs + length (cells (ring s)) \<le> length (hist s)"
    using reach_rd_inv [OF assms(1), of i] assms(2-6)
    by (simp add: rd_inv_def fits_def done_inv_def Let_def budget_def lapped_def)
  with assms(7) show ?thesis by linarith
qed

theorem snapshot_loses_only_lapped_witness:
  "(let s = end_of lap_trace 2 in pc (readers s 0) = RDone (OSnap [nine 2]) \<and>
     unat (cur (readers s 0)) - 1 - 1 + length (cells (ring s)) \<le> length (hist s))"
proof -
  let ?s = "end_of lap_trace 2"
  have r: "reach initial step ?s" by (rule end_of_reach) (code_simp, simp)
  have sk: "stores ?s = 4" and z: "repairs ?s = 0" and p: "pc (readers ?s 0) = RDone (OSnap [nine 2])"
    and v: "verb_of (readers ?s 0) = VSnapshot 2" and c: "unat (cur (readers ?s 0)) = 2"
    and n: "length (cells (ring ?s)) = 2"
    by code_simp+
  from sk have st: "stores ?s < 2 ^ 63" by simp
  have l: "length [nine 2] < min 2 (min (unat (cur (readers ?s 0))) (length (cells (ring ?s))))"
    using c n by simp
  from snapshot_loses_only_lapped [OF r st z p v l, of 1] p show ?thesis by (simp add: Let_def)
qed

text \<open>Property C3. While no crash repair has taken effect, a read-latest verb that reports
  \<open>nothing published\<close> was called when indeed nothing had been published.\<close>

theorem load_empty_sound:
  assumes "reach initial step s" "stores s < 2 ^ 63" "repairs s = 0" "pc (readers s i) = RDone OEmpty"
  shows "gfrom s i = 0"
  using reach_rd_inv [OF assms(1), of i] assms(2-4) by (simp add: rd_inv_def fits_def done_inv_def)

theorem load_empty_sound_witness:
  "(let s = end_of [Call 0 VLoad, Read 0] 2 in pc (readers s 0) = RDone OEmpty \<and> gfrom s 0 = 0)"
proof -
  let ?s = "end_of [Call 0 VLoad, Read 0] 2"
  have r: "reach initial step ?s" by (rule end_of_reach) (code_simp, simp)
  have sk: "stores ?s = 0" and z: "repairs ?s = 0" and p: "pc (readers ?s 0) = RDone OEmpty"
    by code_simp+
  from sk have st: "stores ?s < 2 ^ 63" by simp
  from load_empty_sound [OF r st z p] p show ?thesis by (simp add: Let_def)
qed

text \<open>Property C4. The writer is wait-free: once a store has begun, any schedule in which the
  writer takes its \<open>kWords + 6\<close> accesses, interleaved with arbitrary calls and steps of readers,
  ends with the value published and the writer idle.\<close>

theorem store_wait_free:
  assumes "wpc_of s = WCount v" "\<forall>a \<in> set as. live a"
    and "count_list as Write = length (stage v) + 6" "run as s = Some t"
  shows "wpc_of t = WIdle \<and> hist t = hist s @ [v]"
  using storing_run [OF assms(4,2)] assms(1,3) by simp

theorem store_wait_free_witness:
  "(let s = end_of [Begin (nine 7), Call 0 VLoad] 1;
        as = concat (replicate 8 [Write]) in
     wpc_of s = WCount (nine 7) \<and> hist (the (run as s)) = [nine 7])"
proof -
  let ?s = "end_of [Begin (nine 7), Call 0 VLoad] 1" and ?as = "concat (replicate 8 [Write])"
  have w: "wpc_of ?s = WCount (nine 7)" and l: "\<forall>a \<in> set ?as. live a"
    and c: "count_list ?as Write = length (stage (nine 7)) + 6" and h: "hist ?s = []"
    and n: "\<not> Option.is_none (run ?as ?s)"
    by code_simp+
  then have r: "run ?as ?s = Some (the (run ?as ?s))" by (simp add: Option.is_none_def split: option.splits)
  from store_wait_free [OF w l c r] w h show ?thesis by (simp add: Let_def)
qed

text \<open>Property C5. Snapshot is wait-free: from its call on, in any schedule of the writer, its crashes,
  repairs and the other readers, the snapshot makes at most \<open>min(k, N) * (kWords + 3) + 1\<close> accesses of its
  own, and once it has made them it has returned.\<close>

theorem snapshot_wait_free:
  assumes "verb_of (readers s i) = VSnapshot k" "pc (readers s i) = RCount" "taken (readers s i) = []"
    and "run as s = Some t" "\<forall>v. Call i v \<notin> set as"
  shows "count_list as (Read i) \<le> min k (depthN (ring s)) * (kWords (sizeofT (ring s)) + 3) + 1 \<and>
    (count_list as (Read i) = min k (depthN (ring s)) * (kWords (sizeofT (ring s)) + 3) + 1 \<longrightarrow>
       (\<exists>vs. pc (readers t i) = RDone (OSnap vs)))"
proof -
  let ?w = "kWords (sizeofT (ring t))"
  have sn: "snapping k (kWords (sizeofT (ring s))) (readers s i)" using assms(1-3) by (simp add: snapping_def)
  have b: "count_list as (Read i) + reads_left k (depthN (ring t)) ?w (readers t i) \<le>
      min k (depthN (ring s)) * (kWords (sizeofT (ring s)) + 3) + 1" and sn': "snapping k ?w (readers t i)"
    using snapping_run [OF assms(4,5) sn] assms(2) by (simp_all add: reads_left_def)
  show ?thesis
  proof (intro conjI impI)
    show "count_list as (Read i) \<le> min k (depthN (ring s)) * (kWords (sizeofT (ring s)) + 3) + 1" using b by linarith
  next
    assume "count_list as (Read i) = min k (depthN (ring s)) * (kWords (sizeofT (ring s)) + 3) + 1"
    then have z: "reads_left k (depthN (ring t)) ?w (readers t i) = 0" using b by linarith
    have "ready (pc (readers t i))" using snapping_step [OF sn'] z by fastforce
    then show "\<exists>vs. pc (readers t i) = RDone (OSnap vs)"
      using sn' by (cases "pc (readers t i)") (auto simp: snapping_def split: outcome.splits)
  qed
qed

theorem snapshot_wait_free_witness:
  "(let s = end_of (store_acts 1 @ [Call 0 (VSnapshot 2)]) 2; as = replicate 6 (Read 0) in
     count_list as (Read 0) \<le> min 2 2 * (2 + 3) + 1 \<and> pc (readers (the (run as s)) 0) = RDone (OSnap [nine 1]))"
proof -
  let ?s = "end_of (store_acts 1 @ [Call 0 (VSnapshot 2)]) 2" and ?as = "replicate 6 (Read 0)"
  have v: "verb_of (readers ?s 0) = VSnapshot 2" and p: "pc (readers ?s 0) = RCount" and t: "taken (readers ?s 0) = []"
    and n: "\<not> Option.is_none (run ?as ?s)" and c: "\<forall>a \<in> set ?as. a = Read 0"
    and d: "depthN (ring ?s) = 2" "kWords (sizeofT (ring ?s)) = 2"
    and e: "pc (readers (the (run ?as ?s)) 0) = RDone (OSnap [nine 1])"
    by code_simp+
  have r: "run ?as ?s = Some (the (run ?as ?s))" using n by (simp add: Option.is_none_def split: option.splits)
  have c': "\<forall>v. Call 0 v \<notin> set ?as" using c by auto
  from snapshot_wait_free [OF v p t r c'] d e show ?thesis by (simp add: Let_def)
qed

text \<open>A reader that runs without interference on a quiescent ring finishes in
  \<open>kWords + 4\<close> accesses with the result of the sequential \<open>Load\<close>: the interleaved reader is the
  loop body of the code, access by access.\<close>

theorem solo_load_returns:
  assumes "ring_repr r h m b"
  shows "pc ((reader_step r ^^ (kWords (sizeofT r) + 4)) (call_reader VLoad)) =
    (case Load r of Some (Some v) \<Rightarrow> RDone (OValue v) | _ \<Rightarrow> RDone OEmpty)"
proof -
  have sh: "shape r" using assms by (simp add: ring_repr_def)
  have "load_attempt r \<noteq> Retry" using load_attempt_repr [OF assms] by simp
  from solo_load_eq [OF sh this] show ?thesis
    using load_attempt_repr [OF assms] Load_repr [OF assms] ring_repr_newest(4) [OF assms] by simp
qed

theorem solo_load_returns_witness:
  "pc ((reader_step (Store (nine 5) (fresh_ring 2 9)) ^^ 6) (call_reader VLoad)) = RDone (OValue (nine 5))"
proof -
  let ?r = "Store (nine 5) (fresh_ring 2 9)"
  have R: "ring_repr ?r ([] @ [nine 5]) (min 2 1) 1"
    using Store_repr [OF fresh_ring_repr [of 2 9], of "nine 5"]
    by (simp add: fresh_ring_def SeqlockRing_ctor_def)
  have k: "kWords (sizeofT ?r) = 2" by code_simp
  from solo_load_returns [OF R] Load_repr [OF R] k show ?thesis by simp
qed

text \<open>Property C23. The crash-repair protocol admits an ABA: a reader preempted across a writer
  crash, the repair (which resets the cell's sequence to zero) and the next store can see the
  sequence value it started from, and then validates a copy that mixes two stores. The value
  returned below was never passed to \<open>Store\<close>.\<close>

theorem crash_repair_torn_read:
  "\<exists>s. reach initial step s \<and> stores s = 3 \<and> repairs s = 1 \<and>
     pc (readers s 0) = RDone (OValue [1, 1, 1, 1, 1, 1, 1, 1, 3]) \<and>
     hist s = [nine 1] \<and> pend s = Some (nine 3)"
proof -
  let ?s = "end_of aba_trace 1"
  have "reach initial step ?s" by (rule end_of_reach) (code_simp, simp)
  moreover have "stores ?s = 3" "repairs ?s = 1" "hist ?s = [nine 1]" "pend ?s = Some (nine 3)"
      "pc (readers ?s 0) = RDone (OValue [1, 1, 1, 1, 1, 1, 1, 1, 3])"
    by code_simp+
  ultimately show ?thesis by blast
qed

text \<open>Property C22. A reader whose captured cursor is stale can meet the cell a repair has just
  retracted and then reports \<open>nothing published\<close> although values were published before it was
  called and the newest one is still readable.\<close>

theorem repair_spurious_empty:
  "\<exists>s. reach initial step s \<and> repairs s = 1 \<and> gfrom s 0 = 1 \<and> hist s = [nine 1, nine 2] \<and>
     pc (readers s 0) = RDone OEmpty \<and> load_attempt (ring s) = Got (stage (nine 2))"
proof -
  let ?s = "end_of retract_trace 2"
  have "reach initial step ?s" by (rule end_of_reach) (code_simp, simp)
  moreover have "repairs ?s = 1" "gfrom ?s 0 = 1" "hist ?s = [nine 1, nine 2]" "pc (readers ?s 0) = RDone OEmpty"
      "load_attempt (ring ?s) = Got (stage (nine 2))"
    by code_simp+
  ultimately show ?thesis by blast
qed

end
