(* ===== verification/Message_Cells.thy ===== *)
theory Message_Cells
  imports Seqlock_Ring
begin

text \<open>
  The facades over Core A: \<open>MessageSlot<T>\<close> and \<open>MutexMessageSlot<T>\<close> of
  \<open>concurrency/message_slot.hpp\<close> and \<open>MessageBuffer<T, N>\<close> of
  \<open>concurrency/message_buffer.hpp\<close>. Their shared contract (a cell that keeps the
  newest value, a buffer that keeps the newest \<open>N\<close>) is stated once as the locales
  \<open>latest_cell\<close> and \<open>history_buffer\<close>, interpreted on the three facades.
\<close>

section \<open>MessageSlot\<close>

record MessageSlot =
  slot_ring :: Ring

definition MessageSlot_ctor :: "nat \<Rightarrow> MessageSlot" where
  "MessageSlot_ctor sz = \<lparr>slot_ring = fresh_ring 1 sz\<rparr>"

definition MessageSlot_StorageBytes :: "nat \<Rightarrow> u64" where
  "MessageSlot_StorageBytes sz = StorageBytes 1 sz"

definition MessageSlot_Store :: "u8 list \<Rightarrow> MessageSlot \<Rightarrow> MessageSlot" where
  "MessageSlot_Store value s = s\<lparr>slot_ring := Store value (slot_ring s)\<rparr>"

definition MessageSlot_Load :: "MessageSlot \<Rightarrow> u8 list option option" where
  "MessageSlot_Load s = Load (slot_ring s)"

definition MessageSlot_LoadBounded :: "MessageSlot \<Rightarrow> u32 \<Rightarrow> LoadResult option" where
  "MessageSlot_LoadBounded s max_retries = LoadBounded (slot_ring s) max_retries"

definition MessageSlot_Repair :: "MessageSlot \<Rightarrow> MessageSlot" where
  "MessageSlot_Repair s = s\<lparr>slot_ring := RepairAfterWriterCrash (slot_ring s)\<rparr>"

section \<open>MutexMessageSlot\<close>

text \<open>
  Both verbs run under the mutex, so each is one atomic step on the two fields;
  \<open>T\<close> is any type with a default value, and \<open>Load\<close> always returns.
\<close>

record 'v MutexMessageSlot =
  mslot_value :: 'v
  mslot_written :: bool

definition MutexMessageSlot_ctor :: "'v \<Rightarrow> 'v MutexMessageSlot" where
  "MutexMessageSlot_ctor dflt = \<lparr>mslot_value = dflt, mslot_written = False\<rparr>"

definition MutexMessageSlot_Store :: "'v \<Rightarrow> 'v MutexMessageSlot \<Rightarrow> 'v MutexMessageSlot" where
  "MutexMessageSlot_Store value s = s\<lparr>mslot_value := value, mslot_written := True\<rparr>"

definition MutexMessageSlot_Load :: "'v MutexMessageSlot \<Rightarrow> 'v option" where
  "MutexMessageSlot_Load s = (if \<not> mslot_written s then None else Some (mslot_value s))"

section \<open>MessageBuffer\<close>

record MessageBuffer =
  buffer_ring :: Ring

definition MessageBuffer_ctor :: "nat \<Rightarrow> nat \<Rightarrow> MessageBuffer" where
  "MessageBuffer_ctor n sz = \<lparr>buffer_ring = fresh_ring n sz\<rparr>"

definition MessageBuffer_StorageBytes :: "nat \<Rightarrow> nat \<Rightarrow> u64" where
  "MessageBuffer_StorageBytes n sz = StorageBytes n sz"

definition MessageBuffer_CellBytes :: "nat \<Rightarrow> u64" where
  "MessageBuffer_CellBytes sz = CellBytes sz"

definition MessageBuffer_Store :: "u8 list \<Rightarrow> MessageBuffer \<Rightarrow> MessageBuffer" where
  "MessageBuffer_Store value b = b\<lparr>buffer_ring := Store value (buffer_ring b)\<rparr>"

definition LoadLatest :: "MessageBuffer \<Rightarrow> u8 list option option" where
  "LoadLatest b = Load (buffer_ring b)"

definition LoadLatestBounded :: "MessageBuffer \<Rightarrow> u32 \<Rightarrow> LoadResult option" where
  "LoadLatestBounded b max_retries = LoadBounded (buffer_ring b) max_retries"

definition MessageBuffer_Snapshot :: "MessageBuffer \<Rightarrow> nat \<Rightarrow> u8 list list" where
  "MessageBuffer_Snapshot b k = Snapshot (buffer_ring b) k"

definition MessageBuffer_capacity :: "MessageBuffer \<Rightarrow> nat" where
  "MessageBuffer_capacity b = depthN (buffer_ring b)"

definition MessageBuffer_Repair :: "MessageBuffer \<Rightarrow> MessageBuffer" where
  "MessageBuffer_Repair b = b\<lparr>buffer_ring := RepairAfterWriterCrash (buffer_ring b)\<rparr>"

section \<open>The contracts\<close>

text \<open>
  A latest-value cell represents the history \<open>h\<close> of what was stored in it. The bound on
  the history is the one under which the 64-bit cursor and sequences do not wrap.
\<close>

abbreviation count_limit :: nat where
  "count_limit \<equiv> 2 ^ 63"

locale latest_cell =
  fixes repr :: "'s \<Rightarrow> 'v list \<Rightarrow> bool"
    and fits :: "'s \<Rightarrow> 'v \<Rightarrow> bool"
    and put :: "'v \<Rightarrow> 's \<Rightarrow> 's"
    and latest :: "'s \<Rightarrow> 'v option option"
  assumes put_repr: "repr s h \<Longrightarrow> fits s v \<Longrightarrow> length h + 1 < count_limit \<Longrightarrow> repr (put v s) (h @ [v])"
    and put_fits: "repr s h \<Longrightarrow> fits s v \<Longrightarrow> fits (put v s) w \<longleftrightarrow> fits s w"
    and latest_repr: "repr s h \<Longrightarrow> latest s = Some (if h = [] then None else Some (last h))"
begin

lemma puts_repr:
  assumes "repr s h" "\<forall>v \<in> set vs. fits s v" "length h + length vs < count_limit"
  shows "repr (fold put vs s) (h @ vs)"
  using assms
proof (induction vs arbitrary: s h)
  case Nil
  then show ?case by simp
next
  case (Cons v vs)
  then have "repr (put v s) (h @ [v])" "\<forall>w \<in> set vs. fits (put v s) w"
    by (simp_all add: put_repr put_fits)
  with Cons.IH [of "put v s" "h @ [v]"] Cons.prems show ?case by simp
qed

lemma latest_after:
  assumes "repr s h" "\<forall>v \<in> set vs. fits s v" "length h + length vs < count_limit" "vs \<noteq> []"
  shows "latest (fold put vs s) = Some (Some (last vs))"
  using latest_repr [OF puts_repr [OF assms(1-3)]] assms(4) by simp

end

text \<open>A history buffer also answers snapshots: the newest entries first, at most its depth.\<close>

locale history_buffer = latest_cell repr fits put latest
  for repr :: "'s \<Rightarrow> 'v list \<Rightarrow> bool" and fits put latest +
  fixes depth :: "'s \<Rightarrow> nat"
    and snap :: "'s \<Rightarrow> nat \<Rightarrow> 'v list"
  assumes snap_repr: "repr s h \<Longrightarrow> snap s k = take (min k (depth s)) (rev h)"
    and depth_pos: "repr s h \<Longrightarrow> 0 < depth s"
    and put_depth: "repr s h \<Longrightarrow> fits s v \<Longrightarrow> depth (put v s) = depth s"
begin

lemma puts_depth:
  assumes "repr s h" "\<forall>v \<in> set vs. fits s v" "length h + length vs < count_limit"
  shows "depth (fold put vs s) = depth s"
  using assms
proof (induction vs arbitrary: s h)
  case Nil
  then show ?case by simp
next
  case (Cons v vs)
  then have "repr (put v s) (h @ [v])" "\<forall>w \<in> set vs. fits (put v s) w" "depth (put v s) = depth s"
    by (simp_all add: put_repr put_fits put_depth)
  with Cons.IH [of "put v s" "h @ [v]"] Cons.prems show ?case by simp
qed

lemma snap_after:
  assumes "repr s h" "\<forall>v \<in> set vs. fits s v" "length h + length vs < count_limit"
  shows "snap (fold put vs s) k = take (min k (depth s)) (rev vs @ rev h)"
  using snap_repr [OF puts_repr [OF assms]] puts_depth [OF assms] by simp

lemma snap_head_latest:
  assumes "repr s h" "h \<noteq> []"
  shows "latest s = Some (Some (hd (snap s (Suc k))))"
proof -
  obtain d where "depth s = Suc d" using depth_pos [OF assms(1)] by (cases "depth s") auto
  moreover have "hd (rev h) = last h" by (simp add: hd_rev)
  ultimately show ?thesis
    using latest_repr [OF assms(1)] snap_repr [OF assms(1), of "Suc k"] assms(2)
    by (cases "rev h") auto
qed

end

section \<open>The facades satisfy them\<close>

text \<open>A ring that never lost a store to a crash keeps all of the newest \<open>N\<close> readable.\<close>

definition ring_holds :: "Ring \<Rightarrow> u8 list list \<Rightarrow> bool" where
  "ring_holds r h \<longleftrightarrow> ring_repr r h (min (depthN r) (length h)) (length h)"

definition slot_repr :: "MessageSlot \<Rightarrow> u8 list list \<Rightarrow> bool" where
  "slot_repr s h \<longleftrightarrow> ring_holds (slot_ring s) h \<and> depthN (slot_ring s) = 1"

definition slot_fits :: "MessageSlot \<Rightarrow> u8 list \<Rightarrow> bool" where
  "slot_fits s v \<longleftrightarrow> length v = sizeofT (slot_ring s)"

definition buffer_repr :: "MessageBuffer \<Rightarrow> u8 list list \<Rightarrow> bool" where
  "buffer_repr b h \<longleftrightarrow> ring_holds (buffer_ring b) h"

definition buffer_fits :: "MessageBuffer \<Rightarrow> u8 list \<Rightarrow> bool" where
  "buffer_fits b v \<longleftrightarrow> length v = sizeofT (buffer_ring b)"

definition mutex_repr :: "'v MutexMessageSlot \<Rightarrow> 'v list \<Rightarrow> bool" where
  "mutex_repr s h \<longleftrightarrow> mslot_written s = (h \<noteq> []) \<and> (h \<noteq> [] \<longrightarrow> mslot_value s = last h)"

lemma Store_shape_sel [simp]:
  "sizeofT (Store v r) = sizeofT r" "depthN (Store v r) = depthN r"
  by (simp_all add: Store_def Let_def ring_simps)

lemma ring_holds_shape: "ring_holds r h \<Longrightarrow> 0 < depthN r"
  by (simp add: ring_holds_def ring_repr_def shape_def)

lemma ring_holds_fresh: "0 < n \<Longrightarrow> ring_holds (fresh_ring n sz) []"
  using fresh_ring_repr [of n sz] by (simp add: ring_holds_def)

lemma fresh_ring_sel [simp]: "sizeofT (fresh_ring n sz) = sz" "depthN (fresh_ring n sz) = n"
  by (simp_all add: fresh_ring_def SeqlockRing_ctor_def)

lemma ring_holds_Store:
  assumes "ring_holds r h" "length v = sizeofT r" "length h + 1 < count_limit"
  shows "ring_holds (Store v r) (h @ [v])"
proof -
  have m: "min (depthN r) (min (depthN r) (length h) + 1) = min (depthN r) (length h + 1)" by auto
  have b: "length h + 1 < 2 ^ 63" using assms(3) by simp
  have "ring_repr (Store v r) (h @ [v]) (min (depthN r) (min (depthN r) (length h) + 1)) (length h + 1)"
    using Store_repr [OF _ assms(2) b] assms(1) unfolding ring_holds_def by blast
  then show ?thesis unfolding ring_holds_def m by (simp only: Store_shape_sel length_append_singleton Suc_eq_plus1)
qed

lemma ring_holds_Load:
  assumes "ring_holds r h"
  shows "Load r = Some (if h = [] then None else Some (last h))"
  using Load_repr [OF assms [unfolded ring_holds_def]] ring_holds_shape [OF assms] by (auto simp: min_def)

lemma ring_holds_Snapshot:
  assumes "ring_holds r h"
  shows "Snapshot r k = take (min k (depthN r)) (rev h)"
  using Snapshot_repr [OF assms [unfolded ring_holds_def], of k] by (simp add: min_def)

lemmas facade_defs = slot_repr_def slot_fits_def MessageSlot_Store_def MessageSlot_Load_def
  buffer_repr_def buffer_fits_def MessageBuffer_Store_def LoadLatest_def
  MessageBuffer_Snapshot_def MessageBuffer_capacity_def

interpretation slot: latest_cell slot_repr slot_fits MessageSlot_Store MessageSlot_Load
  by unfold_locales (simp_all add: facade_defs ring_holds_Store ring_holds_Load)

interpretation buffer: history_buffer buffer_repr buffer_fits MessageBuffer_Store LoadLatest
    MessageBuffer_capacity MessageBuffer_Snapshot
  by unfold_locales
    (auto simp: facade_defs ring_holds_Store ring_holds_Load ring_holds_Snapshot dest: ring_holds_shape)

interpretation mutex_slot: latest_cell mutex_repr "\<lambda>_ _. True" MutexMessageSlot_Store
    "\<lambda>s. Some (MutexMessageSlot_Load s)"
  by unfold_locales
    (auto simp: mutex_repr_def MutexMessageSlot_Store_def MutexMessageSlot_Load_def)


section \<open>Crash and repair through the facade\<close>

lemma Stores_repr:
  assumes "ring_repr r h m b" "\<forall>v \<in> set vs. length v = sizeofT r" "b + length vs < count_limit"
  shows "ring_repr (fold Store vs r) (h @ vs) (min (depthN r) (m + length vs)) (b + length vs)"
  using assms
proof (induction vs arbitrary: r h m b)
  case Nil
  then have "min (depthN r) m = m" by (simp add: ring_repr_def)
  with Nil show ?case by simp
next
  case (Cons v vs)
  then have "ring_repr (Store v r) (h @ [v]) (min (depthN r) (m + 1)) (b + 1)"
    by (intro Store_repr) simp_all
  from Cons.IH [OF this] Cons.prems
  have "ring_repr (fold Store vs (Store v r)) ((h @ [v]) @ vs)
      (min (depthN r) (min (depthN r) (m + 1) + length vs)) (b + 1 + length vs)" by simp
  moreover have "min (depthN r) (min (depthN r) (m + 1) + length vs) = min (depthN r) (m + length (v # vs))"
    by auto
  ultimately show ?case by simp
qed

lemma Stores_sel [simp]:
  "sizeofT (fold Store vs r) = sizeofT r" "depthN (fold Store vs r) = depthN r"
  by (induction vs arbitrary: r) simp_all

lemma Repair_sel [simp]:
  "sizeofT (RepairAfterWriterCrash r) = sizeofT r" "depthN (RepairAfterWriterCrash r) = depthN r"
  by (simp_all add: RepairAfterWriterCrash_def Let_def ring_simps)

text \<open>The writer of a buffer dies inside \<open>Store(v)\<close> after \<open>n\<close> of its memory accesses and the
  claiming successor repairs.\<close>

definition crash_and_repair :: "nat \<Rightarrow> u8 list \<Rightarrow> MessageBuffer \<Rightarrow> MessageBuffer" where
  "crash_and_repair n v b = MessageBuffer_Repair (b\<lparr>buffer_ring := crashed_store n v (buffer_ring b)\<rparr>)"

lemma crash_and_repair_repr:
  assumes "buffer_repr b h" "buffer_fits b v" "1 \<le> n" "n \<le> kWords (sizeofT (buffer_ring b)) + 2"
  shows "ring_repr (buffer_ring (crash_and_repair n v b)) h
      (min (MessageBuffer_capacity b - 1) (length h)) (length h)"
    and "sizeofT (buffer_ring (crash_and_repair n v b)) = sizeofT (buffer_ring b)"
    and "depthN (buffer_ring (crash_and_repair n v b)) = MessageBuffer_capacity b"
proof -
  let ?r = "buffer_ring b"
  have R: "ring_repr ?r h (min (depthN ?r) (length h)) (length h)"
    using assms(1) by (simp add: buffer_repr_def ring_holds_def)
  have M: "mid_store ?r (crashed_store n v ?r)"
    using R assms(2-4) by (intro crashed_store_mid) (simp_all add: ring_repr_def buffer_fits_def)
  have m: "min (min (depthN ?r) (length h)) (depthN ?r - 1) = min (depthN ?r - 1) (length h)" by auto
  show "ring_repr (buffer_ring (crash_and_repair n v b)) h
      (min (MessageBuffer_capacity b - 1) (length h)) (length h)"
    using Repair_mid_store [OF R M, unfolded m]
    by (simp add: crash_and_repair_def MessageBuffer_Repair_def MessageBuffer_capacity_def)
  show "sizeofT (buffer_ring (crash_and_repair n v b)) = sizeofT ?r"
    "depthN (buffer_ring (crash_and_repair n v b)) = MessageBuffer_capacity b"
    using M by (auto simp: crash_and_repair_def MessageBuffer_Repair_def MessageBuffer_capacity_def mid_store_def)
qed

lemma buffer_fold_ring: "buffer_ring (fold MessageBuffer_Store vs b) = fold Store vs (buffer_ring b)"
  by (induction vs arbitrary: b) (simp_all add: MessageBuffer_Store_def)

lemma buffer_ctor_repr: "0 < n \<Longrightarrow> buffer_repr (MessageBuffer_ctor n sz) []"
  by (simp add: buffer_repr_def MessageBuffer_ctor_def ring_holds_fresh)

lemma buffer_ctor_sel [simp]:
  "buffer_fits (MessageBuffer_ctor n sz) v \<longleftrightarrow> length v = sz" "MessageBuffer_capacity (MessageBuffer_ctor n sz) = n"
  by (simp_all add: buffer_fits_def MessageBuffer_ctor_def MessageBuffer_capacity_def)

section \<open>Properties\<close>

text \<open>Property C6. A \<open>MessageBuffer\<close> of depth \<open>N\<close> refines the list of everything stored: after
  any sequence of stores the latest read returns the last value and a snapshot of \<open>k\<close> returns
  exactly the newest \<open>min(k, N)\<close> values, newest first.\<close>

theorem message_buffer_history:
  assumes "0 < n" "\<forall>v \<in> set vs. length v = sz" "length vs < 2 ^ 63"
  shows "(let b = fold MessageBuffer_Store vs (MessageBuffer_ctor n sz) in
     LoadLatest b = Some (if vs = [] then None else Some (last vs)) \<and>
     MessageBuffer_Snapshot b k = take (min k n) (rev vs) \<and> MessageBuffer_capacity b = n)"
proof -
  have f: "\<forall>v \<in> set vs. buffer_fits (MessageBuffer_ctor n sz) v" "length [] + length vs < count_limit"
    using assms by simp_all
  note ctx = buffer_ctor_repr [OF assms(1), of sz] f
  show ?thesis
    using buffer.latest_repr [OF buffer.puts_repr [OF ctx]] buffer.snap_after [OF ctx, of k]
      buffer.puts_depth [OF ctx] by (simp add: Let_def)
qed

theorem message_buffer_history_witness:
  "MessageBuffer_Snapshot (fold MessageBuffer_Store [[1], [2], [3]] (MessageBuffer_ctor 2 1)) 5 = [[3], [2]]"
  using message_buffer_history [of 2 "[[1], [2], [3]]" 1 5] by (simp add: Let_def)

text \<open>\<open>MessageSlot\<close> and \<open>MutexMessageSlot\<close> are interchangeable latest-value cells:
  after the same stores the lock-free read returns, and returns what the mutex-guarded one does.\<close>

theorem slot_equals_mutex_slot:
  assumes "\<forall>v \<in> set vs. length v = sz" "length vs < 2 ^ 63"
  shows "MessageSlot_Load (fold MessageSlot_Store vs (MessageSlot_ctor sz)) =
    Some (MutexMessageSlot_Load (fold MutexMessageSlot_Store vs (MutexMessageSlot_ctor d)))"
proof -
  have a: "slot_repr (MessageSlot_ctor sz) []"
    by (simp add: slot_repr_def MessageSlot_ctor_def ring_holds_fresh)
  have b: "mutex_repr (MutexMessageSlot_ctor d) []"
    by (simp add: mutex_repr_def MutexMessageSlot_ctor_def)
  have f: "\<forall>v \<in> set vs. slot_fits (MessageSlot_ctor sz) v" "length [] + length vs < count_limit"
    using assms by (simp_all add: slot_fits_def MessageSlot_ctor_def)
  show ?thesis
    using slot.latest_repr [OF slot.puts_repr [OF a f]] mutex_slot.latest_repr [OF mutex_slot.puts_repr [OF b _ f(2)]]
    by simp
qed

theorem slot_equals_mutex_slot_witness:
  "MessageSlot_Load (fold MessageSlot_Store [[1, 2], [3, 4]] (MessageSlot_ctor 2)) =
    Some (MutexMessageSlot_Load (fold MutexMessageSlot_Store [[1, 2], [3, 4]] (MutexMessageSlot_ctor [])))"
  by (rule slot_equals_mutex_slot) simp_all

text \<open>Crash repair keeps the published history: when the writer dies inside a store
  with its cell marked odd, wherever in the payload, and the claiming writer repairs, the buffer
  loses only the value that was due for overwriting: a snapshot returns the newest
  \<open>min(k, N - 1)\<close> values, the latest read answers the last published value when \<open>N > 1\<close>, and
  after further stores the buffer behaves as if the crash had not happened.\<close>

theorem crash_repair_keeps_history:
  assumes "0 < N" "\<forall>w \<in> set (v # vs @ ws). length w = sz" "length vs + length ws < 2 ^ 63"
    and "1 \<le> n" "n \<le> kWords sz + 2"
  shows "(let b = crash_and_repair n v (fold MessageBuffer_Store vs (MessageBuffer_ctor N sz));
      b' = fold MessageBuffer_Store ws b in
     MessageBuffer_Snapshot b k = take (min k (N - 1)) (rev vs) \<and>
     LoadLatest b = Some (if vs = [] \<or> N = 1 then None else Some (last vs)) \<and>
     MessageBuffer_Snapshot b' k = take (min k (min N (min (N - 1) (length vs) + length ws))) (rev ws @ rev vs) \<and>
     (ws \<noteq> [] \<longrightarrow> LoadLatest b' = Some (Some (last ws))))"
proof -
  let ?start = "fold MessageBuffer_Store vs (MessageBuffer_ctor N sz)"
  let ?b = "crash_and_repair n v ?start"
  let ?b' = "fold MessageBuffer_Store ws ?b"
  have B0: "buffer_repr ?start vs" "MessageBuffer_capacity ?start = N"
    using buffer.puts_repr [OF buffer_ctor_repr [OF assms(1), of sz], of vs]
      buffer.puts_depth [OF buffer_ctor_repr [OF assms(1), of sz], of vs] assms(2,3) by simp_all
  have z: "sizeofT (buffer_ring ?start) = sz" by (simp add: buffer_fold_ring MessageBuffer_ctor_def)
  have fits: "buffer_fits ?start v" using z assms(2) by (simp add: buffer_fits_def)
  note R = crash_and_repair_repr [OF B0(1) fits assms(4), unfolded z B0(2), OF assms(5)]
  have R': "ring_repr (buffer_ring ?b') (vs @ ws) (min N (min (N - 1) (length vs) + length ws)) (length vs + length ws)"
    using Stores_repr [OF R(1), of ws] R(2,3) assms(2,3) by (simp add: buffer_fold_ring)
  have s: "min k (min (N - 1) (length vs)) = min (min k (N - 1)) (length (rev vs))" by simp
  have e: "min (N - 1) (length vs) = 0 \<longleftrightarrow> vs = [] \<or> N = 1" using assms(1) by (auto simp: min_def)
  have "MessageBuffer_Snapshot ?b k = take (min k (N - 1)) (rev vs)"
    unfolding MessageBuffer_Snapshot_def Snapshot_repr [OF R(1)] s by (simp add: min_def)
  moreover have "LoadLatest ?b = Some (if vs = [] \<or> N = 1 then None else Some (last vs))"
    using Load_repr [OF R(1)] e by (simp add: LoadLatest_def)
  moreover have "MessageBuffer_Snapshot ?b' k =
      take (min k (min N (min (N - 1) (length vs) + length ws))) (rev ws @ rev vs)"
    using Snapshot_repr [OF R', of k] by (simp add: MessageBuffer_Snapshot_def)
  moreover have "LoadLatest ?b' = Some (Some (last ws))" if "ws \<noteq> []"
    using Load_repr [OF R'] that assms(1) by (auto simp: LoadLatest_def)
  ultimately show ?thesis by (simp add: Let_def)
qed

theorem crash_repair_keeps_history_witness:
  "MessageBuffer_Snapshot (crash_and_repair 2 [9] (fold MessageBuffer_Store [[1], [2], [3]] (MessageBuffer_ctor 3 1))) 5
    = [[3], [2]]"
  using crash_repair_keeps_history [of 3 "[9]" "[[1], [2], [3]]" "[]" 1 2 5] by (simp add: Let_def kWords_def)

end
