(* ===== verification/Spsc_Queue.thy ===== *)
theory Spsc_Queue
  imports Prelude
begin

text \<open>
  Core B of the buffer taxonomy, \<open>SpscQueue<T>\<close> of \<open>concurrency/spsc_queue.hpp\<close>: the
  control block and cells, every operation as one thread runs it, the bounded-FIFO contract
  as a locale, and the interleaving of one producer with one consumer, one shared-memory
  access per step. The free-running 64-bit indices wrap.
\<close>

section \<open>Data and operations\<close>

record 'a Spsc =
  capacity :: u64
  head :: u64
  tail :: u64
  qcells :: "'a list"

abbreviation slot_of :: "'a Spsc \<Rightarrow> u64 \<Rightarrow> nat" where
  "slot_of q i \<equiv> unat (i mod capacity q)"

text \<open>
  Only an initializing storage authors the capacity and the indices; an attaching view
  takes the region as it finds it. A depth of zero becomes one.
\<close>

definition effective_depth :: "u32 \<Rightarrow> u32" where
  "effective_depth depth = (if depth = 0 then 1 else depth)"

definition SpscQueue_ctor :: "'a \<Rightarrow> u32 \<Rightarrow> bool \<Rightarrow> 'a Spsc \<Rightarrow> 'a Spsc" where
  "SpscQueue_ctor dflt depth initialize placed =
     (if initialize
      then placed\<lparr>capacity := ucast (effective_depth depth), head := 0, tail := 0,
             qcells := replicate (unat (effective_depth depth)) dflt\<rparr>
      else placed)"

definition TryPush :: "'a \<Rightarrow> 'a Spsc \<Rightarrow> bool \<times> 'a Spsc" where
  "TryPush value q =
     (if capacity q \<le> tail q - head q then (False, q)
      else (True, q\<lparr>qcells := (qcells q)[slot_of q (tail q) := value], tail := tail q + 1\<rparr>))"

definition TryPop :: "'a Spsc \<Rightarrow> 'a option \<times> 'a Spsc" where
  "TryPop q =
     (if head q = tail q then (None, q)
      else (Some (qcells q ! slot_of q (head q)), q\<lparr>head := head q + 1\<rparr>))"

definition Full :: "'a Spsc \<Rightarrow> bool" where
  "Full q \<longleftrightarrow> capacity q \<le> tail q - head q"

definition Size :: "'a Spsc \<Rightarrow> u64" where
  "Size q = (if head q \<le> tail q then tail q - head q else 0)"

definition queue_capacity :: "'a Spsc \<Rightarrow> u64" where
  "queue_capacity q = capacity q"

section \<open>The bounded-FIFO contract\<close>

text \<open>
  \<open>repr q ps k\<close>: everything ever pushed is \<open>ps\<close>, and its first \<open>k\<close> elements were popped.
  \<open>may_hold q n\<close> bounds the number of pushes the indices can count.
\<close>

datatype 'a queue_op = Push 'a | Pop

datatype 'a queue_result = Pushed bool | Popped "'a option"

fun ref_op :: "nat \<Rightarrow> 'a queue_op \<Rightarrow> 'a list \<Rightarrow> 'a queue_result \<times> 'a list" where
  "ref_op n (Push x) xs = (if length xs < n then (Pushed True, xs @ [x]) else (Pushed False, xs))"
| "ref_op n Pop xs = (case xs of [] \<Rightarrow> (Popped None, []) | y # ys \<Rightarrow> (Popped (Some y), ys))"

fun ref_ops :: "nat \<Rightarrow> 'a queue_op list \<Rightarrow> 'a list \<Rightarrow> 'a queue_result list" where
  "ref_ops n [] xs = []"
| "ref_ops n (c # cs) xs = (let (res, xs') = ref_op n c xs in res # ref_ops n cs xs')"

fun do_op :: "'a queue_op \<Rightarrow> 'a Spsc \<Rightarrow> 'a queue_result \<times> 'a Spsc" where
  "do_op (Push x) q = (let (b, q') = TryPush x q in (Pushed b, q'))"
| "do_op Pop q = (let (v, q') = TryPop q in (Popped v, q'))"

fun do_ops :: "'a queue_op list \<Rightarrow> 'a Spsc \<Rightarrow> 'a queue_result list" where
  "do_ops [] q = []"
| "do_ops (c # cs) q = (let (res, q') = do_op c q in res # do_ops cs q')"

locale bounded_fifo =
  fixes repr :: "'q \<Rightarrow> 'a list \<Rightarrow> nat \<Rightarrow> bool"
    and may_hold :: "'q \<Rightarrow> nat \<Rightarrow> bool"
    and cap :: "'q \<Rightarrow> nat"
    and push :: "'a \<Rightarrow> 'q \<Rightarrow> bool \<times> 'q"
    and pop :: "'q \<Rightarrow> 'a option \<times> 'q"
  assumes repr_bounds: "repr q ps k \<Longrightarrow> k \<le> length ps \<and> length ps \<le> k + cap q"
    and push_full: "repr q ps k \<Longrightarrow> length ps = k + cap q \<Longrightarrow> push x q = (False, q)"
    and push_room: "repr q ps k \<Longrightarrow> length ps < k + cap q \<Longrightarrow> may_hold q (length ps + 1) \<Longrightarrow>
      fst (push x q) \<and> repr (snd (push x q)) (ps @ [x]) k"
    and push_keeps: "cap (snd (push x q)) = cap q" "may_hold (snd (push x q)) n \<longleftrightarrow> may_hold q n"
    and pop_empty: "repr q ps k \<Longrightarrow> k = length ps \<Longrightarrow> pop q = (None, q)"
    and pop_some: "repr q ps k \<Longrightarrow> k < length ps \<Longrightarrow>
      fst (pop q) = Some (ps ! k) \<and> repr (snd (pop q)) ps (Suc k)"
    and pop_keeps: "cap (snd (pop q)) = cap q" "may_hold (snd (pop q)) n \<longleftrightarrow> may_hold q n"
    and may_hold_mono: "may_hold q n \<Longrightarrow> m \<le> n \<Longrightarrow> may_hold q m"
begin

lemma push_ref:
  assumes "repr q ps k" "may_hold q (length ps + 1)"
  shows "(Pushed (fst (push x q)), drop k (if fst (push x q) then ps @ [x] else ps)) = ref_op (cap q) (Push x) (drop k ps)"
    "repr (snd (push x q)) (if fst (push x q) then ps @ [x] else ps) k"
  using push_full [OF assms(1), of x] push_room [OF assms(1) _ assms(2), of x] repr_bounds [OF assms(1)] assms(1)
  by (cases "length ps < k + cap q"; auto)+

lemma pop_ref:
  assumes "repr q ps k"
  shows "(Popped (fst (pop q)), drop (if k < length ps then Suc k else k) ps) = ref_op (cap q) Pop (drop k ps)"
    "repr (snd (pop q)) ps (if k < length ps then Suc k else k)"
proof -
  show "repr (snd (pop q)) ps (if k < length ps then Suc k else k)"
    using pop_empty [OF assms] pop_some [OF assms] repr_bounds [OF assms] assms by (cases "k < length ps") auto
  show "(Popped (fst (pop q)), drop (if k < length ps then Suc k else k) ps) = ref_op (cap q) Pop (drop k ps)"
    using pop_empty [OF assms] pop_some [OF assms] repr_bounds [OF assms]
    by (cases "k < length ps") (auto simp: Cons_nth_drop_Suc [symmetric])
qed

end

section \<open>The ring satisfies it\<close>

text \<open>
  While the indices have not wrapped, or when the capacity divides \<open>2 ^ 64\<close>, the cell of the
  \<open>p\<close>-th push is \<open>p mod capacity\<close>.
\<close>

definition index_ok :: "'a Spsc \<Rightarrow> nat \<Rightarrow> bool" where
  "index_ok q n \<longleftrightarrow> n < 2 ^ 64 \<or> unat (capacity q) dvd 2 ^ 64"

definition spsc_repr :: "'a Spsc \<Rightarrow> 'a list \<Rightarrow> nat \<Rightarrow> bool" where
  "spsc_repr q ps k \<longleftrightarrow>
     0 < unat (capacity q) \<and> length (qcells q) = unat (capacity q) \<and>
     tail q = of_nat (length ps) \<and> head q = of_nat k \<and>
     k \<le> length ps \<and> length ps \<le> k + unat (capacity q) \<and>
     (\<forall>p. k \<le> p \<and> p < length ps \<longrightarrow> qcells q ! (p mod unat (capacity q)) = ps ! p) \<and>
     index_ok q (length ps)"

lemma index_ok_mono: "index_ok q n \<Longrightarrow> m \<le> n \<Longrightarrow> index_ok q m"
  by (auto simp: index_ok_def)

lemma index_ok_eq: "capacity q' = capacity q \<Longrightarrow> index_ok q' n \<longleftrightarrow> index_ok q n"
  by (simp add: index_ok_def)

lemma slot_of_nat:
  assumes "index_ok q n" "p \<le> n"
  shows "slot_of q (of_nat p) = p mod unat (capacity q)"
proof -
  have "slot_of q (of_nat p) = (p mod 2 ^ 64) mod unat (capacity q)"
    by (simp add: unat_mod_distrib unat_of_nat)
  also have "\<dots> = p mod unat (capacity q)"
    using assms by (auto simp: index_ok_def mod_mod_cancel)
  finally show ?thesis .
qed

lemma unat_index_diff:
  assumes "k \<le> n" "n \<le> k + unat (c :: u64)"
  shows "unat (of_nat n - of_nat k :: u64) = n - k"
proof -
  have "(of_nat n - of_nat k :: u64) = of_nat (n - k)" using assms(1) by simp
  moreover have "n - k < 2 ^ 64"
    by (rule le_less_trans [of _ "unat c"]) (use assms in simp_all)
  ultimately show ?thesis by (simp add: unat_of_nat_u64)
qed

lemma full_iff:
  assumes "k \<le> n" "n \<le> k + unat (c :: u64)"
  shows "c \<le> of_nat n - of_nat k \<longleftrightarrow> n = k + unat c"
  using unat_index_diff [OF assms] assms by (auto simp: word_le_nat_alt)

lemma empty_iff:
  assumes "k \<le> n" "n \<le> k + unat (c :: u64)"
  shows "(of_nat k :: u64) = of_nat n \<longleftrightarrow> k = n"
proof
  assume "(of_nat k :: u64) = of_nat n"
  then have "unat (of_nat n - of_nat k :: u64) = 0" by simp
  with unat_index_diff [OF assms] assms show "k = n" by simp
qed simp

text \<open>The effect of the two memory writes of a push and of the one of a pop on the contents.\<close>

lemma spsc_repr_write:
  assumes "spsc_repr q ps k" "length ps < k + unat (capacity q)"
  shows "spsc_repr (q\<lparr>qcells := (qcells q)[length ps mod unat (capacity q) := x]\<rparr>) ps k"
proof -
  have "p mod unat (capacity q) \<noteq> length ps mod unat (capacity q)" if "k \<le> p" "p < length ps" for p
    using pos_mod_neq [of p "length ps" "unat (capacity q)"] that assms(2) by simp
  then have "\<forall>p. k \<le> p \<and> p < length ps \<longrightarrow>
      (qcells q)[length ps mod unat (capacity q) := x] ! (p mod unat (capacity q)) = qcells q ! (p mod unat (capacity q))"
    by (metis nth_list_update_neq)
  with assms show ?thesis by (simp add: spsc_repr_def index_ok_def)
qed

lemma spsc_repr_publish:
  assumes "spsc_repr q ps k" "length ps < k + unat (capacity q)" "index_ok q (length ps + 1)"
    and "qcells q ! (length ps mod unat (capacity q)) = x"
  shows "spsc_repr (q\<lparr>tail := of_nat (length ps) + 1\<rparr>) (ps @ [x]) k"
  using assms by (auto simp: spsc_repr_def index_ok_def nth_append less_Suc_eq add.commute)

lemma spsc_repr_pop:
  assumes "spsc_repr q ps k" "k < length ps"
  shows "spsc_repr (q\<lparr>head := of_nat k + 1\<rparr>) ps (Suc k)"
  using assms by (auto simp: spsc_repr_def index_ok_def add.commute)

lemma spsc_repr_slots:
  assumes "spsc_repr q ps k"
  shows "slot_of q (tail q) = length ps mod unat (capacity q)" "slot_of q (head q) = k mod unat (capacity q)"
    "k < length ps \<Longrightarrow> qcells q ! (k mod unat (capacity q)) = ps ! k"
  using assms by (auto simp: spsc_repr_def slot_of_nat)

lemma spsc_repr_tests:
  assumes "spsc_repr q ps k"
  shows "capacity q \<le> tail q - head q \<longleftrightarrow> length ps = k + unat (capacity q)"
    "head q = tail q \<longleftrightarrow> k = length ps"
  using assms full_iff [of k "length ps" "capacity q"] empty_iff [of k "length ps" "capacity q"]
  by (auto simp: spsc_repr_def)

lemma TryPush_room:
  assumes "spsc_repr q ps k" "length ps < k + unat (capacity q)" "index_ok q (length ps + 1)"
  shows "fst (TryPush x q) \<and> spsc_repr (snd (TryPush x q)) (ps @ [x]) k"
proof -
  let ?i = "length ps mod unat (capacity q)"
  let ?q = "q\<lparr>qcells := (qcells q)[?i := x]\<rparr>"
  have t: "tail q = of_nat (length ps)" and i: "?i < length (qcells q)" using assms(1) by (auto simp: spsc_repr_def)
  have "spsc_repr (?q\<lparr>tail := of_nat (length ps) + 1\<rparr>) (ps @ [x]) k"
    using spsc_repr_publish [OF spsc_repr_write [OF assms(1,2), of x], of x] assms(2,3) i
    by (simp add: index_ok_def)
  then show ?thesis
    using assms(2) spsc_repr_slots(1) [OF assms(1)] spsc_repr_tests(1) [OF assms(1)] t by (simp add: TryPush_def)
qed

lemma TryPop_some:
  assumes "spsc_repr q ps k" "k < length ps"
  shows "fst (TryPop q) = Some (ps ! k) \<and> spsc_repr (snd (TryPop q)) ps (Suc k)"
  using spsc_repr_pop [OF assms] spsc_repr_tests(2) [OF assms(1)] spsc_repr_slots(2,3) [OF assms(1)] assms
  by (simp add: TryPop_def spsc_repr_def)

interpretation spsc: bounded_fifo spsc_repr index_ok "\<lambda>q. unat (capacity q)" TryPush TryPop
  by unfold_locales
    (fact TryPush_room TryPop_some index_ok_mono
      | simp add: spsc_repr_def; fail
      | simp add: TryPush_def TryPop_def index_ok_def; fail
      | simp add: TryPush_def TryPop_def spsc_repr_tests; fail)+

section \<open>Sequences of operations\<close>

lemma do_ops_ref:
  assumes "spsc_repr q ps k" "index_ok q (length ps + length cs)"
  shows "do_ops cs q = ref_ops (unat (capacity q)) cs (drop k ps)"
  using assms
proof (induction cs arbitrary: q ps k)
  case Nil
  then show ?case by simp
next
  case (Cons c cs)
  show ?case
  proof (cases c)
    case (Push x)
    let ?ps = "if fst (TryPush x q) then ps @ [x] else ps"
    have "index_ok q (length ps + 1)" using Cons.prems(2) by (auto intro: index_ok_mono)
    note step = spsc.push_ref [OF Cons.prems(1) this, of x]
    have "index_ok (snd (TryPush x q)) (length ?ps + length cs)"
      using Cons.prems(2) spsc.push_keeps(2) [of x q] by (auto intro: index_ok_mono)
    from Cons.IH [OF step(2) this] step(1) spsc.push_keeps(1) [of x q]
    have "do_ops cs (snd (TryPush x q)) = ref_ops (unat (capacity q)) cs (drop k ?ps)" by simp
    with step(1) [symmetric] Push show ?thesis by (simp add: split_beta)
  next
    case Pop
    note step = spsc.pop_ref [OF Cons.prems(1)]
    have "index_ok (snd (TryPop q)) (length ps + length cs)"
      using Cons.prems(2) spsc.pop_keeps(2) [of q] by (auto intro: index_ok_mono)
    from Cons.IH [OF step(2) this] spsc.pop_keeps(1) [of q]
    have "do_ops cs (snd (TryPop q)) = ref_ops (unat (capacity q)) cs (drop (if k < length ps then Suc k else k) ps)" by simp
    with step(1) [symmetric] Pop show ?thesis by (simp add: split_beta)
  qed
qed

lemma effective_depth_pos: "0 < unat (effective_depth d)"
  by (simp add: effective_depth_def unat_gt_0)

lemma ctor_capacity: "unat (ucast (effective_depth d) :: u64) = unat (effective_depth d)"
  by (simp add: unsigned_ucast_eq take_bit_nat_eq_self_iff less_trans [OF unsigned_less [of "effective_depth d"]])

lemma ctor_repr: "spsc_repr (SpscQueue_ctor dflt depth True placed) [] 0"
  using effective_depth_pos [of depth] by (simp add: spsc_repr_def SpscQueue_ctor_def ctor_capacity index_ok_def)

section \<open>Properties\<close>

text \<open>Property C9. A queue constructed with depth \<open>d\<close> answers every sequence of pushes and pops as
  a FIFO list of at most \<open>max(d, 1)\<close> elements does: pushes fail exactly when it is full, pops
  return the oldest element. The 64-bit indices count \<open>2 ^ 64\<close> pushes; when the capacity divides
  \<open>2 ^ 64\<close> they may wrap and the statement has no bound.\<close>

theorem spsc_refines_fifo:
  assumes "length cs < 2 ^ 64 \<or> unat (effective_depth depth) dvd 2 ^ 64"
  shows "do_ops cs (SpscQueue_ctor dflt depth True placed) = ref_ops (unat (effective_depth depth)) cs []"
  using do_ops_ref [OF ctor_repr [of dflt depth placed], of cs] assms
  by (simp add: index_ok_def SpscQueue_ctor_def ctor_capacity)

theorem spsc_refines_fifo_witness:
  "do_ops [Push 1, Push 2, Push (3::nat), Pop, Pop, Pop] (SpscQueue_ctor 0 2 True \<lparr>capacity = 9, head = 7, tail = 1, qcells = []\<rparr>)
    = [Pushed True, Pushed True, Pushed False, Popped (Some 1), Popped (Some 2), Popped None]"
  using spsc_refines_fifo [of "[Push 1, Push 2, Push (3::nat), Pop, Pop, Pop]" 2 0 "\<lparr>capacity = 9, head = 7, tail = 1, qcells = []\<rparr>"]
  by (simp add: effective_depth_def)

text \<open>\<open>Full\<close> is exact for the producer: it answers the fate of the next push, a
  negative answer stays valid however many pops the consumer makes in between, and \<open>Size\<close> is the
  number of stored elements.\<close>

theorem full_exact_for_producer:
  assumes "spsc_repr q ps k" "index_ok q (length ps + 1)"
  shows "Full q = (\<not> fst (TryPush x q)) \<and>
    (\<not> Full q \<longrightarrow> fst (TryPush x (((\<lambda>q. snd (TryPop q)) ^^ n) q))) \<and>
    (length ps < 2 ^ 64 \<longrightarrow> unat (Size q) = length ps - k)"
proof (intro conjI impI)
  show "Full q = (\<not> fst (TryPush x q))" by (simp add: Full_def TryPush_def)
  have "spsc_repr (((\<lambda>q. snd (TryPop q)) ^^ n) q) ps (min (length ps) (k + n)) \<and>
      capacity (((\<lambda>q. snd (TryPop q)) ^^ n) q) = capacity q"
  proof (induction n)
    case 0
    then show ?case using assms(1) by (simp add: spsc_repr_def)
  next
    case (Suc n)
    let ?q = "((\<lambda>q. snd (TryPop q)) ^^ n) q" and ?m = "min (length ps) (k + n)"
    have "(if ?m < length ps then Suc ?m else ?m) = min (length ps) (k + Suc n)" by auto
    moreover have "capacity (snd (TryPop ?q)) = capacity ?q" by (simp add: TryPop_def)
    ultimately show ?case using spsc.pop_ref(2) [of ?q ps ?m] Suc by simp
  qed
  then have R: "spsc_repr (((\<lambda>q. snd (TryPop q)) ^^ n) q) ps (min (length ps) (k + n))"
    and c: "capacity (((\<lambda>q. snd (TryPop q)) ^^ n) q) = capacity q" by simp_all
  show "fst (TryPush x (((\<lambda>q. snd (TryPop q)) ^^ n) q))" if "\<not> Full q"
  proof -
    have "length ps < k + unat (capacity q)" "0 < unat (capacity q)"
      using that spsc_repr_tests(1) [OF assms(1)] assms(1) by (auto simp: Full_def spsc_repr_def)
    then have "length ps < min (length ps) (k + n) + unat (capacity (((\<lambda>q. snd (TryPop q)) ^^ n) q))"
      using c by (simp add: min_def)
    moreover have "index_ok (((\<lambda>q. snd (TryPop q)) ^^ n) q) (length ps + 1)"
      using assms(2) c by (simp only: index_ok_def)
    ultimately show ?thesis using TryPush_room [OF R] by blast
  qed
  show "unat (Size q) = length ps - k" if "length ps < 2 ^ 64"
  proof -
    have le: "k \<le> length ps" "length ps \<le> k + unat (capacity q)" and ht: "head q = of_nat k" "tail q = of_nat (length ps)"
      using assms(1) by (auto simp: spsc_repr_def)
    have "head q \<le> tail q" using that le(1) ht by (simp add: word_le_nat_alt unat_of_nat_u64)
    then show ?thesis using unat_index_diff [OF le] ht by (simp add: Size_def)
  qed
qed

theorem full_exact_for_producer_witness:
  "Full (snd (TryPush (7::nat) (SpscQueue_ctor 0 1 True \<lparr>capacity = 0, head = 0, tail = 0, qcells = []\<rparr>))) =
   (\<not> fst (TryPush 8 (snd (TryPush (7::nat) (SpscQueue_ctor 0 1 True \<lparr>capacity = 0, head = 0, tail = 0, qcells = []\<rparr>)))))"
proof -
  let ?q = "SpscQueue_ctor 0 1 True \<lparr>capacity = 0, head = 0, tail = 0, qcells = []\<rparr> :: nat Spsc"
  have "spsc_repr (snd (TryPush 7 ?q)) ([] @ [7]) 0" "index_ok (snd (TryPush 7 ?q)) (length ([] @ [7::nat]) + 1)"
    using TryPush_room [OF ctor_repr [of 0 1 "\<lparr>capacity = 0, head = 0, tail = 0, qcells = []\<rparr>"], of "7::nat"]
    by (simp_all add: SpscQueue_ctor_def effective_depth_def index_ok_def)
  from full_exact_for_producer [OF this, of 8 0] show ?thesis by simp
qed

end
