(* ===== verification/Spsc_Conc.thy ===== *)
theory Spsc_Conc
  imports Spsc_Queue
begin

text \<open>
  One producer thread running \<open>TryPush\<close> and one consumer thread running \<open>TryPop\<close> on the same
  \<open>SpscQueue\<close>, interleaved one shared-memory access at a time under sequential consistency (the
  acquire/release pairs Q1 to Q4 of \<open>concurrency/spsc_queue.hpp\<close> order the plain cell accesses).
  The ghost lists \<open>pushed\<close> and \<open>popped\<close> record what took effect.
\<close>

section \<open>Threads\<close>

datatype 'a ppc = PIdle | PCap 'a | PTail 'a u64 | PHead 'a u64 u64 | PCell 'a u64 u64 | PPub 'a u64 u64 | PDone bool

datatype 'a cpc = CIdle | CCap | CHead u64 | CTail u64 u64 | CCell u64 u64 | CPub 'a u64 u64 | CDone "'a option"

record 'a duo =
  queue :: "'a Spsc"
  prod :: "'a ppc"
  cons :: "'a cpc"
  pushed :: "'a list"
  popped :: "'a list"

text \<open>\<open>TryPush\<close>, access by access: capacity, tail, head, the cell, the published tail.\<close>

fun producer_step :: "'a duo \<Rightarrow> 'a duo" where
  "producer_step s =
     (let q = queue s in
      case prod s of
        PCap v \<Rightarrow> s\<lparr>prod := PTail v (capacity q)\<rparr>
      | PTail v c \<Rightarrow> s\<lparr>prod := PHead v c (tail q)\<rparr>
      | PHead v c t \<Rightarrow> s\<lparr>prod := (if c \<le> t - head q then PDone False else PCell v c t)\<rparr>
      | PCell v c t \<Rightarrow> s\<lparr>queue := q\<lparr>qcells := (qcells q)[unat (t mod c) := v]\<rparr>, prod := PPub v c t\<rparr>
      | PPub v c t \<Rightarrow> s\<lparr>queue := q\<lparr>tail := t + 1\<rparr>, prod := PDone True, pushed := pushed s @ [v]\<rparr>
      | PIdle \<Rightarrow> s
      | PDone _ \<Rightarrow> s)"

text \<open>\<open>TryPop\<close>, access by access: capacity, head, tail, the cell, the published head.\<close>

fun consumer_step :: "'a duo \<Rightarrow> 'a duo" where
  "consumer_step s =
     (let q = queue s in
      case cons s of
        CCap \<Rightarrow> s\<lparr>cons := CHead (capacity q)\<rparr>
      | CHead c \<Rightarrow> s\<lparr>cons := CTail c (head q)\<rparr>
      | CTail c h \<Rightarrow> s\<lparr>cons := (if h = tail q then CDone None else CCell c h)\<rparr>
      | CCell c h \<Rightarrow> s\<lparr>cons := CPub (qcells q ! unat (h mod c)) c h\<rparr>
      | CPub v c h \<Rightarrow> s\<lparr>queue := q\<lparr>head := h + 1\<rparr>, cons := CDone (Some v), popped := popped s @ [v]\<rparr>
      | CIdle \<Rightarrow> s
      | CDone _ \<Rightarrow> s)"

declare producer_step.simps [simp del] consumer_step.simps [simp del]

definition p_free :: "'a duo \<Rightarrow> bool" where
  "p_free s = (case prod s of PIdle \<Rightarrow> True | PDone _ \<Rightarrow> True | _ \<Rightarrow> False)"

definition c_free :: "'a duo \<Rightarrow> bool" where
  "c_free s = (case cons s of CIdle \<Rightarrow> True | CDone _ \<Rightarrow> True | _ \<Rightarrow> False)"

datatype 'a act = BeginPush 'a | PStep | BeginPop | CStep

fun duo_act :: "'a act \<Rightarrow> 'a duo \<Rightarrow> 'a duo" where
  "duo_act (BeginPush v) s = (if p_free s then s\<lparr>prod := PCap v\<rparr> else s)"
| "duo_act PStep s = producer_step s"
| "duo_act BeginPop s = (if c_free s then s\<lparr>cons := CCap\<rparr> else s)"
| "duo_act CStep s = consumer_step s"

definition duo_step :: "'a duo \<Rightarrow> 'a duo \<Rightarrow> bool" where
  "duo_step s t \<longleftrightarrow> (\<exists>a. t = duo_act a s)"

definition duo_start :: "'a \<Rightarrow> u32 \<Rightarrow> 'a Spsc \<Rightarrow> 'a duo" where
  "duo_start dflt depth placed =
     \<lparr>queue = SpscQueue_ctor dflt depth True placed, prod = PIdle, cons = CIdle, pushed = [], popped = []\<rparr>"

definition duo_init :: "'a duo \<Rightarrow> bool" where
  "duo_init s \<longleftrightarrow> (\<exists>dflt depth placed. s = duo_start dflt depth placed)"

definition duo_fits :: "'a duo \<Rightarrow> bool" where
  "duo_fits s \<longleftrightarrow> index_ok (queue s) (length (pushed s))"

section \<open>Invariant\<close>

abbreviation cap_nat :: "'a duo \<Rightarrow> nat" where
  "cap_nat s \<equiv> unat (capacity (queue s))"

definition p_inv :: "'a duo \<Rightarrow> bool" where
  "p_inv s \<longleftrightarrow>
     (case prod s of
        PTail v c \<Rightarrow> c = capacity (queue s)
      | PHead v c t \<Rightarrow> c = capacity (queue s) \<and> t = tail (queue s)
      | PCell v c t \<Rightarrow> c = capacity (queue s) \<and> t = tail (queue s) \<and> length (pushed s) < length (popped s) + cap_nat s
      | PPub v c t \<Rightarrow> c = capacity (queue s) \<and> t = tail (queue s) \<and> length (pushed s) < length (popped s) + cap_nat s
          \<and> qcells (queue s) ! (length (pushed s) mod cap_nat s) = v
      | _ \<Rightarrow> True)"

definition c_inv :: "'a duo \<Rightarrow> bool" where
  "c_inv s \<longleftrightarrow>
     (case cons s of
        CHead c \<Rightarrow> c = capacity (queue s)
      | CTail c h \<Rightarrow> c = capacity (queue s) \<and> h = head (queue s)
      | CCell c h \<Rightarrow> c = capacity (queue s) \<and> h = head (queue s) \<and> length (popped s) < length (pushed s)
      | CPub v c h \<Rightarrow> c = capacity (queue s) \<and> h = head (queue s) \<and> length (popped s) < length (pushed s)
          \<and> v = pushed s ! length (popped s)
      | _ \<Rightarrow> True)"

definition duo_inv :: "'a duo \<Rightarrow> bool" where
  "duo_inv s \<longleftrightarrow> spsc_repr (queue s) (pushed s) (length (popped s)) \<and>
     take (length (popped s)) (pushed s) = popped s \<and> p_inv s \<and> c_inv s"

lemma duo_init_inv: "duo_init s \<Longrightarrow> duo_inv s"
  by (auto simp: duo_init_def duo_start_def duo_inv_def p_inv_def c_inv_def ctor_repr)

lemma duo_fits_back:
  assumes "duo_step s t" "duo_fits t" shows "duo_fits s"
proof -
  obtain a where t: "t = duo_act a s" using assms(1) by (auto simp: duo_step_def)
  have "capacity (queue t) = capacity (queue s)" "length (pushed s) \<le> length (pushed t)"
    unfolding t
    by (cases a; cases "prod s"; cases "cons s"; simp add: producer_step.simps consumer_step.simps Let_def)+
  with assms(2) show ?thesis unfolding duo_fits_def by (metis index_ok_eq index_ok_mono)
qed

text \<open>The consumer's accesses keep what the producer relies on, and conversely.\<close>

lemma producer_inv:
  assumes "duo_inv s" "duo_fits (producer_step s)"
  shows "duo_inv (producer_step s)"
proof -
  let ?q = "queue s" and ?P = "length (pushed s)" and ?k = "length (popped s)"
  have R: "spsc_repr ?q (pushed s) ?k" and pop: "take ?k (pushed s) = popped s" and P: "p_inv s" and C: "c_inv s"
    using assms(1) by (auto simp: duo_inv_def)
  have t: "tail ?q = of_nat ?P" and k: "?k \<le> ?P" and len: "length (qcells ?q) = cap_nat s" "0 < cap_nat s"
    using R by (auto simp: spsc_repr_def)
  note slot = spsc_repr_slots(1) [OF R]
  note d = producer_step.simps Let_def duo_inv_def p_inv_def c_inv_def
  show ?thesis
  proof (cases "prod s")
    case (PHead v c tl)
    then show ?thesis using R pop P C spsc_repr_tests(1) [OF R] k
      by (auto simp: d split: cpc.splits intro!: le_neq_implies_less simp: spsc_repr_def)
  next
    case (PCell v c tl)
    then have room: "?P < ?k + cap_nat s" "tl = tail ?q" "c = capacity ?q" using P by (auto simp: p_inv_def)
    with spsc_repr_write [OF R room(1), of v] pop C slot PCell len show ?thesis
      by (auto simp: d split: cpc.splits)
  next
    case (PPub v c tl)
    then have room: "?P < ?k + cap_nat s" "tl = tail ?q" "c = capacity ?q"
        "qcells ?q ! (?P mod cap_nat s) = v" using P by (auto simp: p_inv_def)
    moreover have "index_ok ?q (?P + 1)" using assms(2) PPub by (simp add: duo_fits_def producer_step.simps index_ok_def)
    ultimately have "spsc_repr (?q\<lparr>tail := tl + 1\<rparr>) (pushed s @ [v]) ?k"
      using spsc_repr_publish [OF R] t by simp
    moreover have "take ?k (pushed s @ [v]) = popped s" using pop k by simp
    ultimately show ?thesis using C PPub k
      by (auto simp: d nth_append split: cpc.splits)
  qed (use R pop P C in \<open>auto simp: d split: cpc.splits\<close>)
qed

lemma consumer_inv:
  assumes "duo_inv s"
  shows "duo_inv (consumer_step s)"
proof -
  let ?q = "queue s" and ?P = "length (pushed s)" and ?k = "length (popped s)"
  have R: "spsc_repr ?q (pushed s) ?k" and pop: "take ?k (pushed s) = popped s" and P: "p_inv s" and C: "c_inv s"
    using assms by (auto simp: duo_inv_def)
  have h: "head ?q = of_nat ?k" and k: "?k \<le> ?P" using R by (auto simp: spsc_repr_def)
  note d = consumer_step.simps Let_def duo_inv_def p_inv_def c_inv_def
  show ?thesis
  proof (cases "cons s")
    case (CTail c hd)
    then show ?thesis using R pop P C spsc_repr_tests(2) [OF R] k
      by (auto simp: d split: ppc.splits intro!: le_neq_implies_less)
  next
    case (CCell c hd)
    then show ?thesis using R pop P C spsc_repr_slots(2,3) [OF R]
      by (auto simp: d split: ppc.splits)
  next
    case (CPub v c hd)
    then have r: "?k < ?P" "hd = head ?q" "c = capacity ?q" "v = pushed s ! ?k" using C by (auto simp: c_inv_def)
    then have "spsc_repr (?q\<lparr>head := hd + 1\<rparr>) (pushed s) (Suc ?k)" using spsc_repr_pop [OF R] h by simp
    moreover have "take (Suc ?k) (pushed s) = popped s @ [v]" using pop r by (simp add: take_Suc_conv_app_nth)
    ultimately show ?thesis using P CPub by (auto simp: d split: ppc.splits)
  qed (use R pop P C in \<open>auto simp: d split: ppc.splits\<close>)
qed

lemma duo_step_inv:
  assumes "duo_step s t" "duo_inv s" "duo_fits t" shows "duo_inv t"
proof -
  obtain a where t: "t = duo_act a s" using assms(1) by (auto simp: duo_step_def)
  show ?thesis
  proof (cases a)
    case (BeginPush v)
    with assms(2) t show ?thesis by (simp add: duo_inv_def p_inv_def c_inv_def split: cpc.splits)
  next
    case PStep
    with producer_inv [OF assms(2)] assms(3) t show ?thesis by simp
  next
    case BeginPop
    with assms(2) t show ?thesis by (simp add: duo_inv_def p_inv_def c_inv_def split: ppc.splits)
  next
    case CStep
    with consumer_inv [OF assms(2)] t show ?thesis by simp
  qed
qed

interpretation duo: inductive_invariant duo_init duo_step duo_fits duo_inv
  by unfold_locales (fact duo_init_inv duo_fits_back duo_step_inv)+

definition duo_run :: "'a act list \<Rightarrow> 'a duo \<Rightarrow> 'a duo" where
  "duo_run acts s = fold duo_act acts s"

lemma duo_run_reach: "reach duo_init duo_step s \<Longrightarrow> reach duo_init duo_step (duo_run acts s)"
  unfolding duo_run_def
proof (induction acts arbitrary: s)
  case (Cons a acts)
  then have "reach duo_init duo_step (duo_act a s)" by (blast intro: reach_step duo_step_def [THEN iffD2])
  with Cons.IH show ?case by simp
qed simp

section \<open>Properties\<close>

lemma duo_start_reach: "reach duo_init duo_step (duo_start dflt depth placed)"
  by (rule reach_init) (auto simp: duo_init_def)

text \<open>The accesses a call still has to make; only the thread's own steps change it.\<close>

fun p_left :: "'a ppc \<Rightarrow> nat" where
  "p_left (PCap _) = 5"
| "p_left (PTail _ _) = 4"
| "p_left (PHead _ _ _) = 3"
| "p_left (PCell _ _ _) = 2"
| "p_left (PPub _ _ _) = 1"
| "p_left _ = 0"

fun c_left :: "'a cpc \<Rightarrow> nat" where
  "c_left CCap = 5"
| "c_left (CHead _) = 4"
| "c_left (CTail _ _) = 3"
| "c_left (CCell _ _) = 2"
| "c_left (CPub _ _ _) = 1"
| "c_left _ = 0"

lemma p_left_act:
  assumes "\<forall>v. a \<noteq> BeginPush v"
  shows "p_left (prod (duo_act a s)) \<le> p_left (prod s) - (if a = PStep then 1 else 0)"
    "prod s \<noteq> PIdle \<Longrightarrow> prod (duo_act a s) \<noteq> PIdle"
  using assms
  by (cases a; cases "prod s"; cases "cons s"; simp add: producer_step.simps consumer_step.simps Let_def)+

lemma c_left_act:
  assumes "a \<noteq> BeginPop"
  shows "c_left (cons (duo_act a s)) \<le> c_left (cons s) - (if a = CStep then 1 else 0)"
    "cons s \<noteq> CIdle \<Longrightarrow> cons (duo_act a s) \<noteq> CIdle"
  using assms
  by (cases a; cases "prod s"; cases "cons s"; simp add: producer_step.simps consumer_step.simps Let_def)+

lemma push_returns:
  assumes "\<forall>v. BeginPush v \<notin> set acts" "p_left (prod s) \<le> count_list acts PStep" "prod s \<noteq> PIdle"
  shows "\<exists>b. prod (duo_run acts s) = PDone b"
  using assms
proof (induction acts arbitrary: s)
  case Nil
  then show ?case by (cases "prod s") (auto simp: duo_run_def)
next
  case (Cons a acts)
  then have "\<forall>v. a \<noteq> BeginPush v" by auto
  from p_left_act [OF this, of s] Cons show ?case by (auto simp: duo_run_def split: if_splits)
qed

lemma pop_returns:
  assumes "BeginPop \<notin> set acts" "c_left (cons s) \<le> count_list acts CStep" "cons s \<noteq> CIdle"
  shows "\<exists>r. cons (duo_run acts s) = CDone r"
  using assms
proof (induction acts arbitrary: s)
  case Nil
  then show ?case by (cases "cons s") (auto simp: duo_run_def)
next
  case (Cons a acts)
  then have "a \<noteq> BeginPop" by auto
  from c_left_act [OF this, of s] Cons show ?case by (auto simp: duo_run_def split: if_splits)
qed

definition race_trace :: "nat act list" where
  "race_trace = BeginPush 7 # replicate 5 PStep @ [BeginPop, CStep, CStep, CStep, BeginPush 8, PStep, PStep, PStep]"

abbreviation race_state :: "nat duo" where
  "race_state \<equiv> duo_run race_trace (duo_start 0 2 \<lparr>capacity = 0, head = 0, tail = 0, qcells = []\<rparr>)"

lemma race_state_reach: "reach duo_init duo_step race_state"
  by (intro duo_run_reach duo_start_reach)

lemma race_state_fits: "duo_fits race_state"
proof -
  have "length (pushed race_state) = 1" by code_simp
  then show ?thesis by (simp add: duo_fits_def index_ok_def)
qed

text \<open>Property C8. No data race on the cells: in every reachable state in which the producer is
  about to write a cell and the consumer is about to read one, the two cells are different and
  both lie inside the array. (The indices have not wrapped, or the capacity divides
  \<open>2 ^ 64\<close>.)\<close>

theorem spsc_no_data_race:
  assumes "reach duo_init duo_step s" "duo_fits s" "prod s = PCell v c t" "cons s = CCell c' h"
  shows "unat (t mod c) \<noteq> unat (h mod c') \<and> unat (t mod c) < length (qcells (queue s)) \<and>
    unat (h mod c') < length (qcells (queue s))"
proof -
  have inv: "duo_inv s" using duo.reach_inv [OF assms(1,2)] .
  then have R: "spsc_repr (queue s) (pushed s) (length (popped s))"
    and b: "length (popped s) < length (pushed s)" "length (pushed s) < length (popped s) + cap_nat s"
    and e: "c = capacity (queue s)" "t = tail (queue s)" "c' = capacity (queue s)" "h = head (queue s)"
    using assms(3,4) by (auto simp: duo_inv_def p_inv_def c_inv_def)
  show ?thesis
    using spsc_repr_slots(1,2) [OF R] pos_mod_neq [OF b] R e by (auto simp: spsc_repr_def)
qed

theorem spsc_no_data_race_witness:
  "prod race_state = PCell 8 2 1 \<and> cons race_state = CCell 2 0 \<and> unat ((1::u64) mod 2) \<noteq> unat ((0::u64) mod 2)"
proof -
  have "prod race_state = PCell 8 2 1" "cons race_state = CCell 2 0" by code_simp+
  with spsc_no_data_race [OF race_state_reach race_state_fits this] show ?thesis by simp
qed

text \<open>Property C7. Under every interleaving the queue is a FIFO that neither loses, duplicates nor
  reorders: what was popped is a prefix of what was pushed, the elements in between are the ones
  stored, and never more than the capacity.\<close>

theorem spsc_fifo_order:
  assumes "reach duo_init duo_step s" "duo_fits s"
  shows "pushed s = popped s @ map (\<lambda>p. qcells (queue s) ! (p mod cap_nat s)) [length (popped s)..<length (pushed s)]
    \<and> length (pushed s) \<le> length (popped s) + cap_nat s"
proof -
  have inv: "duo_inv s" using duo.reach_inv [OF assms] .
  then have R: "spsc_repr (queue s) (pushed s) (length (popped s))"
    and t: "take (length (popped s)) (pushed s) = popped s" by (auto simp: duo_inv_def)
  have "map (\<lambda>p. qcells (queue s) ! (p mod cap_nat s)) [length (popped s)..<length (pushed s)]
      = map ((!) (pushed s)) [length (popped s)..<length (pushed s)]"
    using R by (auto simp: spsc_repr_def)
  also have "\<dots> = drop (length (popped s)) (pushed s)" by (auto intro: nth_equalityI)
  finally show ?thesis using t R by (metis append_take_drop_id spsc_repr_def)
qed

theorem spsc_fifo_order_witness:
  "pushed race_state = popped race_state @
     map (\<lambda>p. qcells (queue race_state) ! (p mod cap_nat race_state)) [length (popped race_state)..<length (pushed race_state)]"
  using spsc_fifo_order [OF race_state_reach race_state_fits] by simp

text \<open>The refusals are genuine: when the producer's read of the head makes \<open>TryPush\<close>
  report full, all \<open>capacity\<close> cells hold unread elements at that moment, and when the consumer's
  read of the tail makes \<open>TryPop\<close> report empty, everything pushed has been popped.\<close>

theorem spsc_refusals_genuine:
  assumes "reach duo_init duo_step s" "duo_fits s"
  shows "(prod s = PHead v c t \<and> prod (producer_step s) = PDone False \<longrightarrow>
      length (pushed s) = length (popped s) + cap_nat s) \<and>
    (cons s = CTail c h \<and> cons (consumer_step s) = CDone None \<longrightarrow> popped s = pushed s)"
proof (intro conjI impI)
  have inv: "duo_inv s" using duo.reach_inv [OF assms] .
  then have R: "spsc_repr (queue s) (pushed s) (length (popped s))"
    and tk: "take (length (popped s)) (pushed s) = popped s" and P: "p_inv s" and C: "c_inv s"
    by (auto simp: duo_inv_def)
  show "length (pushed s) = length (popped s) + cap_nat s"
    if "prod s = PHead v c t \<and> prod (producer_step s) = PDone False"
    using that P spsc_repr_tests(1) [OF R]
    by (auto simp: p_inv_def producer_step.simps Let_def split: if_splits)
  show "popped s = pushed s" if "cons s = CTail c h \<and> cons (consumer_step s) = CDone None"
    using that C spsc_repr_tests(2) [OF R] tk
    by (auto simp: c_inv_def consumer_step.simps Let_def split: if_splits)
qed

theorem spsc_refusals_genuine_witness:
  "(let s = duo_start (0::nat) 2 \<lparr>capacity = 0, head = 0, tail = 0, qcells = []\<rparr>; t = duo_run [BeginPop, CStep, CStep] s in
     cons t = CTail 2 0 \<and> cons (consumer_step t) = CDone None \<and> popped t = pushed t)"
proof -
  let ?t = "duo_run [BeginPop, CStep, CStep] (duo_start (0::nat) 2 \<lparr>capacity = 0, head = 0, tail = 0, qcells = []\<rparr>)"
  have r: "reach duo_init duo_step ?t" by (intro duo_run_reach duo_start_reach)
  have c: "cons ?t = CTail 2 0" "cons (consumer_step ?t) = CDone None" "pushed ?t = []" by code_simp+
  then have f: "duo_fits ?t" by (simp add: duo_fits_def index_ok_def)
  from spsc_refusals_genuine [OF r f] c show ?thesis by (simp add: Let_def)
qed

text \<open>Both verbs are wait-free: a call that has begun returns once its own thread has
  made five accesses, whatever the other thread does in between.\<close>

theorem spsc_wait_free:
  "(prod s = PCap v \<and> (\<forall>w. BeginPush w \<notin> set acts) \<and> 5 \<le> count_list acts PStep \<longrightarrow>
      (\<exists>b. prod (duo_run acts s) = PDone b)) \<and>
   (cons s = CCap \<and> BeginPop \<notin> set acts \<and> 5 \<le> count_list acts CStep \<longrightarrow>
      (\<exists>r. cons (duo_run acts s) = CDone r))"
  using push_returns [of acts s] pop_returns [of acts s] by auto

theorem spsc_wait_free_witness:
  "\<exists>r. cons (duo_run [CStep, BeginPush 3, CStep, PStep, CStep, PStep, CStep, PStep, CStep]
     ((duo_start (0::nat) 2 \<lparr>capacity = 0, head = 0, tail = 0, qcells = []\<rparr>)\<lparr>cons := CCap\<rparr>)) = CDone r"
  using spsc_wait_free [of "(duo_start (0::nat) 2 \<lparr>capacity = 0, head = 0, tail = 0, qcells = []\<rparr>)\<lparr>cons := CCap\<rparr>"
      _ "[CStep, BeginPush 3, CStep, PStep, CStep, PStep, CStep, PStep, CStep]"] by simp

end
