(* ===== verification/Storage.thy ===== *)
theory Storage
  imports Seqlock_Ring
begin

text \<open>
  The storage policies of \<open>concurrency/storage.hpp\<close>: \<open>HeapStorage\<close> and the bump allocator
  \<open>RegionStorage\<close> over a byte region. A placed type \<open>U\<close> is known by its alignment and by the
  bytes that value-initialization gives an object (its length is \<open>sizeof(U)\<close>). The debug
  assertion of \<open>Carve\<close> is an error value; \<open>size_t\<close> arithmetic is 64-bit and wraps.
\<close>

section \<open>RegionStorage\<close>

record Placed =
  alignof :: u64
  image :: "u8 list"

record Region =
  memory :: "u8 list"
  region_size :: u64
  cursor :: u64
  initialize :: bool

datatype storage_error = Overrun

definition RegionStorage_ctor :: "u8 list \<Rightarrow> u64 \<Rightarrow> bool \<Rightarrow> Region" where
  "RegionStorage_ctor base bytes init = \<lparr>memory = base, region_size = bytes, cursor = 0, initialize = init\<rparr>"

definition Region_Initialize :: "Region \<Rightarrow> bool" where
  "Region_Initialize s = initialize s"

definition used :: "Region \<Rightarrow> u64" where
  "used s = cursor s"

definition carve_align :: "Placed \<Rightarrow> u64" where
  "carve_align u = (if alignof u < 64 then 64 else alignof u)"

definition round_up :: "u64 \<Rightarrow> u64 \<Rightarrow> u64" where
  "round_up c align = (c + align - 1) AND NOT (align - 1)"

text \<open>The placement-new loop: object \<open>i\<close> goes to \<open>at + i * sizeof(U)\<close>.\<close>

fun place_from :: "nat \<Rightarrow> nat \<Rightarrow> nat \<Rightarrow> u8 list \<Rightarrow> u8 list \<Rightarrow> u8 list" where
  "place_from 0 i at img mem = mem"
| "place_from (Suc n) i at img mem = place_from n (Suc i) at img (overwrite (at + i * length img) img mem)"

text \<open>\<open>base_\<close> is the origin of the offsets: an object is aligned in memory when the base of its region is, which the caller
  provides. A carve past the end stops at the assertion; what a build without assertions would go on to do there is not
  modelled.\<close>

definition Carve :: "Placed \<Rightarrow> u64 \<Rightarrow> Region \<Rightarrow> storage_error + u64 \<times> Region" where
  "Carve u count s =
     (let at = round_up (cursor s) (carve_align u);
          s1 = s\<lparr>cursor := at + of_nat (length (image u)) * count\<rparr>
      in if \<not> cursor s1 \<le> region_size s then Inl Overrun
         else if initialize s
         then Inr (at, s1\<lparr>memory := place_from (unat count) 0 (unat at) (image u) (memory s)\<rparr>)
         else Inr (at, s1))"

definition Region_MakeSingle :: "Placed \<Rightarrow> Region \<Rightarrow> storage_error + u64 \<times> Region" where
  "Region_MakeSingle u s = Carve u 1 s"

definition Region_MakeArray :: "Placed \<Rightarrow> u64 \<Rightarrow> Region \<Rightarrow> storage_error + u64 \<times> Region" where
  "Region_MakeArray u count s = Carve u count s"

section \<open>HeapStorage\<close>

text \<open>The heap is the list of blocks handed out; a handle is the number of its block.\<close>

type_synonym Heap = "u8 list list"

definition Heap_MakeArray :: "Placed \<Rightarrow> u64 \<Rightarrow> Heap \<Rightarrow> nat \<times> Heap" where
  "Heap_MakeArray u count h = (length h, h @ [concat (replicate (unat count) (image u))])"

definition Heap_MakeSingle :: "Placed \<Rightarrow> Heap \<Rightarrow> nat \<times> Heap" where
  "Heap_MakeSingle u h = (length h, h @ [image u])"

definition Heap_Initialize :: bool where
  "Heap_Initialize = True"

section \<open>The policy contract\<close>

text \<open>
  What the algorithms rely on: under an initializing policy the cells they receive hold the
  value-initialized image, and later carves do not disturb earlier ones.
\<close>

locale storage_policy =
  fixes make :: "Placed \<Rightarrow> u64 \<Rightarrow> 's \<Rightarrow> ('h \<times> 's) option"
    and fits :: "Placed \<Rightarrow> u64 \<Rightarrow> 's \<Rightarrow> bool"
    and view :: "'s \<Rightarrow> 'h \<Rightarrow> nat \<Rightarrow> u8 list"
  assumes make_view: "make u n s = Some (h, t) \<Longrightarrow> fits u n s \<Longrightarrow>
      view t h (unat n * length (image u)) = concat (replicate (unat n) (image u))"
    and make_frame: "make u n s = Some (h, t) \<Longrightarrow> fits u n s \<Longrightarrow> make v m t = Some (g, t') \<Longrightarrow> fits v m t \<Longrightarrow>
      view t' h (unat n * length (image u)) = view t h (unat n * length (image u))"
begin

text \<open>An object made of an array and then a single, as both cores construct themselves.\<close>

lemma two_carves:
  assumes "make u n s = Some (h, t)" "fits u n s" "make v m t = Some (g, t')" "fits v m t"
  shows "view t' h (unat n * length (image u)) = concat (replicate (unat n) (image u))"
    "view t' g (unat m * length (image v)) = concat (replicate (unat m) (image v))"
  using make_view [OF assms(1,2)] make_view [OF assms(3,4)] make_frame [OF assms] by simp_all

end

section \<open>Placement\<close>

lemma place_from_eq:
  assumes "at + (i + n) * length img \<le> length mem"
  shows "place_from n i at img mem = overwrite (at + i * length img) (concat (replicate n img)) mem"
  using assms
proof (induction n arbitrary: i mem)
  case 0
  then show ?case by (simp add: overwrite_def)
next
  case (Suc n)
  let ?a = "at + i * length img"
  have b: "?a + length img + n * length img \<le> length mem" using Suc.prems by (simp add: algebra_simps)
  have "place_from (Suc n) i at img mem =
      overwrite (at + Suc i * length img) (concat (replicate n img)) (overwrite ?a img mem)"
    using Suc b by (simp add: algebra_simps)
  also have "\<dots> = overwrite (?a + length img) (concat (replicate n img)) (overwrite ?a img mem)"
    by (simp add: algebra_simps)
  also have "\<dots> = overwrite ?a (img @ concat (replicate n img)) mem"
    using b by (intro overwrite_append) (simp add: length_concat sum_list_replicate)
  finally show ?case by simp
qed

section \<open>Rounding to an alignment\<close>

lemma and_not_mask: "(x :: u64) AND NOT (2 ^ k - 1) = push_bit k (drop_bit k x)"
proof -
  have "(2 ^ k - 1 :: u64) = mask k" by (simp add: mask_eq_exp_minus_1)
  then show ?thesis by (auto intro!: bit_word_eqI simp: bit_simps)
qed

lemma round_up_unat:
  assumes "k < 64" "unat c + 2 ^ k \<le> 2 ^ 64"
  shows "unat (round_up c (2 ^ k)) = (unat c + (2 ^ k - 1)) div 2 ^ k * 2 ^ k"
proof -
  have p: "unat (2 ^ k - 1 :: u64) = 2 ^ k - 1"
    using assms(1) by (intro unat_pred) (simp_all add: unat_exp_u64)
  have s: "unat (c + (2 ^ k - 1)) = unat c + (2 ^ k - 1)"
    using assms(2) one_le_power [of "2 :: nat" k] by (subst unat_plus_nowrap) (simp_all add: p)
  let ?x = "c + (2 ^ k - 1)"
  have le: "unat ?x div 2 ^ k * 2 ^ k < 2 ^ 64"
    by (rule le_less_trans [OF div_times_less_eq_dividend]) simp
  have q: "unat (?x div 2 ^ k) = unat ?x div 2 ^ k" using assms(1) by (simp add: unat_div unat_exp_u64)
  have "round_up c (2 ^ k) = ?x div 2 ^ k * 2 ^ k"
    unfolding round_up_def by (simp add: and_not_mask add_diff_eq push_bit_eq_mult drop_bit_eq_div)
  then have "unat (round_up c (2 ^ k)) = unat (?x div 2 ^ k) * unat (2 ^ k :: u64)"
    using le assms(1) by (simp only:) (intro unat_times_nowrap, simp add: q unat_exp_u64)
  also have "\<dots> = unat ?x div 2 ^ k * 2 ^ k" using assms(1) by (simp add: q unat_exp_u64)
  finally show ?thesis unfolding s .
qed

lemma round_up_props:
  assumes "k < 64" "unat c + 2 ^ k \<le> 2 ^ 64"
  shows "2 ^ k dvd unat (round_up c (2 ^ k))" "unat c \<le> unat (round_up c (2 ^ k))"
    "unat (round_up c (2 ^ k)) < unat c + 2 ^ k"
proof -
  let ?n = "unat c + (2 ^ k - 1)"
  have m: "?n mod 2 ^ k < 2 ^ k" by simp
  have d: "?n div 2 ^ k * 2 ^ k + ?n mod 2 ^ k = ?n" by (rule div_mult_mod_eq)
  show "2 ^ k dvd unat (round_up c (2 ^ k))" by (simp add: round_up_unat [OF assms])
  show "unat c \<le> unat (round_up c (2 ^ k))" "unat (round_up c (2 ^ k)) < unat c + 2 ^ k"
    unfolding round_up_unat [OF assms] using m d by linarith+
qed

lemma round_up_64: "round_up c 64 = RoundUpCacheLine c"
  by (simp add: round_up_def RoundUpCacheLine_def add.commute)

section \<open>Carving\<close>

text \<open>The layout arithmetic of a carve does not overflow and the region is as large as it says.\<close>

definition carve_fits :: "Placed \<Rightarrow> u64 \<Rightarrow> Region \<Rightarrow> bool" where
  "carve_fits u n s \<longleftrightarrow> (\<exists>k < 64. carve_align u = 2 ^ k \<and>
     unat (cursor s) + 2 ^ k + unat n * length (image u) \<le> 2 ^ 64) \<and> length (memory s) = unat (region_size s)"

lemma unat_bytes:
  assumes "unat n * length (xs :: u8 list) < 2 ^ 64"
  shows "unat (of_nat (length xs) * (n :: u64)) = unat n * length xs"
proof (cases "n = 0")
  case False
  then have "0 < unat n" by (simp add: unat_gt_0)
  then have "length xs \<le> unat n * length xs" by simp
  with assms have "length xs < 2 ^ 64" by linarith
  then have "unat (of_nat (length xs) :: u64) = length xs" by (rule unat_of_nat_u64)
  with assms show ?thesis by (subst unat_times_nowrap) (simp_all add: mult.commute)
qed simp

lemma Carve_layout:
  assumes "Carve u n s = Inr (at, t)" "carve_fits u n s"
  shows "unat (carve_align u) dvd unat at" "unat (cursor s) \<le> unat at" "unat at < unat (cursor s) + unat (carve_align u)"
    "unat (cursor t) = unat at + unat n * length (image u)" "unat (cursor t) \<le> length (memory s)"
    "memory t = (if initialize s then overwrite (unat at) (concat (replicate (unat n) (image u))) (memory s) else memory s)"
    "region_size t = region_size s" "initialize t = initialize s" "length (memory t) = length (memory s)"
proof -
  obtain k where k: "k < 64" "carve_align u = 2 ^ k"
      "unat (cursor s) + 2 ^ k + unat n * length (image u) \<le> 2 ^ 64" "length (memory s) = unat (region_size s)"
    using assms(2) by (auto simp: carve_fits_def)
  have at: "at = round_up (cursor s) (2 ^ k)" and le: "cursor t \<le> region_size s"
    and ct: "cursor t = at + of_nat (length (image u)) * n" and rs: "region_size t = region_size s" "initialize t = initialize s"
    and mem: "memory t = (if initialize s then place_from (unat n) 0 (unat at) (image u) (memory s) else memory s)"
    using assms(1) k(2) by (auto simp: Carve_def Let_def split: if_splits)
  have r: "unat (cursor s) + 2 ^ k \<le> 2 ^ 64" using k(3) by linarith
  note p = round_up_props [OF k(1) r, folded at]
  have "unat n * length (image u) < 2 ^ 64" using k(3) one_le_power [of "2 :: nat" k] by linarith
  note ub = unat_bytes [OF this]
  have c: "unat (cursor t) = unat at + unat n * length (image u)"
    unfolding ct by (subst unat_plus_nowrap) (use p(3) k(3) in \<open>simp_all add: ub\<close>)
  have l: "unat (cursor t) \<le> length (memory s)" using le k(4) by (simp add: word_le_nat_alt)
  show "unat (carve_align u) dvd unat at" "unat (cursor s) \<le> unat at" "unat at < unat (cursor s) + unat (carve_align u)"
    using p k(1,2) by (simp_all add: unat_exp_u64)
  show "unat (cursor t) = unat at + unat n * length (image u)" "unat (cursor t) \<le> length (memory s)"
    "region_size t = region_size s" "initialize t = initialize s" by (fact c l rs)+
  have m: "place_from (unat n) 0 (unat at) (image u) (memory s) =
      overwrite (unat at) (concat (replicate (unat n) (image u))) (memory s)"
    using l c by (subst place_from_eq) simp_all
  then show "memory t = (if initialize s then overwrite (unat at) (concat (replicate (unat n) (image u))) (memory s) else memory s)"
    using mem by simp
  then show "length (memory t) = length (memory s)"
    using l c by (simp add: length_concat sum_list_replicate)
qed

section \<open>Both policies satisfy the contract\<close>

definition region_make :: "Placed \<Rightarrow> u64 \<Rightarrow> Region \<Rightarrow> (u64 \<times> Region) option" where
  "region_make u n s = (case Region_MakeArray u n s of Inl _ \<Rightarrow> None | Inr r \<Rightarrow> Some r)"

definition region_view :: "Region \<Rightarrow> u64 \<Rightarrow> nat \<Rightarrow> u8 list" where
  "region_view s at n = take n (drop (unat at) (memory s))"

definition heap_view :: "Heap \<Rightarrow> nat \<Rightarrow> nat \<Rightarrow> u8 list" where
  "heap_view h i n = take n (h ! i)"

lemma region_make_iff: "region_make u n s = Some (at, t) \<longleftrightarrow> Carve u n s = Inr (at, t)"
  by (auto simp: region_make_def Region_MakeArray_def split: sum.splits)

interpretation heap: storage_policy "\<lambda>u n h. Some (Heap_MakeArray u n h)" "\<lambda>_ _ _. True" heap_view
  by unfold_locales
    (auto simp: Heap_MakeArray_def heap_view_def length_concat sum_list_replicate nth_append)

interpretation region: storage_policy region_make "\<lambda>u n s. carve_fits u n s \<and> initialize s" region_view
proof unfold_locales
  fix u n s h t
  assume m: "region_make u n s = Some (h, t)" and f: "carve_fits u n s \<and> initialize s"
  note L = Carve_layout [OF m [unfolded region_make_iff] f [THEN conjunct1]]
  have len: "unat h + length (concat (replicate (unat n) (image u))) \<le> length (memory s)"
    using L(4,5) by (simp add: length_concat sum_list_replicate)
  from overwrite_parts(2) [OF len] f
  show "region_view t h (unat n * length (image u)) = concat (replicate (unat n) (image u))"
    by (simp add: region_view_def L(6) length_concat sum_list_replicate)
  fix v m' g t'
  assume m': "region_make v m' t = Some (g, t')" and f': "carve_fits v m' t \<and> initialize t"
  note L' = Carve_layout [OF m' [unfolded region_make_iff] f' [THEN conjunct1]]
  show "region_view t' h (unat n * length (image u)) = region_view t h (unat n * length (image u))"
    using L(4) L'(2,4,5) f'
    by (simp add: region_view_def L'(6) overwrite_before length_concat sum_list_replicate)
qed

section \<open>Layout of the placed cores\<close>

definition placed_Cell :: "nat \<Rightarrow> Placed" where
  "placed_Cell sz = \<lparr>alignof = 8, image = replicate (8 * (kWords sz + 2)) 0\<rparr>"

definition placed_Header :: Placed where
  "placed_Header = \<lparr>alignof = 8, image = replicate 8 0\<rparr>"

fun carve_all :: "(Placed \<times> u64) list \<Rightarrow> Region \<Rightarrow> storage_error + u64 list \<times> Region" where
  "carve_all [] s = Inr ([], s)"
| "carve_all ((u, n) # us) s =
     (case Carve u n s of
        Inl e \<Rightarrow> Inl e
      | Inr (at, t) \<Rightarrow> (case carve_all us t of Inl e \<Rightarrow> Inl e | Inr (ats, t') \<Rightarrow> Inr (at # ats, t')))"

lemma Carve_same_offset:
  assumes "cursor s = cursor s'" "region_size s = region_size s'" "\<not> initialize s'"
  shows "Carve u n s = Inl e \<Longrightarrow> Carve u n s' = Inl e"
    "Carve u n s = Inr (at, t) \<Longrightarrow> \<exists>t'. Carve u n s' = Inr (at, t') \<and> cursor t = cursor t' \<and>
       region_size t = region_size t' \<and> \<not> initialize t' \<and> memory t' = memory s'"
  using assms by (auto simp: Carve_def Let_def split: if_splits)

lemma carve_all_agree:
  assumes "cursor s = cursor s'" "region_size s = region_size s'" "\<not> initialize s'"
  shows "case (carve_all us s, carve_all us s') of
      (Inl e, Inl e') \<Rightarrow> e = e'
    | (Inr (ats, t), Inr (ats', t')) \<Rightarrow> ats = ats' \<and> used t = used t' \<and> memory t' = memory s'
    | _ \<Rightarrow> False"
  using assms
proof (induction us arbitrary: s s')
  case Nil
  then show ?case by (simp add: used_def)
next
  case (Cons un us)
  obtain u n where un: "un = (u, n)" by (cases un)
  note C = Carve_same_offset [OF Cons.prems, of u n]
  show ?case
  proof (cases "Carve u n s")
    case (Inl e)
    with C(1) [OF Inl] un show ?thesis by simp
  next
    case (Inr r)
    then obtain at t where r: "Carve u n s = Inr (at, t)" by (cases r) simp
    from C(2) [OF r] obtain t' where r': "Carve u n s' = Inr (at, t')" and k: "cursor t = cursor t'"
        "region_size t = region_size t'" "\<not> initialize t'" "memory t' = memory s'"
      by (elim exE conjE)
    from Cons.IH [OF k(1-3)] show ?thesis
      by (cases "carve_all us t"; cases "carve_all us t'"; simp add: un r r' k(4) split_beta)
  qed
qed

section \<open>Properties\<close>

text \<open>Property C11. A carve that does not trip the overrun assertion returns an offset that is a
  multiple of the type's alignment (at least 64), lies at or after everything carved before and
  skips less than one alignment; the objects fit inside the region, hold the value-initialized
  image when the policy initializes, and every other byte of the region is unchanged.\<close>

theorem carve_places_objects:
  assumes "Carve u n s = Inr (at, t)" "carve_fits u n s"
  shows "64 \<le> unat (carve_align u) \<and> unat (carve_align u) dvd unat at \<and> unat (cursor s) \<le> unat at \<and>
    unat at < unat (cursor s) + unat (carve_align u) \<and>
    unat (used t) = unat at + unat n * length (image u) \<and> unat (used t) \<le> length (memory t) \<and>
    take (unat at) (memory t) = take (unat at) (memory s) \<and>
    drop (unat (used t)) (memory t) = drop (unat (used t)) (memory s) \<and>
    region_view t at (unat n * length (image u)) =
      (if initialize s then concat (replicate (unat n) (image u)) else region_view s at (unat n * length (image u)))"
proof -
  note L = Carve_layout [OF assms]
  let ?bs = "concat (replicate (unat n) (image u))"
  have len: "length ?bs = unat n * length (image u)" by (simp add: length_concat sum_list_replicate)
  have "unat at + length ?bs \<le> length (memory s)" using L(4,5) by (simp add: len)
  note O = overwrite_parts [OF this, unfolded len]
  have "64 \<le> unat (carve_align u)" by (auto simp: carve_align_def word_less_nat_alt)
  then show ?thesis using L O by (simp add: used_def region_view_def)
qed

theorem carve_places_objects_witness:
  "case Carve (placed_Cell 9) 1 (RegionStorage_ctor (replicate 128 7) 128 True) of
     Inl e \<Rightarrow> False | Inr (at, t) \<Rightarrow> drop (unat (used t)) (memory t) = replicate 96 7"
proof -
  let ?s = "RegionStorage_ctor (replicate 128 7) 128 True"
  have f: "carve_fits (placed_Cell 9) 1 ?s"
    unfolding carve_fits_def by (auto intro!: exI [of _ 6] simp: carve_align_def placed_Cell_def RegionStorage_ctor_def kWords_def)
  obtain t where t: "Carve (placed_Cell 9) 1 ?s = Inr (0, t)" "used t = 32"
    by (simp add: Carve_def Let_def carve_align_def placed_Cell_def RegionStorage_ctor_def kWords_def round_up_def used_def)
  from carve_places_objects [OF t(1) f] t show ?thesis by (simp add: RegionStorage_ctor_def)
qed

text \<open>Attaching is deterministic and preserving: a process that makes the same carves in
  the same order over the same region without initializing gets the same offsets (or the same
  overrun) as the initializing one, and finds every byte as it was.\<close>

theorem attach_same_layout:
  assumes "cursor s = cursor s'" "region_size s = region_size s'" "\<not> Region_Initialize s'"
  shows "case (carve_all us s, carve_all us s') of
      (Inl e, Inl e') \<Rightarrow> e = e'
    | (Inr (ats, t), Inr (ats', t')) \<Rightarrow> ats = ats' \<and> used t = used t' \<and> memory t' = memory s'
    | _ \<Rightarrow> False"
  using carve_all_agree [of s s' us] assms by (simp add: Region_Initialize_def)

theorem attach_same_layout_witness:
  "case carve_all [(placed_Cell 9, 2), (placed_Header, 1)] (RegionStorage_ctor (replicate 128 7) 128 False) of
     Inl e \<Rightarrow> False | Inr (ats, t) \<Rightarrow> ats = [0, 64] \<and> memory t = replicate 128 7"
proof -
  let ?us = "[(placed_Cell 9, 2), (placed_Header, 1)]" and ?s = "RegionStorage_ctor (replicate 128 7) 128 False"
  have "case carve_all ?us (RegionStorage_ctor [] 128 True) of Inl e \<Rightarrow> False | Inr (ats, t) \<Rightarrow> ats = [0, 64]"
    by (simp add: Carve_def Let_def carve_align_def placed_Cell_def placed_Header_def RegionStorage_ctor_def kWords_def round_up_def)
  with attach_same_layout [of "RegionStorage_ctor [] 128 True" ?s ?us] show ?thesis
    by (auto simp: RegionStorage_ctor_def Region_Initialize_def split: sum.splits)
qed

text \<open>Property C12. The layout constant \<open>StorageBytes()\<close> of the ring is exactly what its constructor
  carves from an empty region: the cell array at offset 0, the cursor header on the next cache
  line, nothing more.\<close>

theorem storage_bytes_exact:
  assumes "cursor s = 0" "Region_MakeArray (placed_Cell sz) n s = Inr (a, t)" "Region_MakeSingle placed_Header t = Inr (b, t')"
  shows "a = 0 \<and> b = RoundUpCacheLine (CellBytes sz * n) \<and> used t' = StorageBytes (unat n) sz"
proof -
  have a: "a = 0" and t: "cursor t = of_nat (8 * (kWords sz + 2)) * n"
    using assms(1,2)
    by (auto simp: Region_MakeArray_def Carve_def Let_def carve_align_def placed_Cell_def round_up_def split: if_splits)
  have cb: "of_nat (8 * (kWords sz + 2)) = CellBytes sz" by (simp add: CellBytes_def)
  have "b = RoundUpCacheLine (cursor t) \<and> cursor t' = RoundUpCacheLine (cursor t) + 8"
    using assms(3)
    by (auto simp: Region_MakeSingle_def Carve_def Let_def carve_align_def placed_Header_def round_up_64 split: if_splits)
  then show ?thesis using a unfolding t cb by (simp add: used_def StorageBytes_def HeaderBytes_def)
qed

theorem storage_bytes_exact_witness:
  "StorageBytes 2 9 = 72"
proof -
  let ?s = "RegionStorage_ctor [] 128 False"
  obtain t where t: "Region_MakeArray (placed_Cell 9) 2 ?s = Inr (0, t)" "cursor t = 64" "region_size t = 128" "\<not> initialize t"
    by (simp add: Region_MakeArray_def Carve_def Let_def carve_align_def placed_Cell_def RegionStorage_ctor_def kWords_def round_up_def)
  then obtain t' where t': "Region_MakeSingle placed_Header t = Inr (64, t')" "used t' = 72"
    by (simp add: Region_MakeSingle_def Carve_def Let_def carve_align_def placed_Header_def round_up_def used_def)
  have "cursor ?s = 0" by (simp add: RegionStorage_ctor_def)
  from storage_bytes_exact [OF this t(1) t'(1)] t'(2) show ?thesis by simp
qed

text \<open>The algorithms observe the same starting state on both placements: an array and a
  single made one after the other show the same bytes on the heap and in an initialized region,
  also after the second carve.\<close>

theorem placements_start_alike:
  assumes "Heap_MakeArray u n h = (i, h1)" "Heap_MakeArray v m h1 = (j, h2)"
    and "Region_MakeArray u n s = Inr (a, t)" "Region_MakeArray v m t = Inr (b, t')"
    and "carve_fits u n s" "carve_fits v m t" "initialize s" "initialize t"
  shows "heap_view h2 i (unat n * length (image u)) = region_view t' a (unat n * length (image u)) \<and>
    heap_view h2 j (unat m * length (image v)) = region_view t' b (unat m * length (image v))"
proof -
  have r: "region_make u n s = Some (a, t)" "region_make v m t = Some (b, t')"
    using assms(3,4) by (simp_all add: region_make_def)
  show ?thesis
    using heap.two_carves [of u n h i h1 v m j h2] region.two_carves [OF r(1) _ r(2)] assms by simp
qed

theorem placements_start_alike_witness:
  "\<exists>t'. region_view t' 0 8 = replicate 8 0 \<and> region_view t' 64 8 = replicate 8 0"
proof -
  let ?s = "RegionStorage_ctor (replicate 128 7) 128 True"
  obtain t where t: "Region_MakeArray placed_Header 1 ?s = Inr (0, t)" "cursor t = 8" "region_size t = 128"
      "initialize t" "length (memory t) = 128"
    by (simp add: Region_MakeArray_def Carve_def Let_def carve_align_def placed_Header_def RegionStorage_ctor_def round_up_def overwrite_def)
  then obtain t' where t': "Region_MakeArray placed_Header 1 t = Inr (64, t')"
    by (simp add: Region_MakeArray_def Carve_def Let_def carve_align_def placed_Header_def round_up_def)
  have f: "carve_fits placed_Header 1 ?s" "carve_fits placed_Header 1 t" "initialize ?s"
    unfolding carve_fits_def using t
    by (auto intro!: exI [of _ 6] simp: carve_align_def placed_Header_def RegionStorage_ctor_def)
  have "Heap_MakeArray placed_Header 1 [] = (0, [replicate 8 0])"
    "Heap_MakeArray placed_Header 1 [replicate 8 0] = (1, [replicate 8 0, replicate 8 0])"
    by (simp_all add: Heap_MakeArray_def placed_Header_def)
  from placements_start_alike [OF this t(1) t' f t(4)] show ?thesis
    by (auto intro!: exI [of _ t'] simp: placed_Header_def heap_view_def)
qed

end
