(* ===== verification/Event_Count.thy ===== *)
theory Event_Count
  imports Prelude
begin

text \<open>
  \<open>concurrency/event_count.hpp\<close>: the futex eventcount \<open>EventCount\<close> (its waiter and notifier
  protocols interleaved, the parking loop \<open>WaitUntil\<close> against a clock, the two \<open>WaitOn\<close>
  variants) and the portable \<open>CondvarEventCount\<close>. The kernel's futex and the condition variable
  are steps of the system with their documented behaviour: a futex wait sleeps only if the word
  still has the expected value, a wake or notify-all releases every sleeper, and a sleeper may
  return at any time (timeout, signal, spurious wake).
\<close>

section \<open>EventCount: the protocol\<close>

datatype fpc = FIdle | FLoad | FPred u32 | FClock u32 | FPark u32 | FSleep u32 | FFinal | FDone bool

datatype npc = NIdle | NAdd | NWake

text \<open>
  \<open>flag\<close> is the value of the predicate, made true by a notifier before it calls
  \<open>NotifyAll\<close>. Ghosts: \<open>bumps\<close> counts the increments of the word, \<open>seen i\<close> is its value when
  waiter \<open>i\<close> loaded the generation.
\<close>

record futex_sys =
  epoch :: u32
  flag :: bool
  waiters :: "nat \<Rightarrow> fpc"
  notifiers :: "nat \<Rightarrow> npc"
  bumps :: nat
  seen :: "nat \<Rightarrow> nat"

definition set_waiter :: "nat \<Rightarrow> fpc \<Rightarrow> futex_sys \<Rightarrow> futex_sys" where
  "set_waiter i p s = s\<lparr>waiters := (waiters s)(i := p)\<rparr>"

text \<open>One access of \<open>WaitUntil\<close>; \<open>expired\<close> is what the clock comparison answers.\<close>

definition waiter_step :: "bool \<Rightarrow> nat \<Rightarrow> futex_sys \<Rightarrow> futex_sys" where
  "waiter_step expired i s =
     (case waiters s i of
        FLoad \<Rightarrow> (set_waiter i (FPred (epoch s)) s)\<lparr>seen := (seen s)(i := bumps s)\<rparr>
      | FPred gen \<Rightarrow> set_waiter i (if flag s then FDone True else FClock gen) s
      | FClock gen \<Rightarrow> set_waiter i (if expired then FFinal else FPark gen) s
      | FFinal \<Rightarrow> set_waiter i (FDone (flag s)) s
      | FPark gen \<Rightarrow> set_waiter i (if epoch s = gen then FSleep gen else FLoad) s
      | FSleep gen \<Rightarrow> set_waiter i FLoad s
      | FIdle \<Rightarrow> s
      | FDone _ \<Rightarrow> s)"

definition wake_all :: "(nat \<Rightarrow> fpc) \<Rightarrow> nat \<Rightarrow> fpc" where
  "wake_all ws i = (case ws i of FSleep _ \<Rightarrow> FLoad | p \<Rightarrow> p)"

text \<open>The caller makes the predicate true, then \<open>NotifyAll\<close>: increment, wake.\<close>

definition notifier_step :: "nat \<Rightarrow> futex_sys \<Rightarrow> futex_sys" where
  "notifier_step j s =
     (case notifiers s j of
        NIdle \<Rightarrow> s\<lparr>flag := True, notifiers := (notifiers s)(j := NAdd)\<rparr>
      | NAdd \<Rightarrow> s\<lparr>epoch := epoch s + 1, bumps := bumps s + 1, notifiers := (notifiers s)(j := NWake)\<rparr>
      | NWake \<Rightarrow> s\<lparr>waiters := wake_all (waiters s), notifiers := (notifiers s)(j := NIdle)\<rparr>)"

definition call_wait :: "nat \<Rightarrow> futex_sys \<Rightarrow> futex_sys" where
  "call_wait i s = (case waiters s i of FIdle \<Rightarrow> set_waiter i FLoad s | FDone _ \<Rightarrow> set_waiter i FLoad s | _ \<Rightarrow> s)"

inductive futex_step :: "futex_sys \<Rightarrow> futex_sys \<Rightarrow> bool" where
  fx_call: "futex_step s (call_wait i s)"
| fx_wait: "futex_step s (waiter_step expired i s)"
| fx_notify: "futex_step s (notifier_step j s)"
| fx_consume: "futex_step s (s\<lparr>flag := False\<rparr>)"

inductive_cases futex_stepE: "futex_step s t"

definition futex_start :: futex_sys where
  "futex_start = \<lparr>epoch = 0, flag = False, waiters = (\<lambda>_. FIdle), notifiers = (\<lambda>_. NIdle), bumps = 0, seen = (\<lambda>_. 0)\<rparr>"

definition futex_init :: "futex_sys \<Rightarrow> bool" where
  "futex_init s \<longleftrightarrow> s = futex_start"

text \<open>Fewer than \<open>2 ^ 32\<close> notifications: the generation has not come round.\<close>

definition futex_fits :: "futex_sys \<Rightarrow> bool" where
  "futex_fits s \<longleftrightarrow> bumps s < 2 ^ 32"

abbreviation pending_add :: "futex_sys \<Rightarrow> bool" where
  "pending_add s \<equiv> \<exists>j. notifiers s j = NAdd"

abbreviation pending_wake :: "futex_sys \<Rightarrow> bool" where
  "pending_wake s \<equiv> \<exists>j. notifiers s j = NWake"

definition waiter_inv :: "futex_sys \<Rightarrow> nat \<Rightarrow> bool" where
  "waiter_inv s i \<longleftrightarrow> seen s i \<le> bumps s \<and>
     (case waiters s i of
        FPred gen \<Rightarrow> gen = of_nat (seen s i)
      | FClock gen \<Rightarrow> gen = of_nat (seen s i) \<and> (flag s \<longrightarrow> pending_add s \<or> seen s i < bumps s)
      | FPark gen \<Rightarrow> gen = of_nat (seen s i) \<and> (flag s \<longrightarrow> pending_add s \<or> seen s i < bumps s)
      | FSleep gen \<Rightarrow> gen = of_nat (seen s i) \<and> (flag s \<longrightarrow> pending_add s \<or> pending_wake s)
      | _ \<Rightarrow> True)"

definition futex_inv :: "futex_sys \<Rightarrow> bool" where
  "futex_inv s \<longleftrightarrow> epoch s = of_nat (bumps s) \<and> (\<forall>i. waiter_inv s i)"

lemma generation_differs:
  assumes "m < n" "n < 2 ^ 32" shows "(of_nat m :: u32) \<noteq> of_nat n"
  using assms by (auto simp: word_unat_eq_iff unsigned_of_nat take_bit_nat_eq_self)

lemma futex_init_inv: "futex_init s \<Longrightarrow> futex_inv s"
  by (simp add: futex_init_def futex_start_def futex_inv_def waiter_inv_def)

lemma set_waiter_sel [simp]:
  "epoch (set_waiter i p s) = epoch s" "flag (set_waiter i p s) = flag s" "bumps (set_waiter i p s) = bumps s"
  "notifiers (set_waiter i p s) = notifiers s" "seen (set_waiter i p s) = seen s"
  "waiters (set_waiter i p s) k = (if k = i then p else waiters s k)"
  by (simp_all add: set_waiter_def)

lemma waiter_step_sel [simp]:
  "epoch (waiter_step x i s) = epoch s" "flag (waiter_step x i s) = flag s" "bumps (waiter_step x i s) = bumps s"
  "notifiers (waiter_step x i s) = notifiers s"
  by (simp_all add: waiter_step_def split: fpc.splits)

lemma waiter_step_other:
  assumes "k \<noteq> i" shows "waiters (waiter_step x i s) k = waiters s k" "seen (waiter_step x i s) k = seen s k"
  using assms by (simp_all add: waiter_step_def split: fpc.splits)

lemma waiter_step_inv:
  assumes "futex_inv s" "futex_fits s"
  shows "futex_inv (waiter_step x i s)"
proof -
  have "waiter_inv (waiter_step x i s) k" for k
  proof (cases "k = i")
    case True
    have "waiter_inv s i" "epoch s = of_nat (bumps s)" using assms(1) by (auto simp: futex_inv_def)
    then show ?thesis
      using assms(2) generation_differs [of "seen s i" "bumps s"] True
      by (cases "waiters s i") (auto simp: waiter_inv_def waiter_step_def futex_fits_def)
  next
    case False
    have "waiter_inv s k" using assms(1) by (simp add: futex_inv_def)
    then show ?thesis by (cases "waiters s k") (auto simp: waiter_inv_def waiter_step_other [OF False])
  qed
  then show ?thesis using assms(1) by (simp add: futex_inv_def)
qed

lemma notifier_step_inv:
  assumes "futex_inv s"
  shows "futex_inv (notifier_step j s)"
proof -
  have "waiter_inv (notifier_step j s) k" for k
  proof -
    have w: "waiter_inv s k" using assms by (simp add: futex_inv_def)
    show ?thesis
    proof (cases "notifiers s j")
      case NIdle
      then have "\<exists>j'. ((notifiers s)(j := NAdd)) j' = NAdd" by auto
      with w NIdle show ?thesis by (auto simp: waiter_inv_def notifier_step_def split: fpc.splits)
    next
      case NAdd
      then have "\<exists>j'. ((notifiers s)(j := NWake)) j' = NWake" by auto
      with w NAdd show ?thesis by (auto simp: waiter_inv_def notifier_step_def split: fpc.splits)
    next
      case NWake
      then have "j' \<noteq> j" if "notifiers s j' = NAdd" for j' using that by auto
      with w NWake show ?thesis
        by (cases "waiters s k") (auto simp: waiter_inv_def notifier_step_def wake_all_def)
    qed
  qed
  moreover have "epoch (notifier_step j s) = of_nat (bumps (notifier_step j s))"
    using assms by (simp add: futex_inv_def notifier_step_def split: npc.splits)
  ultimately show ?thesis by (simp add: futex_inv_def)
qed

lemma call_wait_inv:
  assumes "futex_inv s" shows "futex_inv (call_wait i s)"
proof -
  have "waiter_inv (set_waiter i FLoad s) k" for k
  proof -
    have "waiter_inv s k" using assms by (simp add: futex_inv_def)
    then show ?thesis by (cases "k = i"; cases "waiters s k") (auto simp: waiter_inv_def)
  qed
  with assms show ?thesis by (auto simp: call_wait_def futex_inv_def split: fpc.splits)
qed

lemma consume_inv: "futex_inv s \<Longrightarrow> futex_inv (s\<lparr>flag := False\<rparr>)"
  by (simp add: futex_inv_def waiter_inv_def split: fpc.splits)

lemma futex_bumps: "futex_step s t \<Longrightarrow> bumps s \<le> bumps t"
  by (erule futex_stepE) (simp_all add: call_wait_def notifier_step_def split: fpc.splits npc.splits)

interpretation futex: inductive_invariant futex_init futex_step futex_fits futex_inv
proof unfold_locales
  fix s t
  show "futex_init s \<Longrightarrow> futex_inv s" by (rule futex_init_inv)
  show fits_before: "futex_step s t \<Longrightarrow> futex_fits t \<Longrightarrow> futex_fits s" using futex_bumps [of s t] by (simp add: futex_fits_def)
  show "futex_step s t \<Longrightarrow> futex_inv s \<Longrightarrow> futex_fits t \<Longrightarrow> futex_inv t"
    using fits_before waiter_step_inv notifier_step_inv call_wait_inv consume_inv by (blast elim: futex_stepE)
qed

section \<open>The parking loop against a clock\<close>

text \<open>
  \<open>WaitUntil(deadline_at, predicate)\<close> for one caller: iteration \<open>k\<close> of the loop sees the
  predicate value \<open>p k\<close>, the clock \<open>now k\<close> and, when the deadline has passed, the final predicate
  value \<open>p' k\<close>. Times are nanoseconds. Not returning is \<open>None\<close>.
\<close>

partial_function (option) WaitUntil :: "int \<Rightarrow> (nat \<Rightarrow> bool) \<Rightarrow> (nat \<Rightarrow> int) \<Rightarrow> (nat \<Rightarrow> bool) \<Rightarrow> nat \<Rightarrow> (bool \<times> nat) option" where
  "WaitUntil deadline_at p now p' k =
     (if p k then Some (True, k)
      else let remaining = deadline_at - now k in
        if remaining \<le> 0 then Some (p' k, k)
        else WaitUntil deadline_at p now p' (Suc k))"

text \<open>\<open>WaitFor(max_park, predicate)\<close> computes the deadline from the current time; the sum is a 64-bit
  signed count, whose overflow is undefined.\<close>

definition WaitFor :: "int \<Rightarrow> int \<Rightarrow> (nat \<Rightarrow> bool) \<Rightarrow> (nat \<Rightarrow> int) \<Rightarrow> (nat \<Rightarrow> bool) \<Rightarrow> (bool \<times> nat) option option" where
  "WaitFor now0 max_park p now p' =
     (if now0 + max_park < 2 ^ 63 \<and> - (2 ^ 63) \<le> now0 + max_park
      then Some (WaitUntil (now0 + max_park) p now p' 0) else None)"

text \<open>The futex variant's relative timeout (C++ division truncates towards zero).\<close>

definition trunc_div :: "int \<Rightarrow> int \<Rightarrow> int" where
  "trunc_div a b = sgn a * sgn b * (\<bar>a\<bar> div \<bar>b\<bar>)"

definition trunc_mod :: "int \<Rightarrow> int \<Rightarrow> int" where
  "trunc_mod a b = a - b * trunc_div a b"

definition timespec_of :: "int \<Rightarrow> int \<times> int" where
  "timespec_of ns = (trunc_div ns 1000000000, trunc_mod ns 1000000000)"

text \<open>The portable variant sleeps for at most one quantum of 500 microseconds.\<close>

definition quantum :: int where
  "quantum = 500000"

definition fallback_sleep :: "int \<Rightarrow> int" where
  "fallback_sleep remaining = (if remaining < quantum then remaining else quantum)"

lemma WaitUntil_returns:
  assumes "deadline_at \<le> now n" "k \<le> n"
  shows "\<exists>r m. WaitUntil deadline_at p now p' k = Some (r, m) \<and> k \<le> m \<and> m \<le> n"
  using assms(2)
proof (induction "n - k" arbitrary: k)
  case 0
  then have "k = n" by simp
  with assms(1) show ?case by (subst WaitUntil.simps) auto
next
  case (Suc d)
  then have "d = n - Suc k" "Suc k \<le> n" by simp_all
  with Suc(1) obtain r m where "WaitUntil deadline_at p now p' (Suc k) = Some (r, m)" "Suc k \<le> m" "m \<le> n" by blast
  with Suc.prems show ?case by (subst WaitUntil.simps) auto
qed

lemma WaitUntil_sound:
  assumes "WaitUntil deadline_at p now p' k = Some (r, m)"
  shows "k \<le> m \<and> (\<forall>j. k \<le> j \<and> j < m \<longrightarrow> \<not> p j \<and> now j < deadline_at) \<and>
    (if p m then r else deadline_at \<le> now m \<and> r = p' m)"
proof -
  let ?P = "\<lambda>deadline_at p now p' k rm. k \<le> snd rm \<and>
    (\<forall>j. k \<le> j \<and> j < snd rm \<longrightarrow> \<not> p j \<and> now j < deadline_at) \<and>
    (if p (snd rm) then fst rm else deadline_at \<le> now (snd rm) \<and> fst rm = p' (snd rm))"
  have "?P deadline_at p now p' k (r, m)"
  proof (rule WaitUntil.raw_induct [where P = ?P, OF _ assms])
    fix f :: "int \<Rightarrow> (nat \<Rightarrow> bool) \<Rightarrow> (nat \<Rightarrow> int) \<Rightarrow> (nat \<Rightarrow> bool) \<Rightarrow> nat \<Rightarrow> (bool \<times> nat) option"
    fix deadline_at p now p' k rm
    assume IH: "\<And>deadline_at p now p' k y. f deadline_at p now p' k = Some y \<Longrightarrow> ?P deadline_at p now p' k y"
      and e: "(if p k then Some (True, k) else let remaining = deadline_at - now k in
        if remaining \<le> 0 then Some (p' k, k) else f deadline_at p now p' (Suc k)) = Some rm"
    show "?P deadline_at p now p' k rm"
    proof (cases "p k \<or> deadline_at \<le> now k")
      case True
      with e show ?thesis by (auto split: if_splits)
    next
      case False
      with e have "f deadline_at p now p' (Suc k) = Some rm" by simp
      moreover have "k \<le> j \<longleftrightarrow> j = k \<or> Suc k \<le> j" for j by auto
      ultimately show ?thesis using IH [of deadline_at p now p' "Suc k" rm] False by auto
    qed
  qed
  then show ?thesis unfolding fst_conv snd_conv .
qed

lemma fallback_progress:
  assumes "\<And>k. now k < deadline_at \<Longrightarrow> now k + fallback_sleep (deadline_at - now k) \<le> now (Suc k)"
    and "\<forall>j < n. now j < deadline_at"
  shows "min deadline_at (now 0 + int n * quantum) \<le> now n"
  using assms(2)
proof (induction n)
  case 0
  then show ?case by simp
next
  case (Suc n)
  then have "min deadline_at (now 0 + int n * quantum) \<le> now n" "now n < deadline_at" by auto
  with assms(1) [of n] show ?case by (simp add: fallback_sleep_def algebra_simps split: if_splits)
qed

lemma trunc_pos: "0 < a \<Longrightarrow> 0 < b \<Longrightarrow> trunc_div a b = a div b \<and> trunc_mod a b = a mod b"
  by (simp add: trunc_div_def trunc_mod_def minus_mult_div_eq_mod)

section \<open>CondvarEventCount\<close>

text \<open>
  The mutex is held from the waiter's lock to the atomic release inside \<open>wait_for\<close>, and again from
  its wake to its return; the notifier passes through an empty critical section before
  \<open>notify_all\<close>. \<open>owner\<close> is the waiter or notifier that holds the mutex.
\<close>

datatype vpc = VIdle | VLock | VCheck | VWait | VBlocked | VLast | VDone bool

datatype kpc = KIdle | KLock | KHold | KNotify

datatype thread = Wtr nat | Ntf nat

record condvar_sys =
  cflag :: bool
  owner :: "thread option"
  cwaiters :: "nat \<Rightarrow> vpc"
  cnotifiers :: "nat \<Rightarrow> kpc"

text \<open>\<open>WaitFor\<close>: lock, check the predicate under the mutex, release and block; a blocked thread wakes
  (\<open>expired\<close> says whether by the timeout), takes the mutex again and rechecks, or returns the
  predicate's final value.\<close>

definition cv_wait_step :: "bool \<Rightarrow> nat \<Rightarrow> condvar_sys \<Rightarrow> condvar_sys" where
  "cv_wait_step expired i s =
     (let upd = (\<lambda>p. (cwaiters s)(i := p)) in
      case cwaiters s i of
        VIdle \<Rightarrow> s\<lparr>cwaiters := upd VLock\<rparr>
      | VDone _ \<Rightarrow> s\<lparr>cwaiters := upd VLock\<rparr>
      | VLock \<Rightarrow> if owner s = None then s\<lparr>owner := Some (Wtr i), cwaiters := upd VCheck\<rparr> else s
      | VCheck \<Rightarrow> if cflag s
                  then s\<lparr>owner := None, cwaiters := upd (VDone True)\<rparr>
                  else s\<lparr>cwaiters := upd VWait\<rparr>
      | VWait \<Rightarrow> s\<lparr>owner := None, cwaiters := upd VBlocked\<rparr>
      | VBlocked \<Rightarrow> s\<lparr>cwaiters := upd (if expired then VLast else VLock)\<rparr>
      | VLast \<Rightarrow> if owner s = None then s\<lparr>cwaiters := upd (VDone (cflag s))\<rparr> else s)"

definition notify_all :: "(nat \<Rightarrow> vpc) \<Rightarrow> nat \<Rightarrow> vpc" where
  "notify_all ws i = (if ws i = VBlocked then VLock else ws i)"

definition cv_notify_step :: "nat \<Rightarrow> condvar_sys \<Rightarrow> condvar_sys" where
  "cv_notify_step j s =
     (let upd = (\<lambda>p. (cnotifiers s)(j := p)) in
      case cnotifiers s j of
        KIdle \<Rightarrow> s\<lparr>cflag := True, cnotifiers := upd KLock\<rparr>
      | KLock \<Rightarrow> if owner s = None then s\<lparr>owner := Some (Ntf j), cnotifiers := upd KHold\<rparr> else s
      | KHold \<Rightarrow> s\<lparr>owner := None, cnotifiers := upd KNotify\<rparr>
      | KNotify \<Rightarrow> s\<lparr>cwaiters := notify_all (cwaiters s), cnotifiers := upd KIdle\<rparr>)"

inductive condvar_step :: "condvar_sys \<Rightarrow> condvar_sys \<Rightarrow> bool" where
  cv_wait: "condvar_step s (cv_wait_step expired i s)"
| cv_notify: "condvar_step s (cv_notify_step j s)"
| cv_consume: "condvar_step s (s\<lparr>cflag := False\<rparr>)"

inductive_cases condvar_stepE: "condvar_step s t"

definition condvar_start :: condvar_sys where
  "condvar_start = \<lparr>cflag = False, owner = None, cwaiters = (\<lambda>_. VIdle), cnotifiers = (\<lambda>_. KIdle)\<rparr>"

definition condvar_init :: "condvar_sys \<Rightarrow> bool" where
  "condvar_init s \<longleftrightarrow> s = condvar_start"

definition cv_waiter_inv :: "condvar_sys \<Rightarrow> nat \<Rightarrow> bool" where
  "cv_waiter_inv s i \<longleftrightarrow>
     (owner s = Some (Wtr i) \<longleftrightarrow> cwaiters s i = VCheck \<or> cwaiters s i = VWait) \<and>
     (cwaiters s i = VWait \<and> cflag s \<longrightarrow> (\<exists>j. cnotifiers s j = KLock)) \<and>
     (cwaiters s i = VBlocked \<and> cflag s \<longrightarrow> (\<exists>j. cnotifiers s j \<noteq> KIdle))"

definition condvar_inv :: "condvar_sys \<Rightarrow> bool" where
  "condvar_inv s \<longleftrightarrow> (\<forall>i. cv_waiter_inv s i) \<and> (\<forall>j. owner s = Some (Ntf j) \<longleftrightarrow> cnotifiers s j = KHold)"

lemma cv_wait_inv:
  assumes "condvar_inv s" shows "condvar_inv (cv_wait_step x i s)"
proof -
  have n: "owner s = Some (Ntf j) \<longleftrightarrow> cnotifiers s j = KHold" for j using assms by (simp add: condvar_inv_def)
  have w: "cv_waiter_inv s k" for k using assms by (simp add: condvar_inv_def)
  have busy: "\<exists>j. cnotifiers s j \<noteq> KIdle" if "cnotifiers s j = KLock" for j
    using that by (metis kpc.distinct(1))
  have "cv_waiter_inv (cv_wait_step x i s) k" for k
    using w [of k] w [of i] busy
    by (cases "k = i"; cases "cwaiters s i") (auto simp: cv_waiter_inv_def cv_wait_step_def Let_def)
  moreover have "owner (cv_wait_step x i s) = Some (Ntf j) \<longleftrightarrow> cnotifiers (cv_wait_step x i s) j = KHold" for j
    using n [of j] w [of i] by (cases "cwaiters s i") (auto simp: cv_waiter_inv_def cv_wait_step_def Let_def)
  ultimately show ?thesis by (simp add: condvar_inv_def)
qed

lemma cv_notify_inv:
  assumes "condvar_inv s" shows "condvar_inv (cv_notify_step j s)"
proof -
  have n: "owner s = Some (Ntf l) \<longleftrightarrow> cnotifiers s l = KHold" for l using assms by (simp add: condvar_inv_def)
  have w: "cv_waiter_inv s k" for k using assms by (simp add: condvar_inv_def)
  have other: "l \<noteq> j" if "cnotifiers s l = KLock" "cnotifiers s j = KNotify" for l using that by auto
  have "cv_waiter_inv (cv_notify_step j s) k" for k
    using w [of k] n [of j] other
    by (cases "cnotifiers s j"; cases "cwaiters s k") (auto simp: cv_waiter_inv_def cv_notify_step_def Let_def notify_all_def)
  moreover have "owner (cv_notify_step j s) = Some (Ntf l) \<longleftrightarrow> cnotifiers (cv_notify_step j s) l = KHold" for l
    using n [of l] n [of j] by (cases "l = j"; cases "cnotifiers s j") (auto simp: cv_notify_step_def Let_def)
  ultimately show ?thesis by (simp add: condvar_inv_def)
qed

interpretation condvar: inductive_invariant condvar_init condvar_step "\<lambda>_. True" condvar_inv
proof unfold_locales
  fix s t
  show "condvar_init s \<Longrightarrow> condvar_inv s"
    by (simp add: condvar_init_def condvar_start_def condvar_inv_def cv_waiter_inv_def)
  have "condvar_inv s \<Longrightarrow> condvar_inv (s\<lparr>cflag := False\<rparr>)" by (simp add: condvar_inv_def cv_waiter_inv_def)
  then show "condvar_step s t \<Longrightarrow> condvar_inv s \<Longrightarrow> True \<Longrightarrow> condvar_inv t"
    using cv_wait_inv cv_notify_inv by (auto elim: condvar_stepE)
qed

section \<open>Properties\<close>

text \<open>Property C10. No lost wakeup: in every reachable state of any number of waiters and notifiers,
  when the predicate is true and every \<open>NotifyAll\<close> has completed, no waiter is asleep in the
  kernel, and a waiter about to park on an older generation is turned back to recheck. (Fewer
  than \<open>2 ^ 32\<close> notifications, so a generation does not recur.)\<close>

theorem futex_no_lost_wakeup:
  assumes "reach futex_init futex_step s" "bumps s < 2 ^ 32" "flag s" "\<forall>j. notifiers s j = NIdle"
  shows "(\<forall>gen. waiters s i \<noteq> FSleep gen) \<and>
    (waiters s i = FPark gen \<longrightarrow> waiters (waiter_step expired i s) i = FLoad)"
proof -
  have f: "futex_fits s" using assms(2) by (simp add: futex_fits_def)
  have "waiter_inv s i" "epoch s = of_nat (bumps s)"
    using futex.reach_inv [OF assms(1) f] by (simp_all add: futex_inv_def)
  with assms(2-4) generation_differs [of "seen s i" "bumps s"] show ?thesis
    by (auto simp: waiter_inv_def waiter_step_def)
qed

definition park_race :: futex_sys where
  "park_race = (notifier_step 0 ^^ 3) ((waiter_step False 7 ^^ 3) (call_wait 7 futex_start))"

theorem futex_no_lost_wakeup_witness:
  "waiters park_race 7 = FPark 0 \<and> waiters (waiter_step False 7 park_race) 7 = FLoad"
proof -
  have "reach futex_init futex_step (call_wait 7 futex_start)"
    by (rule reach_step [where s = futex_start]) (simp_all add: reach_init futex_init_def fx_call)
  then have r: "reach futex_init futex_step park_race"
    unfolding park_race_def by (intro reach_funpow fx_notify fx_wait)
  have three: "(g ^^ 3) x = g (g (g x))" for g :: "futex_sys \<Rightarrow> futex_sys" and x by (simp add: numeral_eq_Suc)
  have f: "flag park_race" "bumps park_race < 2 ^ 32" "\<forall>j. notifiers park_race j = NIdle" and p: "waiters park_race 7 = FPark 0"
    by (simp_all add: park_race_def three notifier_step_def waiter_step_def call_wait_def futex_start_def
        set_waiter_def wake_all_def)
  from futex_no_lost_wakeup [OF r f(2,1,3), of 7 0 False] p show ?thesis by simp
qed

text \<open>The bounded park: once the clock has reached the deadline at some pass of the loop,
  \<open>WaitUntil\<close> returns no later than that pass; it answers true as soon as it sees the predicate
  true, and false only when the deadline has passed and the final check failed.\<close>

theorem wait_until_bounded:
  assumes "deadline_at \<le> now n"
  shows "\<exists>r m. WaitUntil deadline_at p now p' 0 = Some (r, m) \<and> m \<le> n \<and>
    (\<forall>j < m. \<not> p j \<and> now j < deadline_at) \<and> (r \<longrightarrow> p m \<or> p' m) \<and>
    (\<not> r \<longrightarrow> deadline_at \<le> now m \<and> \<not> p m \<and> \<not> p' m)"
proof -
  from WaitUntil_returns [of deadline_at now n 0 p p'] assms obtain r m
    where e: "WaitUntil deadline_at p now p' 0 = Some (r, m)" and m: "m \<le> n" by auto
  from WaitUntil_sound [OF e] e m show ?thesis by (auto split: if_splits)
qed

theorem wait_until_bounded_witness:
  "\<exists>r m. WaitUntil 10 (\<lambda>_. False) (\<lambda>k. 4 * int k) (\<lambda>_. False) 0 = Some (r, m) \<and> m \<le> 3 \<and> \<not> r"
  using wait_until_bounded [of 10 "\<lambda>k. 4 * int k" 3 "\<lambda>_. False" "\<lambda>_. False"] by auto

text \<open>The times handed to the operating system are well formed: a positive remaining time
  splits into a \<open>timespec\<close> with \<open>0 \<le> tv_nsec < 10^9\<close> that denotes it exactly, and the portable
  fallback sleeps a positive time not beyond the deadline. With that fallback and a clock that
  advances at least by each sleep, the loop returns within \<open>n\<close> passes when \<open>n\<close> quanta cover the
  remaining time.\<close>

theorem park_times_wellformed:
  assumes "0 < remaining"
  shows "0 \<le> fst (timespec_of remaining) \<and> 0 \<le> snd (timespec_of remaining) \<and> snd (timespec_of remaining) < 1000000000 \<and>
    fst (timespec_of remaining) * 1000000000 + snd (timespec_of remaining) = remaining \<and>
    0 < fallback_sleep remaining \<and> fallback_sleep remaining \<le> min remaining quantum \<and>
    ((\<forall>k. now k < now 0 + remaining \<longrightarrow> now k + fallback_sleep (now 0 + remaining - now k) \<le> now (Suc k)) \<and>
       remaining \<le> int n * quantum \<longrightarrow>
       (\<exists>r m. WaitUntil (now 0 + remaining) p now p' 0 = Some (r, m) \<and> m \<le> n))"
proof -
  have "\<exists>r m. WaitUntil (now 0 + remaining) p now p' 0 = Some (r, m) \<and> m \<le> n"
    if step: "\<forall>k. now k < now 0 + remaining \<longrightarrow> now k + fallback_sleep (now 0 + remaining - now k) \<le> now (Suc k)"
      and n: "remaining \<le> int n * quantum"
  proof -
    have "\<exists>j \<le> n. now 0 + remaining \<le> now j"
    proof (rule ccontr)
      assume "\<not> ?thesis"
      then have "\<forall>j < n. now j < now 0 + remaining" "now n < now 0 + remaining" by (meson less_imp_le linorder_not_le order_refl)+
      with fallback_progress [of now "now 0 + remaining" n] step n show False by auto
    qed
    then obtain j where "j \<le> n" "now 0 + remaining \<le> now j" by blast
    with WaitUntil_returns [of "now 0 + remaining" now j 0 p p'] show ?thesis by fastforce
  qed
  moreover have "fst (timespec_of remaining) * 1000000000 + snd (timespec_of remaining) = remaining"
    "0 \<le> fst (timespec_of remaining)" "0 \<le> snd (timespec_of remaining)" "snd (timespec_of remaining) < 1000000000"
    using trunc_pos [of remaining 1000000000] assms by (simp_all add: timespec_of_def pos_imp_zdiv_nonneg_iff)
  ultimately show ?thesis using assms by (simp add: fallback_sleep_def quantum_def)
qed

theorem park_times_wellformed_witness:
  "fst (timespec_of 1500000000) * 1000000000 + snd (timespec_of 1500000000) = 1500000000"
  using park_times_wellformed [of 1500000000] by simp

text \<open>The condition-variable waiter has no lost wakeup either: because the notifier passes
  through the mutex after making the predicate true, in every reachable state in which the
  predicate is true and every \<open>NotifyAll\<close> has completed, no waiter is blocked or about to block.\<close>

theorem condvar_no_lost_wakeup:
  assumes "reach condvar_init condvar_step s" "cflag s" "\<forall>j. cnotifiers s j = KIdle"
  shows "cwaiters s i \<noteq> VBlocked \<and> cwaiters s i \<noteq> VWait"
proof -
  have "cv_waiter_inv s i" using condvar.reach_inv [OF assms(1)] by (simp add: condvar_inv_def)
  with assms(2,3) show ?thesis by (auto simp: cv_waiter_inv_def)
qed

theorem condvar_no_lost_wakeup_witness:
  "cwaiters ((cv_notify_step 0 ^^ 4) ((cv_wait_step False 7 ^^ 4) condvar_start)) 7 \<noteq> VBlocked"
proof -
  let ?b = "(cv_notify_step 0 ^^ 4) ((cv_wait_step False 7 ^^ 4) condvar_start)"
  have "reach condvar_init condvar_step condvar_start" by (simp add: reach_init condvar_init_def)
  then have r: "reach condvar_init condvar_step ?b" by (intro reach_funpow cv_notify cv_wait)
  have "cflag ?b" "\<forall>j. cnotifiers ?b j = KIdle"
    by (simp_all add: numeral_eq_Suc cv_notify_step_def cv_wait_step_def condvar_start_def Let_def)
  with condvar_no_lost_wakeup [OF r] show ?thesis by blast
qed

end
