(* ===== verification/Serialization.thy ===== *)
theory Serialization
  imports Prelude "HOL-Library.Multiset"
begin

text \<open>
  \<open>serialization/byte_order.hpp\<close> and \<open>serialization/checksum.hpp\<close>: endian-aware loads and
  stores on caller-supplied buffers and the three integrity checks. A buffer is a byte list
  whose length the caller guarantees.
\<close>

section \<open>Byte order\<close>

definition load_be16 :: "u8 list \<Rightarrow> u16" where
  "load_be16 p = push_bit 8 (ucast (p ! 0)) OR ucast (p ! 1)"

definition load_be32 :: "u8 list \<Rightarrow> u32" where
  "load_be32 p = push_bit 24 (ucast (p ! 0)) OR push_bit 16 (ucast (p ! 1))
     OR push_bit 8 (ucast (p ! 2)) OR ucast (p ! 3)"

definition load_le16 :: "u8 list \<Rightarrow> u16" where
  "load_le16 p = push_bit 8 (ucast (p ! 1)) OR ucast (p ! 0)"

definition load_le32 :: "u8 list \<Rightarrow> u32" where
  "load_le32 p = push_bit 24 (ucast (p ! 3)) OR push_bit 16 (ucast (p ! 2))
     OR push_bit 8 (ucast (p ! 1)) OR ucast (p ! 0)"

definition load_be16s :: "u8 list \<Rightarrow> int" where
  "load_be16s p = sint (load_be16 p)"

definition load_be32s :: "u8 list \<Rightarrow> int" where
  "load_be32s p = sint (load_be32 p)"

definition load_le16s :: "u8 list \<Rightarrow> int" where
  "load_le16s p = sint (load_le16 p)"

definition load_le32s :: "u8 list \<Rightarrow> int" where
  "load_le32s p = sint (load_le32 p)"

definition store_be16 :: "u8 list \<Rightarrow> u16 \<Rightarrow> u8 list" where
  "store_be16 p v = p[0 := ucast (drop_bit 8 v), 1 := ucast v]"

definition store_be32 :: "u8 list \<Rightarrow> u32 \<Rightarrow> u8 list" where
  "store_be32 p v = p[0 := ucast (drop_bit 24 v), 1 := ucast (drop_bit 16 v),
     2 := ucast (drop_bit 8 v), 3 := ucast v]"

definition store_le16 :: "u8 list \<Rightarrow> u16 \<Rightarrow> u8 list" where
  "store_le16 p v = p[0 := ucast v, 1 := ucast (drop_bit 8 v)]"

definition store_le32 :: "u8 list \<Rightarrow> u32 \<Rightarrow> u8 list" where
  "store_le32 p v = p[0 := ucast v, 1 := ucast (drop_bit 8 v),
     2 := ucast (drop_bit 16 v), 3 := ucast (drop_bit 24 v)]"

lemmas byte_order_defs = load_be16_def load_be32_def load_le16_def load_le32_def
  store_be16_def store_be32_def store_le16_def store_le32_def

text \<open>A word is the disjunction of its bytes, and each byte comes back from it.\<close>

lemma u16_of_bytes: "push_bit 8 (ucast (ucast (drop_bit 8 v) :: u8)) OR ucast (ucast v :: u8) = (v :: u16)"
  by (rule bit_word_eqI) (auto simp: bit_simps)

lemma u32_of_bytes:
  "push_bit 24 (ucast (ucast (drop_bit 24 v) :: u8)) OR push_bit 16 (ucast (ucast (drop_bit 16 v) :: u8))
     OR push_bit 8 (ucast (ucast (drop_bit 8 v) :: u8)) OR ucast (ucast v :: u8) = (v :: u32)"
proof (rule bit_word_eqI, goal_cases)
  case (1 n)
  consider "n < 8" | "8 \<le> n" "n < 16" | "16 \<le> n" "n < 24" | "24 \<le> n" "n < 32" using 1 by force
  then show ?case by cases (auto simp: bit_simps)
qed

lemma bytes_of_u16:
  "ucast (drop_bit 8 (push_bit 8 (ucast a) OR ucast b :: u16)) = (a :: u8)"
  "ucast (push_bit 8 (ucast a) OR ucast b :: u16) = (b :: u8)"
  by (rule bit_word_eqI; auto simp: bit_simps dest: bit_imp_le_length)+

lemma bytes_of_u32:
  fixes a b c d :: u8
  defines "v \<equiv> push_bit 24 (ucast a) OR push_bit 16 (ucast b) OR push_bit 8 (ucast c) OR ucast d :: u32"
  shows "ucast (drop_bit 24 v) = a" "ucast (drop_bit 16 v) = b" "ucast (drop_bit 8 v) = c" "ucast v = d"
  unfolding v_def by (rule bit_word_eqI; auto simp: bit_simps dest: bit_imp_le_length)+

section \<open>Checksums\<close>

definition crc8_bit :: "u8 \<Rightarrow> u8" where
  "crc8_bit crc = (if crc AND 0x01 \<noteq> 0 then drop_bit 1 crc XOR 0x8C else drop_bit 1 crc)"

definition crc8_byte :: "u8 \<Rightarrow> u8 \<Rightarrow> u8" where
  "crc8_byte d crc = (crc8_bit ^^ 8) (crc XOR d)"

definition crc8_maxim :: "u8 list \<Rightarrow> u8" where
  "crc8_maxim data = fold crc8_byte data 0x00"

definition crc16_bit :: "u16 \<Rightarrow> u16" where
  "crc16_bit crc = (if crc AND 0x8000 \<noteq> 0 then push_bit 1 crc XOR 0x1021 else push_bit 1 crc)"

definition crc16_byte :: "u8 \<Rightarrow> u16 \<Rightarrow> u16" where
  "crc16_byte d crc = (crc16_bit ^^ 8) (crc XOR push_bit 8 (ucast d))"

definition crc16_xmodem :: "u8 list \<Rightarrow> u16" where
  "crc16_xmodem data = fold crc16_byte data 0x0000"

definition checksum_inverted_sum :: "u8 list \<Rightarrow> u8" where
  "checksum_inverted_sum data = NOT (fold (\<lambda>d sum. sum + d) data 0)"

subsection \<open>Bitwise behaviour of one step\<close>

lemma and_8000: "(x :: u16) AND 0x8000 \<noteq> 0 \<longleftrightarrow> bit x 15"
proof -
  have "(0x8000 :: u16) = 2 ^ 15" by simp
  then have e: "bit (x AND 0x8000) n \<longleftrightarrow> n = 15 \<and> bit x 15" for n
    by (simp only: bit_and_iff bit_exp_iff) auto
  show ?thesis
  proof
    show "bit x 15" if "x AND 0x8000 \<noteq> 0"
    proof (rule ccontr)
      assume "\<not> bit x 15"
      then have "x AND 0x8000 = 0" by (intro bit_word_eqI) (simp only: e, simp)
      with that show False by contradiction
    qed
    show "x AND 0x8000 \<noteq> 0" if "bit x 15" using that e [of 15] by auto
  qed
qed

lemma bit_shift1: "bit (push_bit 1 (x :: u16)) n \<longleftrightarrow> n < 16 \<and> 0 < n \<and> bit x (n - 1)"
  by (simp only: bit_push_bit_iff) (auto simp: Suc_le_eq)

lemma bit_crc8_bit: "bit (crc8_bit x) n \<longleftrightarrow> (bit x (Suc n) \<noteq> (bit x 0 \<and> bit (0x8C :: u8) n))"
  by (auto simp: crc8_bit_def and_one_word bit_simps bit_0)

lemma bit_crc16_bit:
  "bit (crc16_bit x) n \<longleftrightarrow> ((n < 16 \<and> 0 < n \<and> bit x (n - 1)) \<noteq> (bit x 15 \<and> bit (0x1021 :: u16) n))"
  unfolding crc16_bit_def and_8000 by (cases "bit x 15") (simp_all only: if_True if_False bit_xor_iff bit_shift1 simp_thms)

subsection \<open>Linear shift registers\<close>

text \<open>
  What both CRCs rely on: a register step that is linear over GF(2) and injective, and a byte
  loaded into it linearly and injectively.
\<close>

locale crc_register =
  fixes step :: "'w::len word \<Rightarrow> 'w word"
    and load :: "u8 \<Rightarrow> 'w word"
    and byte :: "u8 \<Rightarrow> 'w word \<Rightarrow> 'w word"
  assumes step_xor: "step (a XOR b) = step a XOR step b"
    and step_zero: "step a = 0 \<longleftrightarrow> a = 0"
    and load_xor: "load (d XOR e) = load d XOR load e"
    and load_zero: "load d = 0 \<longleftrightarrow> d = 0"
    and byte_eq: "byte d c = (step ^^ 8) (c XOR load d)"
begin

lemma steps_xor: "(step ^^ n) (a XOR b) = (step ^^ n) a XOR (step ^^ n) b"
  by (induction n) (simp_all add: step_xor)

lemma steps_zero: "(step ^^ n) a = 0 \<longleftrightarrow> a = 0"
  by (induction n) (simp_all add: step_zero)

lemma byte_xor: "byte (d XOR e) (a XOR b) = byte d a XOR byte e b"
  by (simp add: byte_eq load_xor steps_xor [symmetric] ac_simps)

lemma byte_inj: "byte d a = byte e b \<longleftrightarrow> a XOR load d = b XOR load e"
proof -
  have "byte d a = byte e b \<longleftrightarrow> (step ^^ 8) (a XOR load d) XOR (step ^^ 8) (b XOR load e) = 0"
    by (simp add: byte_eq word_xor_zero_iff)
  then show ?thesis by (simp only: steps_xor [symmetric] steps_zero word_xor_zero_iff)
qed

lemma frame_xor:
  assumes "length xs = length ys"
  shows "fold byte (map2 (XOR) xs ys) (a XOR b) = fold byte xs a XOR fold byte ys b"
  using assms by (induction xs ys arbitrary: a b rule: list_induct2) (simp_all add: byte_xor)

lemma frame_inj: "fold byte xs a = fold byte xs b \<longleftrightarrow> a = b"
  by (induction xs arbitrary: a b) (simp_all add: byte_inj)

lemma load_inj: "load d = load e \<longleftrightarrow> d = e"
  by (metis load_xor load_zero word_xor_zero_iff)

lemma single_byte_detected:
  assumes "d \<noteq> e"
  shows "fold byte (xs @ d # ys) a \<noteq> fold byte (xs @ e # ys) a"
  using assms by (simp add: frame_inj byte_inj load_inj)

end

lemma crc8_bit_zero: "crc8_bit x = 0 \<longleftrightarrow> x = 0"
proof
  assume z: "crc8_bit x = 0"
  have n: "\<not> bit x (Suc n) \<longleftrightarrow> \<not> (bit x 0 \<and> bit (0x8C :: u8) n)" for n
    using arg_cong [OF z, of "\<lambda>w. bit w n"] by (auto simp: bit_crc8_bit)
  have "\<not> bit x 8" by (auto dest: bit_imp_le_length)
  with n [of 7] have b0: "\<not> bit x 0" by (simp add: bit_numeral_rec)
  show "x = 0"
  proof (rule bit_word_eqI)
    fix i show "bit x i = bit 0 i" using b0 n [of "i - 1"] by (cases i) auto
  qed
qed (simp add: crc8_bit_def)

lemma crc16_bit_zero: "crc16_bit x = 0 \<longleftrightarrow> x = 0"
proof
  assume z: "crc16_bit x = 0"
  have n: "(n < 16 \<and> 0 < n \<and> bit x (n - 1)) \<longleftrightarrow> (bit x 15 \<and> bit (0x1021 :: u16) n)" for n
    using arg_cong [OF z, of "\<lambda>w. bit w n"] by (auto simp: bit_crc16_bit)
  from n [of 0] have b15: "\<not> bit x 15" by (simp add: bit_numeral_rec)
  show "x = 0"
  proof (rule bit_word_eqI)
    fix i assume "i < LENGTH(16)"
    then show "bit x i = bit 0 i" using b15 n [of "Suc i"] by (cases "i = 15") auto
  qed
qed (simp add: crc16_bit_def)

lemma crc8_bit_xor: "crc8_bit (a XOR b) = crc8_bit a XOR crc8_bit b"
  by (rule bit_word_eqI) (auto simp: bit_crc8_bit bit_xor_iff)

lemma crc16_bit_xor: "crc16_bit (a XOR b) = crc16_bit a XOR crc16_bit b"
  by (rule bit_word_eqI) (auto simp: bit_crc16_bit bit_xor_iff)

lemma load16_zero: "push_bit 8 (ucast d :: u16) = 0 \<longleftrightarrow> d = (0 :: u8)"
proof
  assume z: "push_bit 8 (ucast d :: u16) = 0"
  show "d = 0"
  proof (rule bit_word_eqI)
    fix i assume "i < LENGTH(8)"
    then show "bit d i = bit 0 i" using arg_cong [OF z, of "\<lambda>w. bit w (i + 8)"] by (simp add: bit_simps)
  qed
qed simp

interpretation crc8: crc_register crc8_bit "\<lambda>d. d" crc8_byte
  by unfold_locales (simp_all add: crc8_bit_xor crc8_bit_zero crc8_byte_def)

interpretation crc16: crc_register crc16_bit "\<lambda>d. push_bit 8 (ucast d)" crc16_byte
  by unfold_locales
    (simp_all add: crc16_bit_xor crc16_bit_zero crc16_byte_def load16_zero unsigned_xor_eq)

subsection \<open>The division the CRC-16 computes\<close>

text \<open>
  Reference: long division of a bit string, most significant coefficient first, by
  \<open>x^16 + x^12 + x^5 + 1\<close> over GF(2). The register holds the remainder so far; the next
  coefficient is shifted in, and the divisor subtracted when \<open>x^16\<close> appears.
\<close>

definition div_shift :: "bool \<Rightarrow> u16 \<Rightarrow> u16" where
  "div_shift b r = (let t = push_bit 1 r XOR (if b then 1 else 0) in if bit r 15 then t XOR 0x1021 else t)"

definition poly_rem :: "bool list \<Rightarrow> u16" where
  "poly_rem bs = fold div_shift bs 0"

definition byte_bits :: "u8 \<Rightarrow> bool list" where
  "byte_bits d = map (bit d) (rev [0..<8])"

lemma div_shift_eq: "div_shift b r = crc16_bit r XOR (if b then 1 else 0)"
  by (simp add: div_shift_def crc16_bit_def and_8000 Let_def ac_simps del: push_bit_Suc)

lemma div_fold: "fold div_shift bs r = (crc16_bit ^^ length bs) r XOR fold div_shift bs 0"
proof (induction bs arbitrary: r)
  case Nil
  then show ?case by simp
next
  case (Cons b bs)
  let ?u = "if b then 1 else 0 :: u16"
  have "fold div_shift (b # bs) r = fold div_shift bs (crc16_bit r XOR ?u)"
    by (simp only: fold_simps div_shift_eq)
  also have "\<dots> = (crc16_bit ^^ length bs) (crc16_bit r) XOR
      ((crc16_bit ^^ length bs) ?u XOR fold div_shift bs 0)"
    by (subst Cons.IH) (simp only: crc16.steps_xor xor.assoc)
  also have "(crc16_bit ^^ length bs) ?u XOR fold div_shift bs 0 = fold div_shift bs ?u"
    by (rule Cons.IH [symmetric])
  also have "fold div_shift bs ?u = fold div_shift (b # bs) 0"
    by (simp only: fold_simps div_shift_eq crc16_bit_zero [THEN iffD2, OF refl] xor.left_neutral)
  also have "(crc16_bit ^^ length bs) (crc16_bit r) = (crc16_bit ^^ length (b # bs)) r"
    by (simp add: funpow_swap1)
  finally show ?case .
qed

text \<open>A register that holds only a byte is shifted without a subtraction.\<close>

lemma crc16_small_shift:
  assumes "\<And>i. bit x i \<Longrightarrow> i < 8" "n \<le> 8"
  shows "(crc16_bit ^^ n) x = push_bit n x"
  using assms(2)
proof (induction n)
  case (Suc n)
  have "\<not> bit (push_bit n x) 15" using assms(1) [of "15 - n"] Suc.prems by (auto simp: bit_push_bit_iff)
  then have "crc16_bit (push_bit n x) = push_bit 1 (push_bit n x)" by (simp only: crc16_bit_def and_8000 if_False)
  with Suc show ?case by (simp only: funpow.simps o_apply push_bit_push_bit) simp
qed simp

lemma byte_small: "bit (ucast (d :: u8) :: u16) i \<Longrightarrow> i < 8"
  by (auto simp: bit_simps dest: bit_imp_le_length)

lemma byte_bits_rem: "fold div_shift (byte_bits d) 0 = ucast d"
proof -
  have "fold div_shift (map (bit d) (rev [8 - k..<8])) 0 = ucast (drop_bit (8 - k) d)" if "k \<le> 8" for k
    using that
  proof (induction k)
    case 0
    then show ?case by (auto intro!: bit_word_eqI simp: bit_simps dest: bit_imp_le_length)
  next
    case (Suc k)
    let ?x = "ucast (drop_bit (8 - k) d) :: u16"
    have "[8 - Suc k..<8] = (8 - Suc k) # [8 - k..<8]" 
      using Suc.prems by (subst upt_conv_Cons) (simp_all add: Suc_diff_le flip: Suc_diff_Suc)
    then have "fold div_shift (map (bit d) (rev [8 - Suc k..<8])) 0 = div_shift (bit d (8 - Suc k)) ?x"
      using Suc by simp
    also have "\<dots> = ucast (drop_bit (8 - Suc k) d)"
    proof (rule bit_word_eqI)
      fix i assume i: "i < LENGTH(16)"
      have small: "bit ?x j \<longleftrightarrow> j < 8 \<and> bit d (8 - k + j)" for j
        by (auto simp: bit_simps dest: bit_imp_le_length)
      obtain m where m: "8 - k = Suc m" "8 - Suc k = m" "7 - k = m" using Suc.prems by (cases "8 - k") auto
      show "bit (div_shift (bit d (8 - Suc k)) ?x) i = bit (ucast (drop_bit (8 - Suc k) d) :: u16) i"
        using i by (cases i) (auto simp: div_shift_eq bit_crc16_bit small bit_simps m dest: bit_imp_le_length)
    qed
    finally show ?case .
  qed
  from this [of 8] show ?thesis by (simp add: byte_bits_def)
qed

lemma crc16_division:
  "crc16_xmodem data = (crc16_bit ^^ 16) (poly_rem (concat (map byte_bits data)))"
proof (induction data rule: rev_induct)
  case Nil
  show ?case by (simp add: crc16_xmodem_def poly_rem_def crc16.steps_zero)
next
  case (snoc d data)
  let ?R = "poly_rem (concat (map byte_bits data))"
  have sh: "push_bit 8 (ucast d) = (crc16_bit ^^ 8) (ucast d)"
    using crc16_small_shift [of "ucast d" 8] byte_small by (simp del: push_bit_Suc)
  have "crc16_xmodem (data @ [d]) = (crc16_bit ^^ 8) ((crc16_bit ^^ 16) ?R XOR (crc16_bit ^^ 8) (ucast d))"
    using snoc.IH by (simp only: crc16_xmodem_def fold_append fold_simps o_apply crc16_byte_def sh)
  also have "\<dots> = (crc16_bit ^^ 16) ((crc16_bit ^^ 8) ?R XOR ucast d)"
    by (simp only: crc16.steps_xor funpow_add [symmetric, unfolded o_def, THEN fun_cong] ) (simp add: funpow_add [symmetric, unfolded o_def, THEN fun_cong])
  also have "(crc16_bit ^^ 8) ?R XOR ucast d = poly_rem (concat (map byte_bits (data @ [d])))"
    unfolding poly_rem_def by (simp add: div_fold [of "byte_bits d" "fold _ _ _"] byte_bits_rem) (simp add: byte_bits_def)
  finally show ?case .
qed

section \<open>Properties\<close>

text \<open>Every store is read back by the load of the same width and byte order, touches
  nothing behind its bytes, and storing what a load returned changes nothing.\<close>

theorem byte_order_roundtrip:
  assumes "4 \<le> length p"
  shows "load_be16 (store_be16 p v) = v \<and> load_le16 (store_le16 p v) = v \<and>
    load_be32 (store_be32 p w) = w \<and> load_le32 (store_le32 p w) = w \<and>
    store_be16 p (load_be16 p) = p \<and> store_le16 p (load_le16 p) = p \<and>
    store_be32 p (load_be32 p) = p \<and> store_le32 p (load_le32 p) = p \<and>
    drop 2 (store_be16 p v) = drop 2 p \<and> drop 2 (store_le16 p v) = drop 2 p \<and>
    drop 4 (store_be32 p w) = drop 4 p \<and> drop 4 (store_le32 p w) = drop 4 p"
proof -
  obtain a b c d q where p: "p = a # b # c # d # q"
    using assms by (auto simp: numeral_eq_Suc Suc_le_length_iff)
  have "load_be16 (store_be16 p v) = v" "load_le16 (store_le16 p v) = v"
    "load_be32 (store_be32 p w) = w" "load_le32 (store_le32 p w) = w"
    using u16_of_bytes [of v] u32_of_bytes [of w] by (simp_all add: p byte_order_defs ac_simps)
  moreover have "store_be16 p (load_be16 p) = p" "store_le16 p (load_le16 p) = p"
    using bytes_of_u16 [of a b] bytes_of_u16 [of b a] by (simp_all add: p byte_order_defs)
  moreover have "store_be32 p (load_be32 p) = p" "store_le32 p (load_le32 p) = p"
    using bytes_of_u32 [of a b c d] bytes_of_u32 [of d c b a] by (simp_all add: p byte_order_defs)
  ultimately show ?thesis by (simp add: p byte_order_defs)
qed

theorem byte_order_roundtrip_witness:
  "load_le32 (store_le32 [9, 9, 9, 9, 9] 0x01020304) = 0x01020304 \<and> drop 4 (store_le32 [9, 9, 9, 9, 9] 0x01020304) = [9]"
  using byte_order_roundtrip [of "[9, 9, 9, 9, 9]" 0 "0x01020304"] by simp

lemma signed_of_bytes:
  assumes "(x :: int) < 256" "y < 256" "0 \<le> x" "0 \<le> y"
  shows "signed_take_bit 15 (256 * x + y) = (if x < 128 then 256 * x + y else 256 * x + y - 65536)"
proof -
  have "(256 * x + y + 32768) mod 65536 = (if x < 128 then 256 * x + y + 32768 else 256 * x + y - 32768)"
  proof (cases "x < 128")
    case True
    with assms show ?thesis by simp
  next
    case False
    have "(256 * x + y + 32768) mod 65536 = (256 * x + y - 32768 + 1 * 65536) mod 65536" by (simp add: algebra_simps)
    also have "\<dots> = (256 * x + y - 32768) mod 65536" by (rule mod_mult_self1)
    also have "\<dots> = 256 * x + y - 32768" using False assms by (intro mod_pos_pos_trivial) auto
    finally show ?thesis using False by simp
  qed
  then show ?thesis by (simp add: signed_take_bit_eq_take_bit_shift take_bit_eq_mod)
qed

text \<open>The two byte orders are mirror images: reading one order is reading the other on
  the reversed bytes, and the signed loads are the two's complement reading of the same bytes.\<close>

theorem byte_order_mirror:
  "load_be16 [a, b] = load_le16 [b, a] \<and> load_be32 [a, b, c, d] = load_le32 [d, c, b, a] \<and>
   store_be32 [a, b, c, d] w = rev (store_le32 [a, b, c, d] w) \<and> store_be16 [a, b] v = rev (store_le16 [a, b] v) \<and>
   unat (load_be16 [a, b]) = 256 * unat a + unat b \<and>
   load_be16s [a, b] = (if unat a < 128 then 256 * uint a + uint b else 256 * uint a + uint b - 65536)"
proof -
  have disj: "push_bit 8 (ucast a) OR ucast b = (push_bit 8 (ucast a) + ucast b :: u16)"
    by (intro disjunctive_add [symmetric]) (auto simp: bit_simps dest: bit_imp_le_length)
  have ab: "uint (load_be16 [a, b]) = 256 * uint a + uint b"
  proof -
    have "uint a < 256" "uint b < 256" using unsigned_less [of a] unsigned_less [of b] by auto
    moreover have "load_be16 [a, b] = push_bit 8 (ucast a) + ucast b"
      using disj by (simp add: load_be16_def)
    ultimately show ?thesis
      by (simp add: uint_word_ariths push_bit_eq_mult unsigned_ucast_eq take_bit_int_eq_self)
  qed
  moreover have "unat (load_be16 [a, b]) = 256 * unat a + unat b"
    using ab by (metis (mono_tags, opaque_lifting) of_nat_add of_nat_eq_iff of_nat_mult of_nat_numeral uint_nat)
  moreover have "load_be16s [a, b] = (if unat a < 128 then 256 * uint a + uint b else 256 * uint a + uint b - 65536)"
  proof -
    have r: "uint a < 256" "uint b < 256" "0 \<le> uint a" "0 \<le> uint b" using unsigned_less [of a] unsigned_less [of b] by auto
    have c: "unat a < 128 \<longleftrightarrow> uint a < 128" by (simp only: uint_nat) linarith
    have "sint (load_be16 [a, b]) = signed_take_bit 15 (256 * uint a + uint b)" by (simp add: sint_uint ab)
    then show ?thesis unfolding load_be16s_def c using signed_of_bytes [OF r] by simp
  qed
  moreover have "load_be16 [a, b] = load_le16 [b, a]" "load_be32 [a, b, c, d] = load_le32 [d, c, b, a]"
    "store_be32 [a, b, c, d] w = rev (store_le32 [a, b, c, d] w)" "store_be16 [a, b] v = rev (store_le16 [a, b] v)"
    by (simp_all add: byte_order_defs)
  ultimately show ?thesis by blast
qed

lemma check_values:
  "crc8_maxim [0x31, 0x32, 0x33, 0x34, 0x35, 0x36, 0x37, 0x38, 0x39] = 0xA1"
  "crc16_xmodem [0x31, 0x32, 0x33, 0x34, 0x35, 0x36, 0x37, 0x38, 0x39] = 0x31C3"
proof -
  have eight: "(f ^^ 8) x = f (f (f (f (f (f (f (f x)))))))" for f :: "'b \<Rightarrow> 'b" and x
    by (simp add: numeral_eq_Suc)
  show "crc8_maxim [0x31, 0x32, 0x33, 0x34, 0x35, 0x36, 0x37, 0x38, 0x39] = 0xA1"
    by (simp add: crc8_maxim_def crc8_byte_def crc8_bit_def eight)
  show "crc16_xmodem [0x31, 0x32, 0x33, 0x34, 0x35, 0x36, 0x37, 0x38, 0x39] = 0x31C3"
    by (simp add: crc16_xmodem_def crc16_byte_def crc16_bit_def eight)
qed

text \<open>Property C13. \<open>crc16_xmodem\<close> is the remainder of the message, followed by sixteen zero bits,
  on division by \<open>x^16 + x^12 + x^5 + 1\<close>; the documented check value of the ASCII digits
  holds.\<close>

theorem crc16_is_poly_remainder:
  "crc16_xmodem data = poly_rem (concat (map byte_bits data) @ replicate 16 False) \<and>
   crc16_xmodem [0x31, 0x32, 0x33, 0x34, 0x35, 0x36, 0x37, 0x38, 0x39] = 0x31C3"
proof -
  have "fold div_shift (replicate n False) r = (crc16_bit ^^ n) r" for n r
    by (induction n arbitrary: r) (simp_all add: div_shift_eq funpow_swap1)
  then have "poly_rem (concat (map byte_bits data) @ replicate 16 False) = (crc16_bit ^^ 16) (poly_rem (concat (map byte_bits data)))"
    by (simp only: poly_rem_def fold_append o_apply)
  then show ?thesis
    using crc16_division [of data] check_values(2) by simp
qed

text \<open>Property C40. Both CRCs detect every corruption confined to one byte, wherever it is in the
  frame; a frame followed by its CRC (CRC-16 high byte first) has CRC zero, which is how a
  receiver checks it; and \<open>crc8_maxim\<close> of the digits 1 to 9 is the documented check value \<open>0xA1\<close>.\<close>

theorem crc_detects_and_closes:
  "(d \<noteq> e \<longrightarrow> crc8_maxim (xs @ d # ys) \<noteq> crc8_maxim (xs @ e # ys) \<and>
      crc16_xmodem (xs @ d # ys) \<noteq> crc16_xmodem (xs @ e # ys)) \<and>
   crc8_maxim (xs @ [crc8_maxim xs]) = 0 \<and>
   crc16_xmodem (xs @ [ucast (drop_bit 8 (crc16_xmodem xs)), ucast (crc16_xmodem xs)]) = 0 \<and>
   crc8_maxim [0x31, 0x32, 0x33, 0x34, 0x35, 0x36, 0x37, 0x38, 0x39] = 0xA1"
proof (intro conjI impI)
  show "crc8_maxim [0x31, 0x32, 0x33, 0x34, 0x35, 0x36, 0x37, 0x38, 0x39] = 0xA1" by (rule check_values(1))
  show "crc8_maxim (xs @ d # ys) \<noteq> crc8_maxim (xs @ e # ys)" if "d \<noteq> e"
    unfolding crc8_maxim_def using that by (rule crc8.single_byte_detected)
  show "crc16_xmodem (xs @ d # ys) \<noteq> crc16_xmodem (xs @ e # ys)" if "d \<noteq> e"
    unfolding crc16_xmodem_def using that by (rule crc16.single_byte_detected)
  show "crc8_maxim (xs @ [crc8_maxim xs]) = 0"
    by (simp add: crc8_maxim_def crc8_byte_def crc8.steps_zero)
  let ?c = "crc16_xmodem xs"
  let ?lo = "ucast (ucast ?c :: u8) :: u16"
  have hi: "?c XOR push_bit 8 (ucast (ucast (drop_bit 8 ?c) :: u8)) = ?lo"
    by (rule bit_word_eqI) (auto simp: bit_simps)
  have lo: "(crc16_bit ^^ 8) ?lo = push_bit 8 ?lo" by (rule crc16_small_shift) (rule byte_small, assumption, simp)
  have "crc16_xmodem (xs @ [ucast (drop_bit 8 ?c), ucast ?c]) =
      crc16_byte (ucast ?c) (crc16_byte (ucast (drop_bit 8 ?c)) ?c)" by (simp add: crc16_xmodem_def)
  also have "crc16_byte (ucast (drop_bit 8 ?c)) ?c = push_bit 8 ?lo" unfolding crc16_byte_def hi lo ..
  also have "crc16_byte (ucast ?c) (push_bit 8 ?lo) = 0" unfolding crc16_byte_def xor_self_eq by (simp only: crc16.steps_zero)
  finally show "crc16_xmodem (xs @ [ucast (drop_bit 8 ?c), ucast ?c]) = 0" .
qed

theorem crc_detects_and_closes_witness:
  "crc8_maxim ([0x31, 0x32] @ 0x33 # []) \<noteq> crc8_maxim ([0x31, 0x32] @ 0x34 # [])"
  using crc_detects_and_closes [of "0x33" "0x34" "[0x31, 0x32]" "[]"] by simp

text \<open>CRCs are linear: the CRC of the bytewise exclusive-or of two frames of equal length
  is the exclusive-or of their CRCs. The documented check value of \<open>crc8_maxim\<close> holds.\<close>

theorem crc_linear:
  assumes "length xs = length ys"
  shows "crc8_maxim (map2 (XOR) xs ys) = crc8_maxim xs XOR crc8_maxim ys \<and>
    crc16_xmodem (map2 (XOR) xs ys) = crc16_xmodem xs XOR crc16_xmodem ys \<and>
    crc8_maxim [0x31, 0x32, 0x33, 0x34, 0x35, 0x36, 0x37, 0x38, 0x39] = 0xA1"
  using crc8.frame_xor [OF assms, of 0 0] crc16.frame_xor [OF assms, of 0 0]

    check_values(1) unfolding crc8_maxim_def crc16_xmodem_def by simp

theorem crc_linear_witness:
  "crc8_maxim (map2 (XOR) [1, 2, 3] [4, 5, 6]) = crc8_maxim [1, 2, 3] XOR crc8_maxim [4, 5, 6]"
  using crc_linear [of "[1, 2, 3]" "[4, 5, 6]"] by simp

text \<open>The additive checksum closes a frame to \<open>0xFF\<close>, does not depend on the order of
  the bytes, and changes with any single byte.\<close>

theorem inverted_sum_closes:
  "sum_list data + checksum_inverted_sum data = 0xFF \<and>
   (mset data = mset data' \<longrightarrow> checksum_inverted_sum data = checksum_inverted_sum data') \<and>
   (d \<noteq> e \<longrightarrow> checksum_inverted_sum (xs @ d # ys) \<noteq> checksum_inverted_sum (xs @ e # ys))"
proof -
  have s: "fold (\<lambda>d sum. sum + d) data (a :: u8) = a + sum_list data" for data a
    by (induction data arbitrary: a) (simp_all add: ac_simps)
  have c: "checksum_inverted_sum data = - 1 - sum_list data" for data
    by (simp add: checksum_inverted_sum_def s not_eq_complement)
  have "(- 1 :: u8) = 0xFF" by simp
  then show ?thesis by (auto simp: c simp flip: sum_mset_sum_list)
qed

theorem inverted_sum_closes_witness:
  "checksum_inverted_sum ([1, 2] @ 3 # [4]) \<noteq> checksum_inverted_sum ([1, 2] @ 5 # [4])"
  using inverted_sum_closes [of "[]" "[]" 3 5 "[1, 2]" "[4]"] by simp

end
