(* ===== verification/Arg_Pack.thy ===== *)
theory Arg_Pack
  imports Prelude
begin

text \<open>
  The deferred-format argument pack of \<open>telemetry/binding.hpp\<close>: \<open>ArgPack\<close>, \<open>PutRaw\<close>,
  \<open>PackStr\<close>, \<open>PackOne\<close> and \<open>PackArgs\<close>, with the decoding that every formatter starts from. Counts,
  offsets and lengths are the 8-bit fields of the code.
\<close>

section \<open>Data\<close>

datatype ArgType = kBool | kI64 | kU64 | kF64 | kStr

record ArgPack =
  argc :: u8
  argtypes :: "ArgType list"
  offsets :: "u8 list"
  lens :: "u8 list"
  packed :: u8
  buf :: "u8 list"

definition kMaxArgs :: nat where
  "kMaxArgs = 8"

definition kBufBytes :: nat where
  "kBufBytes = 160"

definition empty_pack :: ArgPack where
  "empty_pack = \<lparr>argc = 0, argtypes = replicate kMaxArgs kBool, offsets = replicate kMaxArgs 0,
     lens = replicate kMaxArgs 0, packed = 0, buf = replicate kBufBytes 0\<rparr>"

text \<open>The argument classes \<open>PackOne\<close> distinguishes; a double is its bit pattern, a null
  \<open>const char*\<close> is \<open>None\<close>.\<close>

datatype arg = ABool bool | AInt u64 | AUint u64 | ADouble u64 | AStr "string option"

definition byte_of_char :: "char \<Rightarrow> u8" where
  "byte_of_char c = of_nat (of_char c)"

definition char_of_byte :: "u8 \<Rightarrow> char" where
  "char_of_byte b = char_of (unat b)"

section \<open>Packing\<close>

definition PutRaw :: "ArgType \<Rightarrow> u8 list \<Rightarrow> nat \<Rightarrow> ArgPack \<Rightarrow> bool \<times> ArgPack" where
  "PutRaw t bytes display_len p =
     (if kMaxArgs \<le> unat (argc p) \<or> kBufBytes < unat (packed p) + length bytes then (False, p)
      else (True, p\<lparr>argtypes := (argtypes p)[unat (argc p) := t],
             offsets := (offsets p)[unat (argc p) := packed p],
             lens := (lens p)[unat (argc p) := of_nat display_len],
             buf := overwrite (unat (packed p)) bytes (buf p),
             packed := packed p + of_nat (length bytes),
             argc := argc p + 1\<rparr>))"

definition PackStr :: "string \<Rightarrow> ArgPack \<Rightarrow> ArgPack" where
  "PackStr v p =
     (let n = length v;
          n = (if kBufBytes < unat (packed p) + n then kBufBytes - unat (packed p) else n);
          n = (if 255 < n then 255 else n)
      in snd (PutRaw kStr (map byte_of_char (take n v)) n p))"

fun PackOne :: "arg \<Rightarrow> ArgPack \<Rightarrow> ArgPack" where
  "PackOne (ABool v) p = snd (PutRaw kBool [if v then 1 else 0] 0 p)"
| "PackOne (AStr v) p = PackStr (case v of None \<Rightarrow> ''(null)'' | Some s \<Rightarrow> s) p"
| "PackOne (AInt w) p = snd (PutRaw kI64 (bytes_of_u64 w) 0 p)"
| "PackOne (AUint w) p = snd (PutRaw kU64 (bytes_of_u64 w) 0 p)"
| "PackOne (ADouble w) p = snd (PutRaw kF64 (bytes_of_u64 w) 0 p)"

definition PackArgs :: "arg list \<Rightarrow> ArgPack" where
  "PackArgs args = fold PackOne args empty_pack"

section \<open>Decoding\<close>

text \<open>What a formatter reads back for argument \<open>i\<close>: \<open>src = buf + offsets[i]\<close> by \<open>types[i]\<close>.\<close>

fun decode :: "ArgType \<Rightarrow> nat \<Rightarrow> u8 list \<Rightarrow> arg" where
  "decode kBool n src = ABool (src ! 0 \<noteq> 0)"
| "decode kI64 n src = AInt (u64_of_bytes (take 8 src))"
| "decode kU64 n src = AUint (u64_of_bytes (take 8 src))"
| "decode kF64 n src = ADouble (u64_of_bytes (take 8 src))"
| "decode kStr n src = AStr (Some (map char_of_byte (take n src)))"

definition arg_at :: "ArgPack \<Rightarrow> nat \<Rightarrow> arg" where
  "arg_at p i = decode (argtypes p ! i) (unat (lens p ! i)) (drop (unat (offsets p ! i)) (buf p))"

definition unpack :: "ArgPack \<Rightarrow> arg list" where
  "unpack p = map (arg_at p) [0..<unat (argc p)]"

section \<open>Reference\<close>

text \<open>
  What survives packing \<open>c\<close> arguments and \<open>u\<close> bytes in: a string is cut to the room left,
  another argument that does not fit is dropped, and nothing is kept after eight.
\<close>

fun arg_size :: "arg \<Rightarrow> nat" where
  "arg_size (ABool _) = 1"
| "arg_size (AStr s) = length (case s of None \<Rightarrow> ''(null)'' | Some s \<Rightarrow> s)"
| "arg_size _ = 8"

fun kept :: "nat \<Rightarrow> arg \<Rightarrow> arg option" where
  "kept room (AStr s) = Some (AStr (Some (take room (case s of None \<Rightarrow> ''(null)'' | Some s \<Rightarrow> s))))"
| "kept room a = (if arg_size a \<le> room then Some a else None)"

fun pack_ref :: "nat \<Rightarrow> nat \<Rightarrow> arg list \<Rightarrow> arg list" where
  "pack_ref c u [] = []"
| "pack_ref c u (a # as) =
     (if kMaxArgs \<le> c then []
      else case kept (kBufBytes - u) a of
             None \<Rightarrow> pack_ref c u as
           | Some b \<Rightarrow> b # pack_ref (Suc c) (u + arg_size b) as)"

section \<open>Invariant\<close>

lemma char_byte [simp]: "char_of_byte (byte_of_char c) = c"
proof -
  have "of_char c < (256 :: nat)" by simp
  then have "unat (of_nat (of_char c) :: u8) = of_char c" by (simp add: unsigned_of_nat take_bit_nat_eq_self)
  then show ?thesis by (simp add: char_of_byte_def byte_of_char_def)
qed

text \<open>The bytes an argument occupies; decoding looks at no others.\<close>

fun raw_len :: "ArgType \<Rightarrow> nat \<Rightarrow> nat" where
  "raw_len kBool n = 1"
| "raw_len kStr n = n"
| "raw_len _ n = 8"

lemma decode_cong:
  assumes "take (raw_len t n) src = take (raw_len t n) src'"
  shows "decode t n src = decode t n src'"
proof (cases t)
  case kBool
  with assms have "take 1 src = take 1 src'" by simp
  then have "src ! 0 = src' ! 0" by (cases src; cases src') auto
  with kBool show ?thesis by simp
qed (use assms in simp_all)

definition pack_inv :: "ArgPack \<Rightarrow> bool" where
  "pack_inv p \<longleftrightarrow> unat (argc p) \<le> kMaxArgs \<and> unat (packed p) \<le> kBufBytes \<and>
     length (argtypes p) = kMaxArgs \<and> length (offsets p) = kMaxArgs \<and> length (lens p) = kMaxArgs \<and>
     length (buf p) = kBufBytes \<and>
     (\<forall>i < unat (argc p). unat (offsets p ! i) + raw_len (argtypes p ! i) (unat (lens p ! i)) \<le> unat (packed p))"

lemma empty_pack_inv: "pack_inv empty_pack" "unpack empty_pack = []"
  by (simp_all add: pack_inv_def empty_pack_def unpack_def)

lemma u8_plus: "unat (a :: u8) + n < 256 \<Longrightarrow> unat (a + of_nat n) = unat a + n"
  by (simp add: unat_word_ariths unsigned_of_nat take_bit_eq_mod)

lemma PutRaw_full: "kMaxArgs \<le> unat (argc p) \<or> kBufBytes < unat (packed p) + length bytes \<Longrightarrow> PutRaw t bytes n p = (False, p)"
  by (simp add: PutRaw_def)

lemma PutRaw_fits:
  assumes "pack_inv p" "unat (argc p) < kMaxArgs" "unat (packed p) + length bytes \<le> kBufBytes"
    and n: "length bytes = raw_len t n" "n < 256"
  defines "p' \<equiv> snd (PutRaw t bytes n p)"
  shows "pack_inv p'" "unpack p' = unpack p @ [decode t n bytes]"
    "unat (argc p') = Suc (unat (argc p))" "unat (packed p') = unat (packed p) + length bytes"
proof -
  let ?c = "unat (argc p)" and ?u = "unat (packed p)"
  have I: "length (argtypes p) = kMaxArgs" "length (offsets p) = kMaxArgs" "length (lens p) = kMaxArgs" "length (buf p) = kBufBytes"
    "\<And>i. i < ?c \<Longrightarrow> unat (offsets p ! i) + raw_len (argtypes p ! i) (unat (lens p ! i)) \<le> ?u"
    using assms(1) by (auto simp: pack_inv_def)
  have p': "p' = p\<lparr>argtypes := (argtypes p)[?c := t], offsets := (offsets p)[?c := packed p],
      lens := (lens p)[?c := of_nat n], buf := overwrite ?u bytes (buf p),
      packed := packed p + of_nat (length bytes), argc := argc p + 1\<rparr>"
    using assms(2,3) by (simp add: p'_def PutRaw_def)
  show c: "unat (argc p') = Suc ?c" using assms(2) u8_plus [of "argc p" 1] by (simp add: p' kMaxArgs_def)
  show u: "unat (packed p') = ?u + length bytes" using assms(3) u8_plus [of "packed p" "length bytes"] by (simp add: p' kBufBytes_def)
  have fit: "?u + length bytes \<le> length (buf p)" using assms(3) I(4) by simp
  have n8: "unat (of_nat n :: u8) = n" using n(2) by (simp add: unsigned_of_nat take_bit_nat_eq_self)
  have new: "arg_at p' ?c = decode t n bytes"
  proof -
    have "arg_at p' ?c = decode t n (drop ?u (overwrite ?u bytes (buf p)))"
      using I assms(2) by (simp add: arg_at_def p' n8)
    also have "\<dots> = decode t n bytes"
      using overwrite_parts(2) [OF fit] n(1) by (intro decode_cong) simp
    finally show ?thesis .
  qed
  have old: "arg_at p' i = arg_at p i" if "i < ?c" for i
  proof -
    have "arg_at p' i = decode (argtypes p ! i) (unat (lens p ! i)) (drop (unat (offsets p ! i)) (overwrite ?u bytes (buf p)))"
      using that by (simp add: arg_at_def p')
    also have "\<dots> = arg_at p i"
      unfolding arg_at_def using overwrite_before [OF I(5) [OF that] fit] by (intro decode_cong)
    finally show ?thesis .
  qed
  have "map (arg_at p') [0..<?c] = map (arg_at p) [0..<?c]" by (simp add: old)
  then show "unpack p' = unpack p @ [decode t n bytes]"
    unfolding unpack_def c by (simp add: new)
  have "unat (offsets p' ! i) + raw_len (argtypes p' ! i) (unat (lens p' ! i)) \<le> unat (packed p')" if "i < Suc ?c" for i
  proof (cases "i = ?c")
    case True
    with I assms(2) n n8 u show ?thesis by (simp add: p')
  next
    case False
    with that have "i < ?c" by simp
    with I(5) [of i] u show ?thesis by (simp add: p')
  qed
  then show "pack_inv p'"
    unfolding pack_inv_def using c u I(1-4) assms(2,3) fit by (simp add: p')
qed

text \<open>One argument, against the reference.\<close>

lemma PackOne_kept:
  assumes "pack_inv p" "unat (argc p) < kMaxArgs"
  shows "case kept (kBufBytes - unat (packed p)) a of
      None \<Rightarrow> PackOne a p = p
    | Some b \<Rightarrow> pack_inv (PackOne a p) \<and> unpack (PackOne a p) = unpack p @ [b] \<and>
        unat (argc (PackOne a p)) = Suc (unat (argc p)) \<and> unat (packed (PackOne a p)) = unat (packed p) + arg_size b"
proof -
  let ?u = "unat (packed p)"
  have u: "?u \<le> kBufBytes" using assms(1) by (simp add: pack_inv_def)
  note fits = PutRaw_fits [OF assms]
  show ?thesis
  proof (cases a)
    case (AStr v)
    let ?s = "case v of None \<Rightarrow> ''(null)'' | Some s \<Rightarrow> s"
    let ?t = "take (kBufBytes - ?u) ?s"
    have "PackStr ?s p = snd (PutRaw kStr (map byte_of_char ?t) (length ?t) p)"
      using u by (auto simp: PackStr_def Let_def kBufBytes_def min_def)
    moreover have "?u + length (map byte_of_char ?t) \<le> kBufBytes" "length ?t < 256"
      using u by (auto simp: kBufBytes_def)
    ultimately show ?thesis
      using fits [of "map byte_of_char ?t" kStr "length ?t"] AStr by (simp add: comp_def)
  next
    case (ABool v)
    then show ?thesis
      using fits [of "[if v then 1 else 0]" kBool 0] PutRaw_full [of p "[if v then 1 else 0]" kBool 0] u
      by (cases "Suc ?u \<le> kBufBytes") auto
  next
    case (AInt w)
    then show ?thesis
      using fits [of "bytes_of_u64 w" kI64 0] PutRaw_full [of p "bytes_of_u64 w" kI64 0] u
      by (cases "?u + 8 \<le> kBufBytes") auto
  next
    case (AUint w)
    then show ?thesis
      using fits [of "bytes_of_u64 w" kU64 0] PutRaw_full [of p "bytes_of_u64 w" kU64 0] u
      by (cases "?u + 8 \<le> kBufBytes") auto
  next
    case (ADouble w)
    then show ?thesis
      using fits [of "bytes_of_u64 w" kF64 0] PutRaw_full [of p "bytes_of_u64 w" kF64 0] u
      by (cases "?u + 8 \<le> kBufBytes") auto
  qed
qed

lemma PackOne_full: "kMaxArgs \<le> unat (argc p) \<Longrightarrow> PackOne a p = p"
  by (cases a) (simp_all add: PutRaw_full PackStr_def Let_def)

lemma fold_PackOne:
  assumes "pack_inv p"
  shows "pack_inv (fold PackOne as p) \<and> unpack (fold PackOne as p) = unpack p @ pack_ref (unat (argc p)) (unat (packed p)) as"
  using assms
proof (induction as arbitrary: p)
  case Nil
  then show ?case by simp
next
  case (Cons a as)
  show ?case
  proof (cases "kMaxArgs \<le> unat (argc p)")
    case True
    have "fold PackOne as p = p" for as by (induction as) (simp_all add: PackOne_full [OF True])
    with True Cons.prems show ?thesis by (simp add: PackOne_full [OF True])
  next
    case False
    then have c: "unat (argc p) < kMaxArgs" by simp
    note K = PackOne_kept [OF Cons.prems c, of a]
    show ?thesis
    proof (cases "kept (kBufBytes - unat (packed p)) a")
      case None
      with K Cons False show ?thesis by simp
    next
      case (Some b)
      with K Cons.IH [of "PackOne a p"] c show ?thesis by (simp add: not_le)
    qed
  qed
qed

text \<open>What arrives of an argument that fits.\<close>

definition sent :: "arg \<Rightarrow> arg" where
  "sent a = (case a of AStr None \<Rightarrow> AStr (Some ''(null)'') | _ \<Rightarrow> a)"

lemma unpack_fits:
  assumes "length as \<le> 8" "sum_list (map arg_size as) \<le> 160"
  shows "unpack (PackArgs as) = map sent as"
proof -
  have "pack_ref c u as = map sent as"
    if "c + length as \<le> kMaxArgs" "u + sum_list (map arg_size as) \<le> kBufBytes" for c u
    using that
  proof (induction as arbitrary: c u)
    case (Cons a as)
    then show ?case by (cases a) (auto simp: not_le sent_def split: option.splits)
  qed simp
  from this [of 0 0] assms show ?thesis
    using fold_PackOne [OF empty_pack_inv(1), of as] empty_pack_inv(2)
    unfolding PackArgs_def by (simp add: empty_pack_def kMaxArgs_def kBufBytes_def)
qed

section \<open>Properties\<close>

text \<open>Property C14. The pack is bounded and refines its reference: whatever is packed, at most eight
  arguments and 160 bytes are held, every recorded argument lies inside the filled part, and
  decoding gives the arguments in order, strings cut to the room that was left and arguments
  that did not fit left out.\<close>

theorem pack_args_refines:
  "pack_inv (PackArgs as) \<and> unpack (PackArgs as) = pack_ref 0 0 as \<and> length (pack_ref 0 0 as) \<le> 8"
proof -
  have "pack_inv (PackArgs as) \<and> unpack (PackArgs as) = pack_ref 0 0 as"
    using fold_PackOne [OF empty_pack_inv(1), of as] empty_pack_inv(2)
    unfolding PackArgs_def by (simp add: empty_pack_def)
  moreover from this have "length (pack_ref 0 0 as) \<le> 8"
    by (metis (no_types, lifting) diff_zero kMaxArgs_def length_map length_upt pack_inv_def unpack_def)
  ultimately show ?thesis by blast
qed

text \<open>Nothing is lost below the limits: at most eight arguments whose bytes fit in the
  buffer come back exactly (a null string as \<open>(null)\<close>).\<close>

theorem pack_roundtrip:
  assumes "length as \<le> 8" "sum_list (map arg_size as) \<le> 160"
  shows "unpack (PackArgs as) = map (\<lambda>a. case a of AStr None \<Rightarrow> AStr (Some ''(null)'') | _ \<Rightarrow> a) as"
  using unpack_fits [OF assms] by (simp add: sent_def)

theorem pack_roundtrip_witness:
  "unpack (PackArgs [AInt 5, AStr (Some ''abc''), ABool True, AStr None]) =
    [AInt 5, AStr (Some ''abc''), ABool True, AStr (Some ''(null)'')]"
  using pack_roundtrip [of "[AInt 5, AStr (Some ''abc''), ABool True, AStr None]"] by simp

text \<open>An argument that is dropped for lack of room shifts the later ones forward: with 153
  bytes filled, an integer does not fit but the boolean behind it does, and the boolean takes
  the integer's place in the pack.\<close>

theorem dropped_argument_shifts:
  "unpack (PackArgs [AStr (Some (replicate 153 CHR ''a'')), AInt 7, ABool True]) =
    [AStr (Some (replicate 153 CHR ''a'')), ABool True]"
proof -
  have "unpack (PackArgs as) = pack_ref 0 0 as" for as
    using fold_PackOne [OF empty_pack_inv(1), of as] empty_pack_inv(2)
    unfolding PackArgs_def by (simp add: empty_pack_def)
  then show ?thesis by (simp add: kMaxArgs_def kBufBytes_def)
qed

end
