(* ===== verification/Formatter.thy ===== *)
theory Formatter
  imports Arg_Pack
begin

text \<open>
  The two deferred formatters: \<open>FormatMessage\<close> with its spec subset (\<open>ParseSpec\<close>,
  \<open>RenderNumeric\<close>, \<open>RenderArg\<close> of \<open>telemetry_console_binding.cpp\<close>) and the minimal \<open>FormatInto\<close>
  with \<open>AppendArg\<close> of \<open>telemetry_unbound.cpp\<close>. A C string is a list without its NUL. The printf
  conversions of integers and strings are defined here; the rendering of doubles, which the
  code leaves to the C library, is the parameter \<open>fp\<close> (zero flag, width, precision and conversion
  as in the format string, the bits of the double).
\<close>

section \<open>Specs\<close>

record FmtSpec =
  ok :: bool
  zero :: bool
  width :: int
  prec :: int
  conv_type :: "char option"

definition default_spec :: FmtSpec where
  "default_spec = \<lparr>ok = False, zero = False, width = -1, prec = -1, conv_type = None\<rparr>"

definition kMaxWidth :: int where
  "kMaxWidth = 96"

definition kMaxPrec :: int where
  "kMaxPrec = 64"

definition is_digit :: "char \<Rightarrow> bool" where
  "is_digit c \<longleftrightarrow> 48 \<le> (of_char c :: nat) \<and> of_char c \<le> (57 :: nat)"

definition digit_val :: "char \<Rightarrow> int" where
  "digit_val c = int (of_char c) - 48"

text \<open>The digit loops: the value is clamped after every digit.\<close>

fun parse_num :: "int \<Rightarrow> int \<Rightarrow> string \<Rightarrow> int \<times> string" where
  "parse_num mx w [] = (w, [])"
| "parse_num mx w (c # cs) =
     (if is_digit c
      then let w' = w * 10 + digit_val c in parse_num mx (if mx < w' then mx else w') cs
      else (w, c # cs))"

abbreviation starts :: "(char \<Rightarrow> bool) \<Rightarrow> string \<Rightarrow> bool" where
  "starts P s \<equiv> s \<noteq> [] \<and> P (hd s)"

definition spec_types :: string where
  "spec_types = ''fFeEgGdxXos''"

text \<open>The parts of \<open>ParseSpec\<close> from the last on: the optional conversion character and the end, the
  precision, the width, the zero flag.\<close>

definition parse_type :: "FmtSpec \<Rightarrow> string \<Rightarrow> FmtSpec" where
  "parse_type spec s =
     (if s \<noteq> [] then
        if hd s \<notin> set spec_types then spec
        else spec\<lparr>conv_type := Some (hd s), ok := (tl s = [])\<rparr>
      else spec\<lparr>ok := True\<rparr>)"

definition parse_prec :: "FmtSpec \<Rightarrow> string \<Rightarrow> FmtSpec" where
  "parse_prec spec s =
     (if starts (\<lambda>c. c = CHR ''.'') s then
        let s = tl s in
        if \<not> starts is_digit s then spec
        else let (p, s') = parse_num kMaxPrec 0 s in parse_type (spec\<lparr>prec := p\<rparr>) s'
      else parse_type spec s)"

definition parse_width :: "FmtSpec \<Rightarrow> string \<Rightarrow> FmtSpec" where
  "parse_width spec s =
     (if starts is_digit s
      then let (w, s') = parse_num kMaxWidth 0 s in parse_prec (spec\<lparr>width := w\<rparr>) s'
      else parse_prec spec s)"

definition ParseSpec :: "string \<Rightarrow> FmtSpec" where
  "ParseSpec s =
     (if starts (\<lambda>c. c = CHR ''0'') s then parse_width (default_spec\<lparr>zero := True\<rparr>) (tl s)
      else parse_width default_spec s)"

section \<open>printf conversions\<close>

definition digit_char :: "bool \<Rightarrow> nat \<Rightarrow> char" where
  "digit_char upper d = (if d < 10 then char_of (48 + d) else if upper then char_of (55 + d) else char_of (87 + d))"

function digits :: "nat \<Rightarrow> bool \<Rightarrow> nat \<Rightarrow> string" where
  "digits b upper n =
     (if b < 2 \<or> n < b then [digit_char upper n] else digits b upper (n div b) @ [digit_char upper (n mod b)])"
  by pat_completeness auto
termination
  by (relation "measure (\<lambda>(b, upper, n). n)") auto

declare digits.simps [simp del]

type_synonym fprinter = "bool \<Rightarrow> int \<Rightarrow> int \<Rightarrow> char \<Rightarrow> u64 \<Rightarrow> string"

datatype conv = CSigned int | CUnsigned nat | CHex bool nat | COct nat | CText string | CFloat char u64

definition pad_to :: "int \<Rightarrow> char \<Rightarrow> string \<Rightarrow> string" where
  "pad_to w c s = replicate (nat w - length s) c @ s"

text \<open>The \<open>-\<close> flag: blanks after the text.\<close>

definition pad_right :: "nat \<Rightarrow> string \<Rightarrow> string" where
  "pad_right n s = s @ replicate (n - length s) CHR '' ''"

text \<open>Sign, then zeros up to the width under the \<open>0\<close> flag, else blanks before the sign.\<close>

definition printf_int :: "FmtSpec \<Rightarrow> string \<Rightarrow> string \<Rightarrow> string" where
  "printf_int spec sign ds =
     (if zero spec then sign @ pad_to (width spec - int (length sign)) CHR ''0'' ds
      else pad_to (width spec) CHR '' '' (sign @ ds))"

fun printf :: "fprinter \<Rightarrow> FmtSpec \<Rightarrow> conv \<Rightarrow> string" where
  "printf fp spec (CSigned v) = printf_int spec (if v < 0 then ''-'' else '''') (digits 10 False (nat \<bar>v\<bar>))"
| "printf fp spec (CUnsigned n) = printf_int spec '''' (digits 10 False n)"
| "printf fp spec (CHex upper n) = printf_int spec '''' (digits 16 upper n)"
| "printf fp spec (COct n) = printf_int spec '''' (digits 8 False n)"
| "printf fp spec (CText s) = pad_to (width spec) CHR '' '' (if prec spec < 0 then s else take (nat (prec spec)) s)"
| "printf fp spec (CFloat t w) = fp (zero spec) (width spec) (prec spec) t w"

section \<open>Rendering into the bounded line\<close>

text \<open>The capacities passed are positive (512 everywhere), so \<open>cap - 1\<close> is the subtraction of \<open>size_t\<close>.\<close>

fun AppendRaw :: "nat \<Rightarrow> string \<Rightarrow> string \<Rightarrow> string" where
  "AppendRaw cap out [] = out"
| "AppendRaw cap out (c # cs) = (if length out < cap - 1 then AppendRaw cap (out @ [c]) cs else out)"

text \<open>\<open>vsnprintf\<close> into the 192-byte scratch keeps at most 191 characters.\<close>

definition RenderNumeric :: "fprinter \<Rightarrow> nat \<Rightarrow> string \<Rightarrow> FmtSpec \<Rightarrow> conv \<Rightarrow> string" where
  "RenderNumeric fp cap out spec c =
     (let s = printf fp spec c; n = length s in
      if 0 < n then AppendRaw cap out (take (if n < 192 then n else 191) (take 191 s)) else out)"

definition int_conv :: "char \<Rightarrow> u64 \<Rightarrow> conv" where
  "int_conv t w = (if t = CHR ''x'' then CHex False (unat w) else if t = CHR ''X'' then CHex True (unat w) else COct (unat w))"

definition RenderArg :: "fprinter \<Rightarrow> nat \<Rightarrow> string \<Rightarrow> ArgPack \<Rightarrow> nat \<Rightarrow> FmtSpec \<Rightarrow> string" where
  "RenderArg fp cap out p i spec =
     (let none = default_spec; t = conv_type spec in
      case arg_at p i of
        ABool v \<Rightarrow>
          if ok spec \<and> prec spec < 0 \<and> t \<in> Some ` {CHR ''d'', CHR ''x'', CHR ''X'', CHR ''o''}
          then RenderNumeric fp cap out spec
                 (if t = Some CHR ''d'' then CSigned (if v then 1 else 0) else int_conv (the t) (if v then 1 else 0))
          else let s = (if v then ''true'' else ''false'') in
            if ok spec \<and> (t = Some CHR ''s'' \<or> t = None) \<and> \<not> zero spec
            then RenderNumeric fp cap out (spec\<lparr>prec := -1\<rparr>) (CText s)
            else AppendRaw cap out s
      | AInt w \<Rightarrow>
          if ok spec \<and> prec spec < 0 \<and> t = Some CHR ''d'' then RenderNumeric fp cap out spec (CSigned (sint w))
          else if ok spec \<and> prec spec < 0 \<and> t \<in> Some ` {CHR ''x'', CHR ''X'', CHR ''o''}
          then RenderNumeric fp cap out spec (int_conv (the t) w)
          else if ok spec \<and> prec spec < 0 \<and> t = None then RenderNumeric fp cap out spec (CSigned (sint w))
          else RenderNumeric fp cap out none (CSigned (sint w))
      | AUint w \<Rightarrow>
          if ok spec \<and> prec spec < 0 \<and> (t = None \<or> t = Some CHR ''d'')
          then RenderNumeric fp cap out spec (CUnsigned (unat w))
          else if ok spec \<and> prec spec < 0 \<and> t \<in> Some ` {CHR ''x'', CHR ''X'', CHR ''o''}
          then RenderNumeric fp cap out spec (int_conv (the t) w)
          else RenderNumeric fp cap out none (CUnsigned (unat w))
      | ADouble w \<Rightarrow>
          if ok spec \<and> (t = None \<or> the t \<in> {CHR ''f'', CHR ''F'', CHR ''e'', CHR ''E'', CHR ''g'', CHR ''G''})
          then RenderNumeric fp cap out spec (CFloat (case t of None \<Rightarrow> CHR ''g'' | Some c \<Rightarrow> c) w)
          else RenderNumeric fp cap out none (CFloat CHR ''g'' w)
      | AStr s' \<Rightarrow>
          let s = (case s' of None \<Rightarrow> '''' | Some s \<Rightarrow> s); n = length s in
          if ok spec \<and> (t = Some CHR ''s'' \<or> t = None) \<and> \<not> zero spec
          then let n = (if 0 \<le> prec spec \<and> nat (prec spec) < n then nat (prec spec) else n) in
               if int n < width spec
               then AppendRaw cap (AppendRaw cap out (take n s)) (replicate (nat (width spec) - n) CHR '' '')
               else AppendRaw cap out (take n s)
          else AppendRaw cap out s)"

section \<open>The scan loops\<close>

definition placeholder_spec :: "string \<Rightarrow> FmtSpec" where
  "placeholder_spec body =
     (if body = [] then default_spec\<lparr>ok := True\<rparr>
      else if hd body = CHR '':'' then ParseSpec (tl body)
      else default_spec)"

abbreviation lbrace :: char where "lbrace \<equiv> CHR ''{''"
abbreviation rbrace :: char where "rbrace \<equiv> CHR ''}''"

function format_scan :: "fprinter \<Rightarrow> nat \<Rightarrow> ArgPack \<Rightarrow> string \<Rightarrow> nat \<Rightarrow> string \<Rightarrow> string" where
  "format_scan fp cap args [] next out = out"
| "format_scan fp cap args (c # cs) next out =
     (if \<not> length out < cap - 1 then out
      else if c = lbrace \<and> starts (\<lambda>d. d = lbrace) cs then format_scan fp cap args (tl cs) next (out @ [lbrace])
      else if c = rbrace \<and> starts (\<lambda>d. d = rbrace) cs then format_scan fp cap args (tl cs) next (out @ [rbrace])
      else if c = lbrace then
        let body = takeWhile (\<lambda>d. d \<noteq> rbrace) cs; rest = dropWhile (\<lambda>d. d \<noteq> rbrace) cs in
        if rest = [] then out
        else if next < unat (argc args)
        then format_scan fp cap args (tl rest) (Suc next) (RenderArg fp cap out args next (placeholder_spec body))
        else format_scan fp cap args (tl rest) next (AppendRaw cap out ''{?}'')
      else format_scan fp cap args cs next (out @ [c]))"
  by pat_completeness auto
termination
  by (relation "measure (\<lambda>(fp, cap, args, cs, next, out). length cs)")
    (auto simp: less_Suc_eq_le intro: le_trans [OF diff_le_self length_dropWhile_le])

text \<open>The capacity is at least 1: every caller passes a buffer of 512 bytes, so \<open>cap - 1\<close> never wraps.\<close>

definition FormatMessage :: "fprinter \<Rightarrow> nat \<Rightarrow> string \<Rightarrow> ArgPack \<Rightarrow> string" where
  "FormatMessage fp cap fmt args = format_scan fp cap args fmt 0 []"

declare format_scan.simps [simp del]

text \<open>
  The unbound formatter renders numbers into a 64-byte scratch and copies as many characters
  as \<open>snprintf\<close> reports; beyond the scratch these would be whatever follows it (\<open>junk\<close>).
\<close>

definition tmp64 :: "(nat \<Rightarrow> char) \<Rightarrow> string \<Rightarrow> string" where
  "tmp64 junk s = map (\<lambda>k. if k < 63 then s ! k else junk k) [0..<length s]"

definition AppendArg :: "fprinter \<Rightarrow> (nat \<Rightarrow> char) \<Rightarrow> nat \<Rightarrow> string \<Rightarrow> ArgPack \<Rightarrow> nat \<Rightarrow> string" where
  "AppendArg fp junk cap out p i =
     (case arg_at p i of
        ABool v \<Rightarrow> AppendRaw cap out (tmp64 junk (if v then ''true'' else ''false''))
      | AInt w \<Rightarrow> AppendRaw cap out (tmp64 junk (printf fp default_spec (CSigned (sint w))))
      | AUint w \<Rightarrow> AppendRaw cap out (tmp64 junk (printf fp default_spec (CUnsigned (unat w))))
      | ADouble w \<Rightarrow> AppendRaw cap out (tmp64 junk (printf fp default_spec (CFloat CHR ''g'' w)))
      | AStr s \<Rightarrow> AppendRaw cap out (case s of None \<Rightarrow> [] | Some s \<Rightarrow> s))"

function into_scan :: "fprinter \<Rightarrow> (nat \<Rightarrow> char) \<Rightarrow> nat \<Rightarrow> ArgPack \<Rightarrow> string \<Rightarrow> nat \<Rightarrow> string \<Rightarrow> string" where
  "into_scan fp junk cap args [] next out = out"
| "into_scan fp junk cap args (c # cs) next out =
     (if \<not> length out < cap - 1 then out
      else if c = lbrace \<and> starts (\<lambda>d. d = lbrace) cs then into_scan fp junk cap args (tl cs) next (out @ [lbrace])
      else if c = rbrace \<and> starts (\<lambda>d. d = rbrace) cs then into_scan fp junk cap args (tl cs) next (out @ [rbrace])
      else if c = lbrace then
        let rest = dropWhile (\<lambda>d. d \<noteq> rbrace) cs in
        if rest = [] then out
        else if next < unat (argc args)
        then into_scan fp junk cap args (tl rest) (Suc next) (AppendArg fp junk cap out args next)
        else into_scan fp junk cap args (tl rest) next (AppendRaw cap out ''{?}'')
      else into_scan fp junk cap args cs next (out @ [c]))"
  by pat_completeness auto
termination
  by (relation "measure (\<lambda>(fp, junk, cap, args, cs, next, out). length cs)")
    (auto simp: less_Suc_eq_le intro: le_trans [OF diff_le_self length_dropWhile_le])

declare into_scan.simps [simp del]

definition FormatInto :: "fprinter \<Rightarrow> (nat \<Rightarrow> char) \<Rightarrow> nat \<Rightarrow> string \<Rightarrow> ArgPack \<Rightarrow> string" where
  "FormatInto fp junk cap fmt args = into_scan fp junk cap args fmt 0 []"

section \<open>Reference formatter\<close>

text \<open>
  Without a buffer: the text of a format, given the text of each argument under a placeholder
  body. Both scan loops are this text cut to the buffer.
\<close>

function scan_ref :: "(nat \<Rightarrow> string \<Rightarrow> string) \<Rightarrow> nat \<Rightarrow> string \<Rightarrow> nat \<Rightarrow> string" where
  "scan_ref argtext count [] next = []"
| "scan_ref argtext count (c # cs) next =
     (if c = lbrace \<and> starts (\<lambda>d. d = lbrace) cs then lbrace # scan_ref argtext count (tl cs) next
      else if c = rbrace \<and> starts (\<lambda>d. d = rbrace) cs then rbrace # scan_ref argtext count (tl cs) next
      else if c = lbrace then
        let body = takeWhile (\<lambda>d. d \<noteq> rbrace) cs; rest = dropWhile (\<lambda>d. d \<noteq> rbrace) cs in
        if rest = [] then []
        else if next < count then argtext next body @ scan_ref argtext count (tl rest) (Suc next)
        else ''{?}'' @ scan_ref argtext count (tl rest) next
      else c # scan_ref argtext count cs next)"
  by pat_completeness auto
termination
  by (relation "measure (\<lambda>(argtext, count, cs, next). length cs)")
    (auto simp: less_Suc_eq_le intro: le_trans [OF diff_le_self length_dropWhile_le])

declare scan_ref.simps [simp del]

text \<open>The bodies of the placeholders of a format, in the order in which the scan meets them: what stands between a lone
  \<open>{\<close> and the next \<open>}\<close>. A body that starts with a colon carries a spec.\<close>

function placeholders :: "string \<Rightarrow> string list" where
  "placeholders [] = []"
| "placeholders (c # cs) =
     (if (c = lbrace \<or> c = rbrace) \<and> starts (\<lambda>d. d = c) cs then placeholders (tl cs)
      else if c = lbrace then
        let body = takeWhile (\<lambda>d. d \<noteq> rbrace) cs; rest = dropWhile (\<lambda>d. d \<noteq> rbrace) cs in
        if rest = [] then [] else body # placeholders (tl rest)
      else placeholders cs)"
  by pat_completeness auto
termination
  by (relation "measure length") (auto simp: less_Suc_eq_le intro: le_trans [OF diff_le_self length_dropWhile_le])

declare placeholders.simps [simp del]

abbreviation spec_free :: "string \<Rightarrow> bool" where
  "spec_free fmt \<equiv> list_all (\<lambda>body. \<not> starts (\<lambda>c. c = CHR '':'') body) (placeholders fmt)"

lemma AppendRaw_take:
  "length out \<le> cap - 1 \<Longrightarrow> AppendRaw cap out s = take (cap - 1) (out @ s)"
proof (induction s arbitrary: out)
  case (Cons c s)
  show ?case
  proof (cases "length out < cap - 1")
    case True
    with Cons.IH [of "out @ [c]"] show ?thesis by (simp del: take_append)
  next
    case False
    with Cons.prems show ?thesis by simp
  qed
qed simp

locale brace_scanner =
  fixes scan :: "string \<Rightarrow> nat \<Rightarrow> string \<Rightarrow> string"
    and put :: "string \<Rightarrow> nat \<Rightarrow> string \<Rightarrow> string"
    and argtext :: "nat \<Rightarrow> string \<Rightarrow> string"
    and count cap :: nat
  assumes scan_nil: "scan [] next out = out"
    and scan_cons: "scan (c # cs) next out =
     (if \<not> length out < cap - 1 then out
      else if c = lbrace \<and> starts (\<lambda>d. d = lbrace) cs then scan (tl cs) next (out @ [lbrace])
      else if c = rbrace \<and> starts (\<lambda>d. d = rbrace) cs then scan (tl cs) next (out @ [rbrace])
      else if c = lbrace then
        let rest = dropWhile (\<lambda>d. d \<noteq> rbrace) cs in
        if rest = [] then out
        else if next < count then scan (tl rest) (Suc next) (put out next (takeWhile (\<lambda>d. d \<noteq> rbrace) cs))
        else scan (tl rest) next (AppendRaw cap out ''{?}'')
      else scan cs next (out @ [c]))"
    and put_text: "length out \<le> cap - 1 \<Longrightarrow> next < count \<Longrightarrow> put out next body = take (cap - 1) (out @ argtext next body)"
begin

lemma scan_full: "\<not> length out < cap - 1 \<Longrightarrow> scan cs next out = out"
  by (cases cs) (simp_all add: scan_nil scan_cons)

lemma scan_is_take:
  "length out \<le> cap - 1 \<Longrightarrow> scan cs next out = take (cap - 1) (out @ scan_ref argtext count cs next)"
proof (induction "length cs" arbitrary: cs "next" out rule: less_induct)
  case less
  show ?case
  proof (cases cs)
    case Nil
    with less.prems show ?thesis by (simp add: scan_nil scan_ref.simps)
  next
    case (Cons c ds)
    show ?thesis
    proof (cases "length out < cap - 1")
      case False
      with less.prems show ?thesis using scan_full [OF False] by simp
    next
      case True
      let ?rest = "dropWhile (\<lambda>d. d \<noteq> rbrace) ds" and ?body = "takeWhile (\<lambda>d. d \<noteq> rbrace) ds"
      have L: "length (tl ?rest) < length cs" "length (tl ds) < length cs" "length ds < length cs"
        using length_dropWhile_le [of "\<lambda>d. d \<noteq> rbrace" ds] Cons by auto
      have cut: "scan es n (take (cap - 1) (out @ s)) = take (cap - 1) (out @ s @ scan_ref argtext count es n)"
        if "length es < length cs" for es n s
        using less.hyps [OF that, of "take (cap - 1) (out @ s)" n]
        by (simp add: take_append_take del: take_append)
      have one: "scan es n (out @ [d]) = take (cap - 1) (out @ d # scan_ref argtext count es n)"
        if "length es < length cs" for es n d
        using cut [OF that, of n "[d]"] True by (simp del: take_append)
      have raw: "AppendRaw cap out z = take (cap - 1) (out @ z)" for z using less.prems by (rule AppendRaw_take)
      have p: "put out next ?body = take (cap - 1) (out @ argtext next ?body)" if "next < count"
        using put_text [OF less.prems that] .
      show ?thesis
        unfolding Cons scan_cons scan_ref.simps Let_def raw
        using True one [OF L(2)] one [OF L(3)] cut [OF L(1)] p less.prems
        by (simp del: take_append AppendRaw.simps split del: if_split cong: if_cong) (auto simp del: take_append)
    qed
  qed
qed

end

section \<open>Both loops are cuts of the reference\<close>

text \<open>The unbounded text of an argument under a parsed spec.\<close>

fun arg_text :: "fprinter \<Rightarrow> FmtSpec \<Rightarrow> arg \<Rightarrow> string" where
  "arg_text fp spec (ABool v) =
     (let t = conv_type spec; s = (if v then ''true'' else ''false'') in
      if ok spec \<and> prec spec < 0 \<and> t \<in> Some ` {CHR ''d'', CHR ''x'', CHR ''X'', CHR ''o''}
      then take 191 (printf fp spec
             (if t = Some CHR ''d'' then CSigned (if v then 1 else 0) else int_conv (the t) (if v then 1 else 0)))
      else if ok spec \<and> (t = Some CHR ''s'' \<or> t = None) \<and> \<not> zero spec
      then take 191 (pad_to (width spec) CHR '' '' s) else s)"
| "arg_text fp spec (AInt w) =
     take 191
       (if ok spec \<and> prec spec < 0 \<and> conv_type spec = Some CHR ''d'' then printf fp spec (CSigned (sint w))
        else if ok spec \<and> prec spec < 0 \<and> conv_type spec \<in> Some ` {CHR ''x'', CHR ''X'', CHR ''o''}
        then printf fp spec (int_conv (the (conv_type spec)) w)
        else if ok spec \<and> prec spec < 0 \<and> conv_type spec = None then printf fp spec (CSigned (sint w))
        else printf fp default_spec (CSigned (sint w)))"
| "arg_text fp spec (AUint w) =
     take 191
       (if ok spec \<and> prec spec < 0 \<and> (conv_type spec = None \<or> conv_type spec = Some CHR ''d'')
        then printf fp spec (CUnsigned (unat w))
        else if ok spec \<and> prec spec < 0 \<and> conv_type spec \<in> Some ` {CHR ''x'', CHR ''X'', CHR ''o''}
        then printf fp spec (int_conv (the (conv_type spec)) w)
        else printf fp default_spec (CUnsigned (unat w)))"
| "arg_text fp spec (ADouble w) =
     take 191 (if ok spec \<and> (conv_type spec = None \<or>
         the (conv_type spec) \<in> {CHR ''f'', CHR ''F'', CHR ''e'', CHR ''E'', CHR ''g'', CHR ''G''})
       then fp (zero spec) (width spec) (prec spec) (case conv_type spec of None \<Rightarrow> CHR ''g'' | Some c \<Rightarrow> c) w
       else fp False (-1) (-1) CHR ''g'' w)"
| "arg_text fp spec (AStr s') =
     (let s = (case s' of None \<Rightarrow> [] | Some s \<Rightarrow> s) in
      if ok spec \<and> (conv_type spec = Some CHR ''s'' \<or> conv_type spec = None) \<and> \<not> zero spec
      then let u = (if 0 \<le> prec spec then take (nat (prec spec)) s else s)
           in u @ replicate (nat (width spec) - length u) CHR '' ''
      else s)"

lemma RenderNumeric_take:
  "length out \<le> cap - 1 \<Longrightarrow> RenderNumeric fp cap out spec c = take (cap - 1) (out @ take 191 (printf fp spec c))"
  by (simp add: RenderNumeric_def Let_def AppendRaw_take del: take_append)

lemma RenderArg_text:
  assumes "length out \<le> cap - 1"
  shows "RenderArg fp cap out p i spec = take (cap - 1) (out @ arg_text fp spec (arg_at p i))"
proof (cases "arg_at p i")
  case (AStr s')
  let ?s = "case s' of None \<Rightarrow> [] | Some s \<Rightarrow> s"
  have "take (if 0 \<le> prec spec \<and> nat (prec spec) < length ?s then nat (prec spec) else length ?s) ?s =
      (if 0 \<le> prec spec then take (nat (prec spec)) ?s else ?s)" by auto
  then show ?thesis
    using AStr assms
    by (auto simp: RenderArg_def Let_def AppendRaw_take take_append_take nat_less_iff zless_nat_eq_int_zless
        simp del: take_append AppendRaw.simps)
qed (use assms in \<open>simp_all add: RenderArg_def Let_def RenderNumeric_take AppendRaw_take default_spec_def
    if_distrib [of "\<lambda>s. take (cap - Suc 0) (out @ s)"] if_distrib [of "take 191"] if_distrib [of "printf fp spec"]
    del: take_append AppendRaw.simps image_insert insert_iff split del: if_split cong: if_cong\<close>)

interpretation message: brace_scanner "format_scan fp cap args" "\<lambda>out i body. RenderArg fp cap out args i (placeholder_spec body)"
    "\<lambda>i body. arg_text fp (placeholder_spec body) (arg_at args i)" "unat (argc args)" cap
  for fp cap args
  by unfold_locales (simp_all add: format_scan.simps Let_def RenderArg_text del: take_append cong: if_cong)

text \<open>The default rendering.\<close>

fun plain_text :: "fprinter \<Rightarrow> arg \<Rightarrow> string" where
  "plain_text fp (ABool v) = (if v then ''true'' else ''false'')"
| "plain_text fp (AInt w) = printf fp default_spec (CSigned (sint w))"
| "plain_text fp (AUint w) = printf fp default_spec (CUnsigned (unat w))"
| "plain_text fp (ADouble w) = fp False (-1) (-1) CHR ''g'' w"
| "plain_text fp (AStr s) = (case s of None \<Rightarrow> [] | Some s \<Rightarrow> s)"

definition scratch_text :: "fprinter \<Rightarrow> (nat \<Rightarrow> char) \<Rightarrow> arg \<Rightarrow> string" where
  "scratch_text fp junk a = (case a of AStr _ \<Rightarrow> plain_text fp a | _ \<Rightarrow> tmp64 junk (plain_text fp a))"

lemma AppendArg_text:
  "length out \<le> cap - 1 \<Longrightarrow> AppendArg fp junk cap out p i = take (cap - 1) (out @ scratch_text fp junk (arg_at p i))"
  by (cases "arg_at p i") (simp_all add: AppendArg_def scratch_text_def AppendRaw_take default_spec_def del: take_append)

interpretation into: brace_scanner "into_scan fp junk cap args" "\<lambda>out i body. AppendArg fp junk cap out args i"
    "\<lambda>i body. scratch_text fp junk (arg_at args i)" "unat (argc args)" cap
  for fp junk cap args
  by unfold_locales (simp_all add: into_scan.simps Let_def AppendArg_text del: take_append cong: if_cong)

section \<open>Digits\<close>

lemma digits_length:
  assumes "2 \<le> b" "n < b ^ k" "0 < k" shows "length (digits b u n) \<le> k"
  using assms
proof (induction b u n arbitrary: k rule: digits.induct)
  case (1 b u n)
  show ?case
  proof (cases "n < b")
    case True
    then show ?thesis using "1.prems" by (subst digits.simps) simp
  next
    case False
    then obtain k' where k: "k = Suc k'" "0 < k'" using "1.prems" by (cases k; cases "k - 1") auto
    have "n div b < b ^ k'" using "1.prems" k by (simp add: div_less_iff_less_mult mult.commute)
    then have "length (digits b u (n div b)) \<le> k'" using "1.IH" False "1.prems" k by simp
    then show ?thesis using False k by (subst digits.simps) simp
  qed
qed

lemma digit_char_val: "d < 10 \<Longrightarrow> is_digit (digit_char u d) \<and> digit_val (digit_char u d) = int d"
  by (simp add: digit_char_def is_digit_def digit_val_def)

lemma parse_digits:
  assumes "int n \<le> mx"
  shows "parse_num mx 0 (digits 10 u n @ rest) = parse_num mx (int n) rest"
  using assms
proof (induction n arbitrary: rest rule: less_induct)
  case (less n)
  show ?case
  proof (cases "n < 10")
    case True
    then show ?thesis using digit_char_val [of n u] less.prems by (subst digits.simps) simp
  next
    case False
    have d: "digit_val (digit_char u (n mod 10)) = int (n mod 10)" "is_digit (digit_char u (n mod 10))"
      using digit_char_val [of "n mod 10" u] by simp_all
    have "int (n div 10) * 10 + int (n mod 10) = int n"
      by (metis div_mult_mod_eq of_nat_add of_nat_mult of_nat_numeral)
    with False less.IH [of "n div 10" "digit_char u (n mod 10) # rest"] less.prems d show ?thesis
      by (subst digits.simps) (simp add: Let_def)
  qed
qed

lemma digits_nonempty [simp]: "digits b u n \<noteq> []"
  by (subst digits.simps) simp

lemma digits_hd:
  assumes "0 < n" shows "is_digit (hd (digits 10 u n)) \<and> hd (digits 10 u n) \<noteq> CHR ''0''"
  using assms
proof (induction n rule: less_induct)
  case (less n)
  show ?case
  proof (cases "n < 10")
    case True
    moreover from this less.prems have "digit_char u n \<noteq> CHR ''0''"
      using digit_char_val [of n u] by (auto simp: digit_val_def)
    ultimately show ?thesis using digit_char_val [of n u] by (subst (1 2) digits.simps) simp
  next
    case False
    with less.IH [of "n div 10"] show ?thesis by (subst (1 2) digits.simps) (simp add: hd_append)
  qed
qed

section \<open>Specs printed and parsed\<close>

definition print_spec :: "bool \<Rightarrow> nat option \<Rightarrow> nat option \<Rightarrow> char option \<Rightarrow> string" where
  "print_spec z w p t =
     (if z then ''0'' else []) @ (case w of None \<Rightarrow> [] | Some n \<Rightarrow> digits 10 False n)
     @ (case p of None \<Rightarrow> [] | Some n \<Rightarrow> CHR ''.'' # digits 10 False n) @ (case t of None \<Rightarrow> [] | Some c \<Rightarrow> [c])"

definition spec_of :: "bool \<Rightarrow> nat option \<Rightarrow> nat option \<Rightarrow> char option \<Rightarrow> FmtSpec" where
  "spec_of z w p t = \<lparr>ok = True, zero = z, width = (case w of None \<Rightarrow> -1 | Some n \<Rightarrow> int n),
     prec = (case p of None \<Rightarrow> -1 | Some n \<Rightarrow> int n), conv_type = t\<rparr>"

lemma parse_num_stop: "\<not> starts is_digit s \<Longrightarrow> parse_num mx n s = (n, s)"
  by (cases s) simp_all

lemma spec_types_not_digit:
  assumes "c \<in> set spec_types" shows "\<not> is_digit c" "c \<noteq> CHR ''.''" "c \<noteq> CHR ''0''"
  using assms by (auto simp: spec_types_def is_digit_def)

lemma digits_first:
  "starts is_digit (digits 10 u n @ s)"
  "0 < n \<Longrightarrow> \<not> starts (\<lambda>c. c = CHR ''0'') (digits 10 u n @ s)"
proof -
  show "0 < n \<Longrightarrow> \<not> starts (\<lambda>c. c = CHR ''0'') (digits 10 u n @ s)" using digits_hd [of n u] by simp
  show "starts is_digit (digits 10 u n @ s)"
  proof (cases "n = 0")
    case True
    then show ?thesis using digit_char_val [of 0 u] by (subst digits.simps) simp
  next
    case False
    then show ?thesis using digits_hd [of n u] by simp
  qed
qed

lemma parse_num_bound: "0 \<le> mx \<Longrightarrow> n \<le> mx \<Longrightarrow> fst (parse_num mx n s) \<le> mx"
  by (induction mx n s rule: parse_num.induct) (simp_all add: Let_def)

lemma default_spec_sel [simp]:
  "\<not> ok default_spec" "\<not> zero default_spec" "width default_spec = -1" "prec default_spec = -1" "conv_type default_spec = None"
  "default_spec\<lparr>ok := False\<rparr> = default_spec"
  by (simp_all add: default_spec_def)

lemma scan_ref_cong:
  assumes "\<And>i body. i < n \<Longrightarrow> body \<in> set (placeholders cs) \<Longrightarrow> f i body = g i body"
  shows "scan_ref f n cs k = scan_ref g n cs k"
  using assms
proof (induction "length cs" arbitrary: cs k rule: less_induct)
  case less
  show ?case
  proof (cases cs)
    case (Cons c ds)
    let ?rest = "dropWhile (\<lambda>d. d \<noteq> rbrace) ds" and ?body = "takeWhile (\<lambda>d. d \<noteq> rbrace) ds"
    have L: "length (tl ?rest) < length cs" "length (tl ds) < length cs" "length ds < length cs"
      using length_dropWhile_le [of "\<lambda>d. d \<noteq> rbrace" ds] Cons by auto
    have E: "scan_ref f n es m = scan_ref g n es m" if "length es < length cs" "set (placeholders es) \<subseteq> set (placeholders cs)" for es m
      using less.hyps [OF that(1)] less.prems that(2) by (meson subsetD)
    consider (esc) "(c = lbrace \<or> c = rbrace) \<and> starts (\<lambda>d. d = c) ds"
      | (open_end) "c = lbrace" "\<not> starts (\<lambda>d. d = c) ds" "?rest = []"
      | (arg) "c = lbrace" "\<not> starts (\<lambda>d. d = c) ds" "?rest \<noteq> []"
      | (other) "c \<noteq> lbrace" "\<not> ((c = lbrace \<or> c = rbrace) \<and> starts (\<lambda>d. d = c) ds)" by auto
    then show ?thesis
    proof cases
      case esc
      then have "placeholders cs = placeholders (tl ds)" by (simp add: Cons placeholders.simps)
      with E [OF L(2)] esc show ?thesis by (auto simp: Cons scan_ref.simps)
    next
      case open_end
      then show ?thesis by (auto simp: Cons scan_ref.simps)
    next
      case arg
      then have "placeholders cs = ?body # placeholders (tl ?rest)" by (auto simp: Cons placeholders.simps)
      with E [OF L(1)] less.prems [of _ ?body] arg show ?thesis by (auto simp: Cons scan_ref.simps Let_def)
    next
      case other
      then have "placeholders cs = placeholders ds" by (auto simp: Cons placeholders.simps)
      with E [OF L(3)] other show ?thesis by (auto simp: Cons scan_ref.simps)
    qed
  qed (simp add: scan_ref.simps)
qed

text \<open>A 64-bit number has at most twenty decimal digits and a sign.\<close>

lemma decimal_short:
  "length (printf fp default_spec (CUnsigned (unat (w :: u64)))) \<le> 63"
  "length (printf fp default_spec (CSigned (sint (w :: u64)))) \<le> 63"
proof -
  have dec: "length (digits 10 False n) \<le> 20" if "n < 2 ^ 64" for n
    using that by (intro digits_length) simp_all
  have "nat \<bar>sint w\<bar> < 2 ^ 64" using sint_ge [of w] sint_lt [of w] by simp
  from dec [OF this] show "length (printf fp default_spec (CSigned (sint (w :: u64)))) \<le> 63"
    by (auto simp: printf_int_def pad_to_def abs_if split: if_splits)
  from dec [of "unat w"] show "length (printf fp default_spec (CUnsigned (unat (w :: u64)))) \<le> 63"
    by (simp add: printf_int_def pad_to_def)
qed

lemma scratch_plain:
  assumes "\<And>w. length (fp False (-1) (-1) CHR ''g'' w) \<le> 63"
  shows "scratch_text fp junk a = plain_text fp a"
proof -
  have short: "tmp64 junk s = s" if "length s \<le> 63" for s
    using that by (auto simp: tmp64_def intro!: nth_equalityI)
  show ?thesis
    using decimal_short [of fp] assms
    by (cases a) (simp_all add: scratch_text_def short del: printf.simps)
qed

lemma placeholder_plain:
  assumes "\<And>w. length (fp False (-1) (-1) CHR ''g'' w) \<le> 63" "\<not> starts (\<lambda>c. c = CHR '':'') body"
  shows "arg_text fp (placeholder_spec body) a = plain_text fp a"
proof -
  have d: "printf fp (default_spec\<lparr>ok := b\<rparr>) c = printf fp default_spec c" for b c
    by (cases c) (simp_all add: printf_int_def default_spec_def)
  have cut: "take 191 s = s" if "length s \<le> 63" for s :: string using that by simp
  have "arg_text fp (default_spec\<lparr>ok := b\<rparr>) a = plain_text fp a" for b
    using decimal_short [of fp] assms(1)
    by (cases a) (simp_all add: d pad_to_def Let_def cut del: printf.simps)
  from this [of True] this [of False] show ?thesis
    using assms(2) by (cases body) (auto simp: placeholder_spec_def)
qed

section \<open>Properties\<close>

text \<open>Property C15. The console formatter is safe and exact: for every buffer size, format and argument
  pack its output is the text of the format with each placeholder replaced by the rendering of
  the next argument (\<open>{?}\<close> once they run out), cut to the buffer less its terminator.\<close>

theorem format_message_is_cut:
  "FormatMessage fp cap fmt args =
     take (cap - 1) (scan_ref (\<lambda>i body. arg_text fp (placeholder_spec body) (arg_at args i)) (unat (argc args)) fmt 0) \<and>
   length (FormatMessage fp cap fmt args) \<le> cap - 1"
  using message.scan_is_take [of "[]" cap fp args fmt 0] by (simp add: FormatMessage_def)

text \<open>Property C16. On formats none of whose placeholders carries a spec (colons elsewhere in the text are free) the
  two formatters agree, so a message reads the same before and after a binding is installed. The C library's \<open>%g\<close> is
  assumed to fit the 63 characters of the unbound formatter's scratch.\<close>

theorem formatters_agree:
  assumes "spec_free fmt" "\<And>w. length (fp False (-1) (-1) CHR ''g'' w) \<le> 63"
  shows "FormatInto fp junk cap fmt args = FormatMessage fp cap fmt args"
proof -
  have "scan_ref (\<lambda>i body. arg_text fp (placeholder_spec body) (arg_at args i)) (unat (argc args)) fmt 0 =
      scan_ref (\<lambda>i body. scratch_text fp junk (arg_at args i)) (unat (argc args)) fmt 0"
  proof (rule scan_ref_cong)
    fix i body assume "body \<in> set (placeholders fmt)"
    with assms(1) have "\<not> starts (\<lambda>c. c = CHR '':'') body" by (simp add: list_all_iff)
    with scratch_plain [of fp] placeholder_plain [of fp] assms(2)
    show "arg_text fp (placeholder_spec body) (arg_at args i) = scratch_text fp junk (arg_at args i)" by simp
  qed
  then show ?thesis
    using message.scan_is_take [of "[]" cap fp args fmt 0] into.scan_is_take [of "[]" cap fp junk args fmt 0]
    by (simp add: FormatMessage_def FormatInto_def)
qed

theorem formatters_agree_witness:
  "FormatInto (\<lambda>z w p c x. ''1.5'') (\<lambda>_. CHR ''?'') 512 ''x: {} {{:}} {}'' (PackArgs [ADouble 0, ABool True]) =
   FormatMessage (\<lambda>z w p c x. ''1.5'') 512 ''x: {} {{:}} {}'' (PackArgs [ADouble 0, ABool True])"
  by (rule formatters_agree) (simp_all add: placeholders.simps)

definition escape_braces :: "string \<Rightarrow> string" where
  "escape_braces s = concat (map (\<lambda>c. if c = lbrace \<or> c = rbrace then [c, c] else [c]) s)"

text \<open>Doubling the braces of any text and formatting it gives the text back, whatever the
  arguments.\<close>

theorem escape_roundtrip:
  "FormatMessage fp cap (escape_braces s) args = take (cap - 1) s \<and>
   FormatInto fp junk cap (escape_braces s) args = take (cap - 1) s"
proof -
  have "scan_ref argtext n (escape_braces s) k = s" for argtext n k
    by (induction s arbitrary: k) (simp_all add: escape_braces_def scan_ref.simps)
  then show ?thesis
    using message.scan_is_take [of "[]" cap fp args "escape_braces s" 0] into.scan_is_take [of "[]" cap fp junk args "escape_braces s" 0]
    by (simp add: FormatMessage_def FormatInto_def)
qed

text \<open>The spec parser inverts printing: every spec of the documented subset
  \<open>[0][width][.prec][type]\<close>, with a positive width up to 96 and a precision up to 64, is parsed
  back exactly; and whatever the input, width and precision stay within these clamps.\<close>

theorem spec_roundtrip:
  assumes "\<forall>n. w = Some n \<longrightarrow> 0 < n \<and> n \<le> 96" "\<forall>n. p = Some n \<longrightarrow> n \<le> 64" "\<forall>c. t = Some c \<longrightarrow> c \<in> set spec_types"
  shows "ParseSpec (print_spec z w p t) = spec_of z w p t"
proof -
  let ?t = "case t of None \<Rightarrow> [] | Some c \<Rightarrow> [c]"
  let ?p = "(case p of None \<Rightarrow> [] | Some n \<Rightarrow> CHR ''.'' # digits 10 False n) @ ?t"
  let ?w = "(case w of None \<Rightarrow> [] | Some n \<Rightarrow> digits 10 False n) @ ?p"
  have t: "\<not> starts is_digit ?t" "\<not> starts (\<lambda>c. c = CHR ''.'') ?t" "\<not> starts (\<lambda>c. c = CHR ''0'') ?t"
    using assms(3) spec_types_not_digit by (auto split: option.splits)
  have ty: "parse_type s ?t = s\<lparr>conv_type := (case t of None \<Rightarrow> conv_type s | Some c \<Rightarrow> Some c), ok := True\<rparr>" for s
    using assms(3) by (auto simp: parse_type_def split: option.splits)
  have pr: "parse_prec s ?p = parse_type (s\<lparr>prec := (case p of None \<Rightarrow> prec s | Some n \<Rightarrow> int n)\<rparr>) ?t" for s
  proof (cases p)
    case None
    with t(2) show ?thesis by (auto simp: parse_prec_def)
  next
    case (Some n)
    then have "parse_num kMaxPrec 0 (digits 10 False n @ ?t) = (int n, ?t)"
      using assms(2) parse_digits [of n kMaxPrec False ?t] parse_num_stop [OF t(1)] by (simp add: kMaxPrec_def)
    with Some digits_first(1) [of False n ?t] show ?thesis by (simp add: parse_prec_def)
  qed
  have pp: "\<not> starts is_digit ?p" "\<not> starts (\<lambda>c. c = CHR ''0'') ?p"
    using t by (auto simp: is_digit_def split: option.splits)
  have wi: "parse_width s ?w = parse_prec (s\<lparr>width := (case w of None \<Rightarrow> width s | Some n \<Rightarrow> int n)\<rparr>) ?p" for s
  proof (cases w)
    case None
    with pp(1) show ?thesis by (auto simp: parse_width_def)
  next
    case (Some n)
    then have "parse_num kMaxWidth 0 ?w = (int n, ?p)"
      using assms(1) parse_digits [of n kMaxWidth False ?p] parse_num_stop [OF pp(1)] by (simp add: kMaxWidth_def)
    with Some digits_first(1) [of False n ?p] show ?thesis by (simp add: parse_width_def)
  qed
  have ww: "\<not> starts (\<lambda>c. c = CHR ''0'') ?w"
    using pp assms(1) digits_first(2) [of _ False ?p] by (cases w) auto
  have "ParseSpec (print_spec z w p t) = parse_width (default_spec\<lparr>zero := z\<rparr>) ?w"
  proof (cases z)
    case True
    then show ?thesis by (simp add: ParseSpec_def print_spec_def)
  next
    case False
    have "ParseSpec s = parse_width default_spec s" if "\<not> starts (\<lambda>c. c = CHR ''0'') s" for s
      using that by (auto simp: ParseSpec_def)
    from this [OF ww] False show ?thesis by (simp add: print_spec_def default_spec_def)
  qed
  then show ?thesis
    by (auto simp: wi pr ty spec_of_def default_spec_def split: option.splits)
qed

theorem spec_roundtrip_witness:
  "ParseSpec ''08.3f'' = \<lparr>ok = True, zero = True, width = 8, prec = 3, conv_type = Some CHR ''f''\<rparr>"
proof -
  have "print_spec True (Some 8) (Some 3) (Some CHR ''f'') = ''08.3f''"
    by code_simp
  with spec_roundtrip [of "Some 8" "Some 3" "Some CHR ''f''" True] show ?thesis
    by (simp add: spec_of_def spec_types_def)
qed

text \<open>Whatever text stands in a placeholder, the parsed width is at most 96 and the
  precision at most 64, so no format string makes a rendering exceed the line.\<close>

theorem spec_clamped:
  "width (ParseSpec s) \<le> 96 \<and> prec (ParseSpec s) \<le> 64 \<and> - 1 \<le> width (ParseSpec s) \<and> - 1 \<le> prec (ParseSpec s)"
proof -
  have n: "0 \<le> n \<Longrightarrow> 0 \<le> fst (parse_num mx n s)" if "0 \<le> mx" for mx n s
    using that
  proof (induction mx n s rule: parse_num.induct)
    case (2 mx w c cs)
    then show ?case by (auto simp: Let_def is_digit_def digit_val_def)
  qed simp
  have ty: "width (parse_type f s) = width f" "prec (parse_type f s) = prec f" for f s
    by (simp_all add: parse_type_def)
  have pr: "width (parse_prec f s) = width f" "prec f \<le> 64 \<Longrightarrow> prec (parse_prec f s) \<le> 64"
    "- 1 \<le> prec f \<Longrightarrow> - 1 \<le> prec (parse_prec f s)" for f s
    using parse_num_bound [of kMaxPrec 0 "tl s"] n [of kMaxPrec 0 "tl s"]
    by (auto simp: parse_prec_def ty kMaxPrec_def Let_def split_beta)
  have wi: "width f \<le> 96 \<Longrightarrow> width (parse_width f s) \<le> 96" "prec f \<le> 64 \<Longrightarrow> prec (parse_width f s) \<le> 64"
    "- 1 \<le> prec f \<Longrightarrow> - 1 \<le> prec (parse_width f s)" "- 1 \<le> width f \<Longrightarrow> - 1 \<le> width (parse_width f s)" for f s
    using parse_num_bound [of kMaxWidth 0 s] n [of kMaxWidth 0 s]
    by (auto simp: parse_width_def pr kMaxWidth_def Let_def split_beta)
  show ?thesis unfolding ParseSpec_def by (auto intro!: wi)
qed

text \<open>Decimal rendering is faithful: reading the digits of the default rendering of a
  64-bit integer, with its sign, gives the integer back; an unsigned one likewise.\<close>

theorem decimal_roundtrip:
  "(\<exists>sign ds. plain_text fp (AInt w) = sign @ ds \<and> sign = (if sint w < 0 then ''-'' else []) \<and>
      parse_num (2 ^ 64) 0 ds = (\<bar>sint w\<bar>, [])) \<and>
   parse_num (2 ^ 64) 0 (plain_text fp (AUint w)) = (uint w, [])"
proof -
  have d: "parse_num (2 ^ 64) 0 (digits 10 False n) = (int n, [])" if "int n \<le> 2 ^ 64" for n
    using parse_digits [OF that, of False "[]"] by simp
  have "\<bar>sint w\<bar> \<le> 2 ^ 64" using sint_ge [of w] sint_lt [of w] by simp
  moreover have "uint w \<le> 2 ^ 64" using unsigned_less [of w, where ?'a = int] by simp
  then have "int (unat w) \<le> 2 ^ 64" by (simp only: uint_nat)
  from d [OF this] have "parse_num (2 ^ 64) 0 (digits 10 False (unat w)) = (uint w, [])" by (simp only: uint_nat)
  ultimately show ?thesis using d [of "nat \<bar>sint w\<bar>"] by (simp add: printf_int_def pad_to_def)
qed

end
