(* ===== verification/Trace_Context.thy ===== *)
theory Trace_Context
  imports Prelude
begin

text \<open>
  \<open>telemetry/context.hpp\<close>, the id generator \<open>NextId\<close> of \<open>telemetry_unbound.cpp\<close> and
  \<open>telemetry/span.hpp\<close>: the thread's current context, minting, envelope carriage, and the RAII
  scopes \<open>ContextGuard\<close> and \<open>Span\<close>. One thread's state is explicit; the values of
  \<open>std::random_device\<close> and the times read are arguments.
\<close>

section \<open>Ids and contexts\<close>

record TraceId =
  hi :: u64
  lo :: u64

definition TraceId_valid :: "TraceId \<Rightarrow> bool" where
  "TraceId_valid t \<longleftrightarrow> hi t OR lo t \<noteq> 0"

definition SpanId_valid :: "u64 \<Rightarrow> bool" where
  "SpanId_valid s \<longleftrightarrow> s \<noteq> 0"

record Context =
  trace :: TraceId
  span :: u64

definition zero_context :: Context where
  "zero_context = \<lparr>trace = \<lparr>hi = 0, lo = 0\<rparr>, span = 0\<rparr>"

definition Context_valid :: "Context \<Rightarrow> bool" where
  "Context_valid c = TraceId_valid (trace c)"

text \<open>The thread-local state: the current context and the generator, unseeded at first.\<close>

record Thread =
  current :: Context
  gen_state :: "u64 option"

definition CurrentContext :: "Thread \<Rightarrow> Context" where
  "CurrentContext th = current th"

definition SetCurrentContext :: "Context \<Rightarrow> Thread \<Rightarrow> Thread" where
  "SetCurrentContext ctx th = th\<lparr>current := ctx\<rparr>"

definition golden :: u64 where
  "golden = 0x9E3779B97F4A7C15"

definition seed_of :: "u32 \<Rightarrow> u32 \<Rightarrow> u64" where
  "seed_of r1 r2 = (let s = push_bit 32 (ucast r1) XOR ucast r2 in if s \<noteq> 0 then s else golden)"

text \<open>The splitmix64 output function.\<close>

definition mix64 :: "u64 \<Rightarrow> u64" where
  "mix64 z0 =
     (let z = (z0 XOR drop_bit 30 z0) * 0xBF58476D1CE4E5B9;
          z = (z XOR drop_bit 27 z) * 0x94D049BB133111EB
      in z XOR drop_bit 31 z)"

definition NextId :: "u32 \<times> u32 \<Rightarrow> Thread \<Rightarrow> u64 \<times> Thread" where
  "NextId rd th =
     (let st = (case gen_state th of None \<Rightarrow> seed_of (fst rd) (snd rd) | Some s \<Rightarrow> s) + golden;
          z = mix64 st
      in (if z \<noteq> 0 then z else 1, th\<lparr>gen_state := Some st\<rparr>))"

definition NewTrace :: "u32 \<times> u32 \<Rightarrow> Thread \<Rightarrow> Context \<times> Thread" where
  "NewTrace rd th =
     (let (a, th) = NextId rd th; (b, th) = NextId rd th; (c, th) = NextId rd th
      in (\<lparr>trace = \<lparr>hi = a, lo = b\<rparr>, span = c\<rparr>, th))"

section \<open>Envelope carriage\<close>

definition kContextWireSize :: nat where
  "kContextWireSize = 24"

definition Inject :: "Context \<Rightarrow> u8 list" where
  "Inject ctx = bytes_of_u64 (hi (trace ctx)) @ bytes_of_u64 (lo (trace ctx)) @ bytes_of_u64 (span ctx)"

text \<open>A null pointer is \<open>None\<close>.\<close>

definition Extract :: "u8 list option \<Rightarrow> Context" where
  "Extract bytes =
     (case bytes of
        None \<Rightarrow> zero_context
      | Some bs \<Rightarrow>
          if length bs < kContextWireSize then zero_context
          else \<lparr>trace = \<lparr>hi = u64_of_bytes (take 8 bs), lo = u64_of_bytes (take 8 (drop 8 bs))\<rparr>,
                 span = u64_of_bytes (take 8 (drop 16 bs))\<rparr>)"

section \<open>Spans\<close>

record Span =
  sp_name :: string
  sp_begin :: int
  sp_saved :: Context
  sp_parent :: u64
  sp_links :: "Context list"

definition kMaxSpanLinks :: nat where
  "kMaxSpanLinks = 4"

text \<open>\<open>Begin\<close>: the parent and the thread with the child context installed.\<close>

definition Span_Begin :: "u32 \<times> u32 \<Rightarrow> Context \<Rightarrow> Thread \<Rightarrow> u64 \<times> Thread" where
  "Span_Begin rd saved th =
     (let (child, th) =
        (if \<not> TraceId_valid (trace saved)
         then let (a, th) = NextId rd th; (b, th) = NextId rd th
              in (\<lparr>trace = \<lparr>hi = a, lo = b\<rparr>, span = 0\<rparr>, th)
         else (saved, th));
          parent = span child;
          (c, th) = NextId rd th
      in (parent, th\<lparr>current := child\<lparr>span := c\<rparr>\<rparr>))"

definition AddLink :: "Context \<Rightarrow> Span \<Rightarrow> Span" where
  "AddLink link sp =
     (if length (sp_links sp) < kMaxSpanLinks \<and> Context_valid link
      then sp\<lparr>sp_links := sp_links sp @ [link]\<rparr> else sp)"

definition Span_ctor :: "u32 \<times> u32 \<Rightarrow> string \<Rightarrow> int \<Rightarrow> Thread \<Rightarrow> Span \<times> Thread" where
  "Span_ctor rd name now th =
     (let saved = current th; (parent, th') = Span_Begin rd saved th
      in (\<lparr>sp_name = name, sp_begin = now, sp_saved = saved, sp_parent = parent, sp_links = []\<rparr>, th'))"

definition Span_ctor_linked :: "u32 \<times> u32 \<Rightarrow> string \<Rightarrow> Context \<Rightarrow> int \<Rightarrow> Thread \<Rightarrow> Span \<times> Thread" where
  "Span_ctor_linked rd name link now th = (let (sp, th') = Span_ctor rd name now th in (AddLink link sp, th'))"

text \<open>What the destructor hands to \<open>emit_span\<close> of an active binding.\<close>

record SpanRecord =
  rec_name :: string
  rec_ctx :: Context
  rec_parent :: u64
  rec_begin :: int
  rec_end :: int
  rec_links :: "Context list"

definition Span_dtor :: "bool \<Rightarrow> int \<Rightarrow> Span \<Rightarrow> Thread \<Rightarrow> SpanRecord list \<times> Thread" where
  "Span_dtor bound now sp th =
     (let ctx = current th; th' = th\<lparr>current := sp_saved sp\<rparr>
      in (if bound then [\<lparr>rec_name = sp_name sp, rec_ctx = ctx, rec_parent = sp_parent sp,
             rec_begin = sp_begin sp, rec_end = now, rec_links = sp_links sp\<rparr>] else [], th'))"

section \<open>Scopes\<close>

text \<open>
  Blocks of a thread: a span scope (with the times of its two clock reads and an optional link),
  a guard scope, a link added to the innermost open span, and a bare \<open>SetCurrentContext\<close>.
\<close>

datatype scope =
    InSpan string int int "Context option" "scope list"
  | InGuard Context "scope list"
  | Link Context
  | SetCtx Context

record Env =
  thread :: Thread
  open_spans :: "Span list"
  emitted :: "SpanRecord list"

definition ContextGuard_enter :: "Context \<Rightarrow> Thread \<Rightarrow> Context \<times> Thread" where
  "ContextGuard_enter ctx th = (current th, th\<lparr>current := ctx\<rparr>)"

definition ContextGuard_exit :: "Context \<Rightarrow> Thread \<Rightarrow> Thread" where
  "ContextGuard_exit saved th = th\<lparr>current := saved\<rparr>"

fun run_scope :: "u32 \<times> u32 \<Rightarrow> bool \<Rightarrow> scope \<Rightarrow> Env \<Rightarrow> Env"
  and run_scopes :: "u32 \<times> u32 \<Rightarrow> bool \<Rightarrow> scope list \<Rightarrow> Env \<Rightarrow> Env" where
  "run_scope rd bound (InSpan name t0 t1 link body) e =
     (let (sp, th) = (case link of None \<Rightarrow> Span_ctor rd name t0 (thread e)
                      | Some l \<Rightarrow> Span_ctor_linked rd name l t0 (thread e));
          e1 = run_scopes rd bound body (e\<lparr>thread := th, open_spans := sp # open_spans e\<rparr>);
          (recs, th') = Span_dtor bound t1 (hd (open_spans e1)) (thread e1)
      in e1\<lparr>thread := th', open_spans := tl (open_spans e1), emitted := emitted e1 @ recs\<rparr>)"
| "run_scope rd bound (InGuard ctx body) e =
     (let (saved, th) = ContextGuard_enter ctx (thread e);
          e1 = run_scopes rd bound body (e\<lparr>thread := th\<rparr>)
      in e1\<lparr>thread := ContextGuard_exit saved (thread e1)\<rparr>)"
| "run_scope rd bound (Link ctx) e =
     e\<lparr>open_spans := (case open_spans e of [] \<Rightarrow> [] | sp # sps \<Rightarrow> AddLink ctx sp # sps)\<rparr>"
| "run_scope rd bound (SetCtx ctx) e = e\<lparr>thread := SetCurrentContext ctx (thread e)\<rparr>"
| "run_scopes rd bound [] e = e"
| "run_scopes rd bound (p # ps) e = run_scopes rd bound ps (run_scope rd bound p e)"

section \<open>The generator\<close>

lemma xorshift_inj:
  assumes "0 < k" "(x :: u64) XOR drop_bit k x = y XOR drop_bit k y"
  shows "x = y"
proof -
  let ?z = "x XOR y"
  have e: "bit ?z n \<longleftrightarrow> bit ?z (k + n)" for n
  proof -
    have "bit (x XOR drop_bit k x) n = bit (y XOR drop_bit k y) n" using assms(2) by simp
    then show ?thesis by (auto simp: bit_simps)
  qed
  have "\<not> bit ?z n" for n
  proof (induction "64 - n" arbitrary: n rule: less_induct)
    case less
    show ?case
    proof (cases "n < 64")
      case True
      then have "\<not> bit ?z (k + n)" using less [of "k + n"] assms(1) by simp
      then show ?thesis using e [of n] by simp
    next
      case False
      then show ?thesis by (auto dest: bit_imp_le_length)
    qed
  qed
  then have "?z = 0" by (intro bit_word_eqI) simp
  then show ?thesis by (simp only: word_xor_zero_iff)
qed

lemma mult_odd_inj:
  assumes "(c :: u64) * d = 1" "x * c = y * c" shows "x = y"
proof -
  have "x * c * d = y * c * d" using assms(2) by simp
  then show ?thesis using assms(1) by (simp add: mult.assoc)
qed

lemma mix64_inj: "mix64 x = mix64 y \<longleftrightarrow> x = y"
proof
  assume e: "mix64 x = mix64 y"
  have m: "(0x94D049BB133111EB :: u64) * 0x319642b2d24d8ec3 = 1" "(0xBF58476D1CE4E5B9 :: u64) * 0x96de1b173f119089 = 1"
    by simp_all
  note a = xorshift_inj [OF _ e [unfolded mix64_def Let_def], simplified]
  note b = xorshift_inj [OF _ mult_odd_inj [OF m(1) a], simplified]
  note c = xorshift_inj [OF _ mult_odd_inj [OF m(2) b], simplified]
  from c show "x = y" .
qed simp

text \<open>The ids of \<open>n\<close> successive calls.\<close>

fun next_ids :: "u32 \<times> u32 \<Rightarrow> nat \<Rightarrow> Thread \<Rightarrow> u64 list" where
  "next_ids rd 0 th = []"
| "next_ids rd (Suc n) th = (let (i, th') = NextId rd th in i # next_ids rd n th')"

definition gen_seed :: "u32 \<times> u32 \<Rightarrow> Thread \<Rightarrow> u64" where
  "gen_seed rd th = (case gen_state th of None \<Rightarrow> seed_of (fst rd) (snd rd) | Some s \<Rightarrow> s)"

lemma next_ids_nth:
  "k < n \<Longrightarrow> next_ids rd n th ! k =
     (let z = mix64 (gen_seed rd th + of_nat (Suc k) * golden) in if z \<noteq> 0 then z else 1)"
proof (induction n arbitrary: k th)
  case (Suc n)
  have step: "gen_seed rd (snd (NextId rd th)) = gen_seed rd th + golden"
    by (simp add: NextId_def gen_seed_def Let_def)
  show ?case
  proof (cases k)
    case 0
    then show ?thesis by (simp add: NextId_def gen_seed_def Let_def)
  next
    case (Suc j)
    with Suc.IH [of j "snd (NextId rd th)"] Suc.prems step show ?thesis
      by (simp add: split_beta algebra_simps)
  qed
qed simp

lemma length_next_ids [simp]: "length (next_ids rd n th) = n"
  by (induction n arbitrary: th) (simp_all add: split_beta)

lemma NextId_nonzero: "fst (NextId rd th) \<noteq> 0"
  by (simp add: NextId_def Let_def)

section \<open>Scope lemmas\<close>

definition fixed_part :: "Span \<Rightarrow> Span" where
  "fixed_part sp = sp\<lparr>sp_links := []\<rparr>"

definition links_ok :: "Context list \<Rightarrow> bool" where
  "links_ok ls \<longleftrightarrow> length ls \<le> kMaxSpanLinks \<and> (\<forall>c \<in> set ls. Context_valid c)"

definition env_ok :: "Env \<Rightarrow> bool" where
  "env_ok e \<longleftrightarrow> (\<forall>sp \<in> set (open_spans e). links_ok (sp_links sp)) \<and> (\<forall>r \<in> set (emitted e). links_ok (rec_links r))"

lemma env_ok_thread [simp]: "env_ok (e\<lparr>thread := th\<rparr>) \<longleftrightarrow> env_ok e"
  by (simp add: env_ok_def)

lemma AddLink_sel [simp]: "fixed_part (AddLink l sp) = fixed_part sp" "sp_saved (AddLink l sp) = sp_saved sp"
  by (simp_all add: AddLink_def fixed_part_def)

lemma AddLink_ok: "links_ok (sp_links sp) \<Longrightarrow> links_ok (sp_links (AddLink l sp))"
  by (auto simp: AddLink_def links_ok_def)

text \<open>The span a scope opens and the thread it runs its body in.\<close>

definition opened :: "u32 \<times> u32 \<Rightarrow> string \<Rightarrow> int \<Rightarrow> Context option \<Rightarrow> Thread \<Rightarrow> Span \<times> Thread" where
  "opened rd name t0 link th =
     (case link of None \<Rightarrow> Span_ctor rd name t0 th | Some l \<Rightarrow> Span_ctor_linked rd name l t0 th)"

lemma opened_sel:
  "sp_saved (fst (opened rd name t0 link th)) = current th" "sp_parent (fst (opened rd name t0 link th)) = fst (Span_Begin rd (current th) th)"
  "snd (opened rd name t0 link th) = snd (Span_Begin rd (current th) th)"
  "links_ok (sp_links (fst (opened rd name t0 link th)))"
  by (auto simp: opened_def Span_ctor_def Span_ctor_linked_def split_beta Let_def AddLink_def links_ok_def kMaxSpanLinks_def
      split: option.splits)

lemma run_InSpan:
  fixes rd bound name t0 t1 link body e
  defines "o' \<equiv> opened rd name t0 link (thread e)"
  defines "e1 \<equiv> run_scopes rd bound body (e\<lparr>thread := snd o', open_spans := fst o' # open_spans e\<rparr>)"
  shows "run_scope rd bound (InSpan name t0 t1 link body) e =
    e1\<lparr>thread := (thread e1)\<lparr>current := sp_saved (hd (open_spans e1))\<rparr>, open_spans := tl (open_spans e1),
       emitted := emitted e1 @ fst (Span_dtor bound t1 (hd (open_spans e1)) (thread e1))\<rparr>"
  unfolding e1_def o'_def by (simp add: opened_def split_beta Let_def Span_dtor_def split: option.splits)

lemma scope_frame:
  "map fixed_part (open_spans (run_scope rd bound p e)) = map fixed_part (open_spans e)"
  "map fixed_part (open_spans (run_scopes rd bound ps e)) = map fixed_part (open_spans e)"
proof (induction rd bound p e and rd bound ps e rule: run_scope_run_scopes.induct)
  case (1 rd bound name t0 t1 link body e)
  let ?o = "opened rd name t0 link (thread e)"
  let ?e1 = "run_scopes rd bound body (e\<lparr>thread := snd ?o, open_spans := fst ?o # open_spans e\<rparr>)"
  have "map fixed_part (open_spans ?e1) = fixed_part (fst ?o) # map fixed_part (open_spans e)"
    using "1.IH" by (simp add: opened_def split_beta Let_def split: option.splits)
  then show ?case unfolding run_InSpan by (auto simp: map_eq_Cons_conv)
qed (auto simp: split_beta Let_def ContextGuard_enter_def split: list.splits)

text \<open>After the body of a span the innermost open span is the one it opened, with more links.\<close>

lemma body_span:
  fixes rd bound name t0 link body e
  defines "o' \<equiv> opened rd name t0 link (thread e)"
  defines "e1 \<equiv> run_scopes rd bound body (e\<lparr>thread := snd o', open_spans := fst o' # open_spans e\<rparr>)"
  shows "\<exists>sp sps. open_spans e1 = sp # sps \<and> sp_saved sp = current (thread e) \<and> sp_parent sp = sp_parent (fst o') \<and>
    map fixed_part sps = map fixed_part (open_spans e)"
proof -
  have "map fixed_part (open_spans e1) = fixed_part (fst o') # map fixed_part (open_spans e)"
    unfolding e1_def by (simp add: scope_frame)
  then obtain sp sps where s: "open_spans e1 = sp # sps" "fixed_part sp = fixed_part (fst o')"
      "map fixed_part sps = map fixed_part (open_spans e)" by (auto simp: map_eq_Cons_conv)
  then have "sp_saved sp = sp_saved (fst o')" "sp_parent sp = sp_parent (fst o')"
    unfolding fixed_part_def by (metis Span.ext_inject Span.surjective Span.update_convs(5))+
  with s show ?thesis by (simp add: o'_def opened_sel)
qed

lemma scope_restores:
  "p \<notin> range SetCtx \<Longrightarrow> current (thread (run_scope rd bound p e)) = current (thread e)"
proof (cases p)
  case (InSpan name t0 t1 link body)
  obtain sp sps where "open_spans (run_scopes rd bound body (e\<lparr>thread := snd (opened rd name t0 link (thread e)),
      open_spans := fst (opened rd name t0 link (thread e)) # open_spans e\<rparr>)) = sp # sps" "sp_saved sp = current (thread e)"
    using body_span [of rd bound body name t0 link e] by blast
  then show ?thesis unfolding InSpan run_InSpan by simp
qed (simp_all add: ContextGuard_enter_def ContextGuard_exit_def Let_def)

lemma scopes_restore:
  "set ps \<inter> range SetCtx = {} \<Longrightarrow> current (thread (run_scopes rd bound ps e)) = current (thread e)"
  by (induction ps arbitrary: e) (auto simp: scope_restores)

lemma scope_ok:
  "env_ok e \<Longrightarrow> env_ok (run_scope rd bound p e)"
  "env_ok e \<Longrightarrow> env_ok (run_scopes rd bound ps e)"
proof (induction rd bound p e and rd bound ps e rule: run_scope_run_scopes.induct)
  case (1 rd bound name t0 t1 link body e)
  let ?o = "opened rd name t0 link (thread e)"
  let ?e0 = "e\<lparr>thread := snd ?o, open_spans := fst ?o # open_spans e\<rparr>"
  let ?e1 = "run_scopes rd bound body ?e0"
  have "env_ok ?e0" using "1.prems" by (simp add: env_ok_def opened_sel)
  then have "env_ok ?e1" using "1.IH" [of ?o "fst ?o" "snd ?o"] by (simp add: opened_def)
  moreover obtain sp sps where "open_spans ?e1 = sp # sps" using body_span [of rd bound body name t0 link e] by blast
  ultimately show ?case unfolding run_InSpan by (auto simp: env_ok_def Span_dtor_def Let_def)
next
  case (2 rd bound ctx body e)
  then show ?case by (simp add: ContextGuard_enter_def Let_def)
next
  case (3 rd bound ctx e)
  then show ?case by (cases "open_spans e") (simp_all add: env_ok_def AddLink_ok)
qed (simp_all add: SetCurrentContext_def)

fun spans_only :: "scope \<Rightarrow> bool" where
  "spans_only (InSpan _ _ _ _ body) = (\<forall>p \<in> set body. spans_only p)"
| "spans_only (Link _) = True"
| "spans_only _ = False"

lemma NewTrace_valid: "Context_valid (fst (NewTrace rd th))"
  using NextId_nonzero [of rd th]
  by (auto simp: NewTrace_def Context_valid_def TraceId_valid_def split_beta Let_def or_eq_0_iff)

lemma NewTrace_current: "current (snd (NewTrace rd th)) = current th"
  by (simp add: NewTrace_def NextId_def split_beta Let_def)

lemma Span_Begin_valid:
  assumes "Context_valid (current th)"
  shows "fst (Span_Begin rd (current th) th) = span (current th)"
    "trace (current (snd (Span_Begin rd (current th) th))) = trace (current th)"
    "span (current (snd (Span_Begin rd (current th) th))) \<noteq> 0"
  using assms NextId_nonzero [of rd th] by (simp_all add: Span_Begin_def Context_valid_def split_beta Let_def)

text \<open>
  What the spans of nested scopes should record, read off the nesting alone: no thread, no stack of open spans, no
  current context that is set and restored. A span's own context is its enclosing trace under a fresh identifier (or a
  fresh trace when there is none), its parent the enclosing span, its links the first four valid ones among its
  constructor's and those added directly in its body; it is recorded after the spans of its body. \<open>ids k\<close> is the
  \<open>k\<close>-th identifier drawn.
\<close>

fun direct_links :: "scope \<Rightarrow> Context list" where
  "direct_links (Link ctx) = [ctx]"
| "direct_links (InGuard ctx body) = concat (map direct_links body)"
| "direct_links _ = []"

fun span_tree :: "(nat \<Rightarrow> u64) \<Rightarrow> Context \<Rightarrow> nat \<Rightarrow> scope \<Rightarrow> SpanRecord list \<times> nat"
  and span_trees :: "(nat \<Rightarrow> u64) \<Rightarrow> Context \<Rightarrow> nat \<Rightarrow> scope list \<Rightarrow> SpanRecord list \<times> nat" where
  "span_tree ids c n (InSpan name t0 t1 link body) =
     (let (me, parent, n1) =
        (if TraceId_valid (trace c) then (\<lparr>trace = trace c, span = ids n\<rparr>, span c, n + 1)
         else (\<lparr>trace = \<lparr>hi = ids n, lo = ids (n + 1)\<rparr>, span = ids (n + 2)\<rparr>, 0, n + 3));
          (rs, m) = span_trees ids me n1 body
      in (rs @ [\<lparr>rec_name = name, rec_ctx = me, rec_parent = parent, rec_begin = t0, rec_end = t1,
            rec_links = take 4 (filter Context_valid (case_option [] (\<lambda>l. [l]) link @ concat (map direct_links body)))\<rparr>], m))"
| "span_tree ids c n (InGuard ctx body) = span_trees ids ctx n body"
| "span_tree ids c n (Link ctx) = ([], n)"
| "span_tree ids c n (SetCtx ctx) = ([], n)"
| "span_trees ids c n [] = ([], n)"
| "span_trees ids c n (p # ps) = (let (rs, m) = span_tree ids c n p; (qs, k) = span_trees ids c m ps in (rs @ qs, k))"

fun no_set :: "scope \<Rightarrow> bool" where
  "no_set (InSpan name t0 t1 link body) = (\<forall>p \<in> set body. no_set p)"
| "no_set (InGuard ctx body) = (\<forall>p \<in> set body. no_set p)"
| "no_set (SetCtx ctx) = False"
| "no_set (Link ctx) = True"

text \<open>The identifiers a thread draws from a generator state.\<close>

definition drawn_id :: "u64 \<Rightarrow> nat \<Rightarrow> u64" where
  "drawn_id g k = (let z = mix64 (g + of_nat (k + 1) * golden) in if z \<noteq> 0 then z else 1)"

definition on_top :: "Context list \<Rightarrow> Span list \<Rightarrow> Span list" where
  "on_top ls sps = (case sps of [] \<Rightarrow> [] | sp # r \<Rightarrow> fold AddLink ls sp # r)"

lemma on_top_simps [simp]:
  "on_top [] sps = sps" "on_top ks (on_top ls sps) = on_top (ls @ ks) sps" "on_top ls (sp # sps) = fold AddLink ls sp # sps"
  by (simp_all add: on_top_def split: list.splits)

lemma gen_seed_thread [simp]: "gen_seed rd (th\<lparr>current := c\<rparr>) = gen_seed rd th"
  by (simp add: gen_seed_def)

lemma NextId_drawn:
  assumes "gen_seed rd th = g + of_nat n * golden"
  shows "fst (NextId rd th) = drawn_id g n" "gen_seed rd (snd (NextId rd th)) = g + of_nat (Suc n) * golden"
    "current (snd (NextId rd th)) = current th"
  using assms by (simp_all add: NextId_def gen_seed_def drawn_id_def Let_def algebra_simps)

lemma add_links:
  "length (sp_links sp) \<le> 4 \<Longrightarrow>
     fold AddLink ls sp = sp\<lparr>sp_links := take 4 (sp_links sp @ filter Context_valid ls)\<rparr>"
proof (induction ls arbitrary: sp)
  case (Cons l ls)
  from Cons.IH [of "AddLink l sp"] Cons.prems show ?case by (auto simp: AddLink_def kMaxSpanLinks_def take_Cons')
qed simp

lemma Span_Begin_drawn:
  assumes "gen_seed rd th = g + of_nat n * golden"
  shows "Span_Begin rd c th =
    (if TraceId_valid (trace c)
     then (span c, (snd (NextId rd th))\<lparr>current := \<lparr>trace = trace c, span = drawn_id g n\<rparr>\<rparr>)
     else (0, (snd (NextId rd (snd (NextId rd (snd (NextId rd th))))))\<lparr>current :=
       \<lparr>trace = \<lparr>hi = drawn_id g n, lo = drawn_id g (n + 1)\<rparr>, span = drawn_id g (n + 2)\<rparr>\<rparr>))"
  using NextId_drawn [OF assms] NextId_drawn [OF NextId_drawn(2) [OF assms]]
    NextId_drawn [OF NextId_drawn(2) [OF NextId_drawn(2) [OF assms]]]
  by (simp add: Span_Begin_def split_beta Let_def)

text \<open>The thread's run of nested scopes records that tree.\<close>

definition tree_run :: "u32 \<times> u32 \<Rightarrow> u64 \<Rightarrow> SpanRecord list \<times> nat \<Rightarrow> Context list \<Rightarrow> Env \<Rightarrow> Env \<Rightarrow> bool" where
  "tree_run rd g rm ls e e' \<longleftrightarrow> emitted e' = emitted e @ fst rm \<and> gen_seed rd (thread e') = g + of_nat (snd rm) * golden \<and>
     current (thread e') = current (thread e) \<and> open_spans e' = on_top ls (open_spans e)"

lemma opened_drawn:
  assumes "gen_seed rd th = g + of_nat n * golden" "opened rd name t0 link th = (sp, th1)"
  shows "let (me, parent, n1) =
        (if TraceId_valid (trace (current th)) then (\<lparr>trace = trace (current th), span = drawn_id g n\<rparr>, span (current th), n + 1)
         else (\<lparr>trace = \<lparr>hi = drawn_id g n, lo = drawn_id g (n + 1)\<rparr>, span = drawn_id g (n + 2)\<rparr>, 0, n + 3))
     in current th1 = me \<and> gen_seed rd th1 = g + of_nat n1 * golden \<and>
        sp = \<lparr>sp_name = name, sp_begin = t0, sp_saved = current th, sp_parent = parent,
          sp_links = filter Context_valid (case_option [] (\<lambda>l. [l]) link)\<rparr>"
  using assms(2) Span_Begin_drawn [OF assms(1), of "current th"] NextId_drawn(2) [OF assms(1)]
    NextId_drawn(2) [OF NextId_drawn(2) [OF NextId_drawn(2) [OF assms(1)]]]
  by (auto simp: opened_def Span_ctor_linked_def Span_ctor_def AddLink_def kMaxSpanLinks_def split_beta Let_def
      numeral_3_eq_3 split: option.splits if_splits)

lemma scopes_tree:
  "no_set p \<Longrightarrow> gen_seed rd (thread e) = g + of_nat n * golden \<Longrightarrow>
     tree_run rd g (span_tree (drawn_id g) (current (thread e)) n p) (direct_links p) e (run_scope rd True p e)"
  "\<forall>p \<in> set ps. no_set p \<Longrightarrow> gen_seed rd (thread e) = g + of_nat n * golden \<Longrightarrow>
     tree_run rd g (span_trees (drawn_id g) (current (thread e)) n ps) (concat (map direct_links ps)) e (run_scopes rd True ps e)"
proof (induction rd "True" p e and rd "True" ps e arbitrary: n and n rule: run_scope_run_scopes.induct)
  case (1 rd name t0 t1 link body e)
  obtain sp th1 where o': "opened rd name t0 link (thread e) = (sp, th1)" by fastforce
  let ?e0 = "e\<lparr>thread := th1, open_spans := sp # open_spans e\<rparr>"
  let ?e1 = "run_scopes rd True body ?e0"
  obtain me parent n1 where me: "(if TraceId_valid (trace (current (thread e))) then (\<lparr>trace = trace (current (thread e)), span = drawn_id g n\<rparr>, span (current (thread e)), n + 1)
         else (\<lparr>trace = \<lparr>hi = drawn_id g n, lo = drawn_id g (n + 1)\<rparr>, span = drawn_id g (n + 2)\<rparr>, 0, n + 3)) = (me, parent, n1)"
    by (cases "TraceId_valid (trace (current (thread e)))") auto
  note od = opened_drawn [OF "1.prems"(2) o', unfolded me Let_def, simplified]
  have body: "tree_run rd g (span_trees (drawn_id g) me n1 body) (concat (map direct_links body)) ?e0 ?e1"
    using "1.hyps" [OF refl o' [unfolded opened_def, symmetric], of n1] "1.prems"(1) od by simp
  let ?links = "case_option [] (\<lambda>l. [l]) link"
  have links: "fold AddLink (concat (map direct_links body)) sp =
      sp\<lparr>sp_links := take 4 (filter Context_valid (?links @ concat (map direct_links body)))\<rparr>"
    using od by (subst add_links) (auto split: option.splits)
  obtain rs m where rs: "span_trees (drawn_id g) me n1 body = (rs, m)" by fastforce
  have tree: "span_tree (drawn_id g) (current (thread e)) n (InSpan name t0 t1 link body) =
      (rs @ [\<lparr>rec_name = name, rec_ctx = me, rec_parent = parent, rec_begin = t0, rec_end = t1,
            rec_links = take 4 (filter Context_valid (?links @ concat (map direct_links body)))\<rparr>], m)"
    unfolding span_tree.simps me by (simp add: rs)
  show ?case
    unfolding tree run_InSpan o' using body od links
    by (simp add: tree_run_def rs Span_dtor_def Let_def)
next
  case (2 rd ctx body e)
  from "2.hyps" [OF refl ContextGuard_enter_def [symmetric], of n] "2.prems" show ?case
    by (simp add: tree_run_def ContextGuard_enter_def ContextGuard_exit_def Let_def)
next
  case (3 rd ctx e)
  then show ?case by (auto simp: tree_run_def on_top_def split: list.splits)
next
  case (6 rd p ps e)
  let ?t = "span_tree (drawn_id g) (current (thread e)) n p"
  have "tree_run rd g ?t (direct_links p) e (run_scope rd True p e)" using 6 by simp
  with "6.hyps"(2) [of "snd ?t"] "6.prems"(1) show ?case by (simp add: tree_run_def split_beta Let_def)
qed (simp_all add: tree_run_def)

text \<open>The records a scope adds.\<close>

lemma scope_trace:
  "spans_only p \<Longrightarrow> Context_valid (current (thread e)) \<Longrightarrow>
     \<exists>new. emitted (run_scope rd bound p e) = emitted e @ new \<and> (\<forall>r \<in> set new. trace (rec_ctx r) = trace (current (thread e)))"
  "\<forall>p \<in> set ps. spans_only p \<Longrightarrow> Context_valid (current (thread e)) \<Longrightarrow>
     \<exists>new. emitted (run_scopes rd bound ps e) = emitted e @ new \<and> (\<forall>r \<in> set new. trace (rec_ctx r) = trace (current (thread e)))"
proof (induction rd bound p e and rd bound ps e rule: run_scope_run_scopes.induct)
  case (1 rd bound name t0 t1 link body e)
  let ?o = "opened rd name t0 link (thread e)"
  let ?e0 = "e\<lparr>thread := snd ?o, open_spans := fst ?o # open_spans e\<rparr>"
  let ?e1 = "run_scopes rd bound body ?e0"
  have t: "trace (current (thread ?e0)) = trace (current (thread e))"
    using Span_Begin_valid(2) [OF "1.prems"(2)] by (simp add: opened_sel)
  then have "Context_valid (current (thread ?e0))" using "1.prems"(2) by (simp add: Context_valid_def)
  then obtain new where "emitted ?e1 = emitted e @ new" "\<forall>r \<in> set new. trace (rec_ctx r) = trace (current (thread ?e0))"
    using "1.IH" [of ?o "fst ?o" "snd ?o"] "1.prems"(1) by (auto simp: opened_def)
  moreover have "current (thread ?e1) = current (thread ?e0)"
    using "1.prems"(1) by (intro scopes_restore) auto
  ultimately show ?case
    unfolding run_InSpan using t by (auto simp: Span_dtor_def Let_def)
next
  case (6 rd bound p ps e)
  then have "current (thread (run_scope rd bound p e)) = current (thread e)" by (intro scope_restores) auto
  with 6 show ?case by fastforce
qed auto

section \<open>Properties\<close>

lemma next_ids_collide:
  assumes "n \<le> 2 ^ 64" "i < j" "j < n" "next_ids rd n th ! i = next_ids rd n th ! j"
  shows "next_ids rd n th ! i = 1 \<and> next_ids rd n th ! j = 1"
proof -
  let ?s = "\<lambda>k. gen_seed rd th + of_nat (Suc k) * golden"
  have g: "golden * 0xf1de83e19937733d = 1" by (simp add: golden_def)
  have "?s i \<noteq> ?s j"
  proof
    assume "?s i = ?s j"
    then have "(of_nat (Suc i) :: u64) * golden = of_nat (Suc j) * golden" by simp
    then have "(of_nat (Suc i) :: u64) = of_nat (Suc j)" by (rule mult_odd_inj [OF g])
    then have "(of_nat i :: u64) = of_nat j" by simp
    moreover have "unat (of_nat i :: u64) = i" "unat (of_nat j :: u64) = j"
      using assms(1-3) by (intro unat_of_nat_u64; linarith)+
    ultimately show False using assms(2) by simp
  qed
  then have "mix64 (?s i) \<noteq> mix64 (?s j)" unfolding mix64_inj .
  then show ?thesis
    using assms(2-4) next_ids_nth [of i n rd th] next_ids_nth [of j n rd th]
    by (auto simp: Let_def simp del: of_nat_Suc split: if_splits)
qed

lemma distinct_removeAll:
  assumes "\<And>i j. i < j \<Longrightarrow> j < length xs \<Longrightarrow> xs ! i = xs ! j \<Longrightarrow> xs ! i = c"
  shows "distinct (removeAll c xs)"
  using assms
proof (induction xs)
  case (Cons x xs)
  have "distinct (removeAll c xs)" using Cons.prems [of "Suc i" "Suc j" for i j] by (intro Cons.IH) auto
  moreover have "x \<noteq> c \<Longrightarrow> x \<notin> set xs"
    using Cons.prems [of 0 "Suc j" for j] by (auto simp: in_set_conv_nth)
  ultimately show ?case by auto
qed simp

text \<open>The generator never returns 0 and the ids of one thread do not collide: the
  next \<open>n \<le> 2^64\<close> ids are nonzero, and apart from the substitute 1 they are pairwise distinct.\<close>

theorem next_ids_distinct:
  assumes "n \<le> 2 ^ 64"
  shows "length (next_ids rd n th) = n \<and> 0 \<notin> set (next_ids rd n th) \<and> distinct (removeAll 1 (next_ids rd n th))"
proof (intro conjI)
  show "0 \<notin> set (next_ids rd n th)"
    by (auto simp: in_set_conv_nth next_ids_nth Let_def simp del: of_nat_Suc split: if_splits)
  show "distinct (removeAll 1 (next_ids rd n th))"
    using next_ids_collide [OF assms] by (intro distinct_removeAll) auto
qed simp

theorem next_ids_distinct_witness:
  "0 \<notin> set (next_ids (1, 2) 3 \<lparr>current = zero_context, gen_state = None\<rparr>) \<and>
   distinct (removeAll 1 (next_ids (1, 2) 3 \<lparr>current = zero_context, gen_state = None\<rparr>))"
  using next_ids_distinct [of 3 "(1, 2)" "\<lparr>current = zero_context, gen_state = None\<rparr>"] by simp

text \<open>A context survives the envelope: extracting what was injected, also with trailing
  bytes, gives it back; short or missing input gives the zero context; a minted context is
  valid with a valid span.\<close>

theorem context_envelope:
  "Extract (Some (Inject ctx @ rest)) = ctx \<and> length (Inject ctx) = kContextWireSize \<and>
   (length bs < kContextWireSize \<longrightarrow> Extract (Some bs) = zero_context) \<and> Extract None = zero_context \<and>
   Context_valid (fst (NewTrace rd th)) \<and> SpanId_valid (span (fst (NewTrace rd th))) \<and> \<not> Context_valid zero_context"
proof -
  have nz: "a OR b \<noteq> 0" if "a \<noteq> 0" for a b :: u64 using that by (simp add: or_eq_0_iff)
  show ?thesis
    using NextId_nonzero [of rd th] NextId_nonzero [of rd "snd (NextId rd (snd (NextId rd th)))"]
    by (auto simp: Extract_def Inject_def kContextWireSize_def zero_context_def Context_valid_def TraceId_valid_def
        SpanId_valid_def NewTrace_def split_beta Let_def nz)
qed

theorem context_envelope_witness:
  "Extract (Some [1, 2, 3]) = zero_context"
  using context_envelope [of _ _ "[1, 2, 3]"] by (simp add: kContextWireSize_def)

text \<open>Scopes do not leak: after any sequence of span and guard scopes, nested to any depth
  and with bare \<open>SetCurrentContext\<close> calls inside them, the thread's context is what it was
  before, and the spans that were open before are still open.\<close>

theorem scopes_restore_context:
  assumes "\<forall>p \<in> set ps. \<forall>ctx. p \<noteq> SetCtx ctx"
  shows "current (thread (run_scopes rd bound ps e)) = current (thread e) \<and>
    map fixed_part (open_spans (run_scopes rd bound ps e)) = map fixed_part (open_spans e)"
  using scopes_restore [of ps] scope_frame(2) assms by blast

theorem scopes_restore_context_witness:
  "current (thread (run_scopes (1, 2) True [InGuard \<lparr>trace = \<lparr>hi = 1, lo = 2\<rparr>, span = 3\<rparr> [SetCtx zero_context, InSpan ''a'' 0 1 None []]]
     \<lparr>thread = \<lparr>current = zero_context, gen_state = None\<rparr>, open_spans = [], emitted = []\<rparr>)) = zero_context"
  using scopes_restore_context [of "[InGuard \<lparr>trace = \<lparr>hi = 1, lo = 2\<rparr>, span = 3\<rparr> [SetCtx zero_context, InSpan ''a'' 0 1 None []]]"
      "(1, 2)" True "\<lparr>thread = \<lparr>current = zero_context, gen_state = None\<rparr>, open_spans = [], emitted = []\<rparr>"] by simp

text \<open>A span records its place in the trace: under a valid current context it emits, last,
  a record whose parent is the enclosing span and whose trace is the enclosing trace, with a
  fresh nonzero span id under which its body ran; every record of the body has the same trace,
  and no record carries more than four links or an invalid one.\<close>

theorem span_nesting:
  assumes "spans_only (InSpan name t0 t1 link body)" "Context_valid (current (thread e))" "env_ok e"
  shows "\<exists>inner r. emitted (run_scope rd True (InSpan name t0 t1 link body) e) = emitted e @ inner @ [r] \<and>
    rec_parent r = span (current (thread e)) \<and> trace (rec_ctx r) = trace (current (thread e)) \<and>
    SpanId_valid (span (rec_ctx r)) \<and> rec_ctx r = current (snd (opened rd name t0 link (thread e))) \<and>
    (\<forall>q \<in> set inner. trace (rec_ctx q) = trace (current (thread e))) \<and>
    (\<forall>q \<in> set (inner @ [r]). length (rec_links q) \<le> 4 \<and> (\<forall>c \<in> set (rec_links q). Context_valid c))"
proof -
  let ?o = "opened rd name t0 link (thread e)"
  let ?e0 = "e\<lparr>thread := snd ?o, open_spans := fst ?o # open_spans e\<rparr>"
  let ?e1 = "run_scopes rd True body ?e0"
  note B = Span_Begin_valid [OF assms(2), of rd]
  have v: "Context_valid (current (thread ?e0))" using B(2) assms(2) by (simp add: opened_sel Context_valid_def)
  have so: "\<forall>p \<in> set body. spans_only p" using assms(1) by simp
  obtain inner where inner: "emitted ?e1 = emitted e @ inner" "\<forall>r \<in> set inner. trace (rec_ctx r) = trace (current (thread ?e0))"
    using scope_trace(2) [OF so v, of rd True] by auto
  obtain sp sps where sp: "open_spans ?e1 = sp # sps" "sp_saved sp = current (thread e)" "sp_parent sp = sp_parent (fst ?o)"
    using body_span [of rd True body name t0 link e] by blast
  have cur: "current (thread ?e1) = current (thread ?e0)" using so by (intro scopes_restore) auto
  obtain r where r: "emitted (run_scope rd True (InSpan name t0 t1 link body) e) = emitted e @ inner @ [r]"
      "rec_parent r = span (current (thread e))" "rec_ctx r = current (snd ?o)"
    unfolding run_InSpan using inner(1) sp cur B(1) by (simp add: Span_dtor_def Let_def opened_sel)
  have "env_ok (run_scope rd True (InSpan name t0 t1 link body) e)" by (rule scope_ok(1) [OF assms(3)])
  then have links: "\<forall>q \<in> set (inner @ [r]). links_ok (rec_links q)"
    unfolding env_ok_def r(1) by auto
  have "trace (rec_ctx r) = trace (current (thread e))" "SpanId_valid (span (rec_ctx r))"
    using B(2,3) by (simp_all add: r(3) opened_sel SpanId_valid_def)
  moreover have "\<forall>q \<in> set inner. trace (rec_ctx q) = trace (current (thread e))" using inner(2) B(2) by (simp add: opened_sel)
  ultimately show ?thesis using r links by (auto simp: links_ok_def kMaxSpanLinks_def)
qed

theorem span_nesting_witness:
  "\<exists>inner r. emitted (run_scope (1, 2) True (InSpan ''outer'' 0 3 None [InSpan ''inner'' 1 2 None []])
     \<lparr>thread = \<lparr>current = \<lparr>trace = \<lparr>hi = 7, lo = 8\<rparr>, span = 9\<rparr>, gen_state = None\<rparr>, open_spans = [], emitted = []\<rparr>) = inner @ [r]
     \<and> rec_parent r = 9"
  using span_nesting [of "''outer''" 0 3 None "[InSpan ''inner'' 1 2 None []]"
      "\<lparr>thread = \<lparr>current = \<lparr>trace = \<lparr>hi = 7, lo = 8\<rparr>, span = 9\<rparr>, gen_state = None\<rparr>, open_spans = [], emitted = []\<rparr>" "(1, 2)"]
  by (auto simp: Context_valid_def TraceId_valid_def env_ok_def)

end
