(* ===== verification/Console_Binding.thy ===== *)
theory Console_Binding
  imports Formatter Trace_Context
begin

text \<open>
  The built-in console sink of \<open>telemetry_console_binding.cpp\<close>: the runtime level, the source
  registry, line assembly, the write loop and the binding's entry points. What the code asks of
  the operating system is part of the state: the environment variable, the terminal test, the
  executable path, and the answers of \<open>write(2)\<close>.
\<close>

section \<open>Severities\<close>

datatype Severity = kTrace | kDebug | kInfo | kWarn | kError | kFatal | kOff

fun sev_code :: "Severity \<Rightarrow> nat" where
  "sev_code kTrace = 0"
| "sev_code kDebug = 1"
| "sev_code kInfo = 2"
| "sev_code kWarn = 3"
| "sev_code kError = 4"
| "sev_code kFatal = 5"
| "sev_code kOff = 6"

lemma sev_code_inj [simp]: "sev_code a = sev_code b \<longleftrightarrow> a = b"
  by (cases a; cases b) simp_all

instantiation Severity :: linorder
begin

definition less_eq_Severity :: "Severity \<Rightarrow> Severity \<Rightarrow> bool" where
  "less_eq_Severity a b \<longleftrightarrow> sev_code a \<le> sev_code b"

definition less_Severity :: "Severity \<Rightarrow> Severity \<Rightarrow> bool" where
  "less_Severity a b \<longleftrightarrow> sev_code a < sev_code b"

instance
  by standard (auto simp: less_eq_Severity_def less_Severity_def)

end

datatype HealthState = kOk | kDegraded | kFault | kDisconnected

section \<open>State\<close>

text \<open>An answer of \<open>write(2)\<close>: bytes written, interrupted, or another error.\<close>

datatype write_result = Wrote nat | Eintr | WriteError

record Console =
  g_level :: Severity
  sources :: "string list"
  stderr_out :: string
  write_script :: "write_result list"

record OS =
  xm_log_level :: "string option"
  stderr_tty :: bool
  self_exe :: "string option"
  wall_ns :: int
  fprint :: fprinter

definition cstr :: "string \<Rightarrow> string" where
  "cstr s = takeWhile (\<lambda>c. c \<noteq> CHR 0x00) s"

section \<open>Level\<close>

definition is_space :: "char \<Rightarrow> bool" where
  "is_space c \<longleftrightarrow> c = CHR '' '' \<or> (9 \<le> (of_char c :: nat) \<and> of_char c \<le> (13 :: nat))"

text \<open>\<open>strtol\<close> base 10: \<open>None\<close> when no digits were found (\<open>end == value\<close>), saturating at the
  limits of \<open>long\<close>.\<close>

definition strtol10 :: "string \<Rightarrow> int option" where
  "strtol10 s =
     (let t = dropWhile is_space s;
          neg = (t \<noteq> [] \<and> hd t = CHR ''-'');
          u = (if t \<noteq> [] \<and> (hd t = CHR ''-'' \<or> hd t = CHR ''+'') then tl t else t);
          ds = takeWhile is_digit u;
          v = fold (\<lambda>c acc. acc * 10 + digit_val c) ds 0;
          w = (if neg then - v else v)
      in if ds = [] then None else Some (max (- (2 ^ 63)) (min (2 ^ 63 - 1) w)))"

definition severity_of :: "int \<Rightarrow> Severity" where
  "severity_of n = (if n = 0 then kTrace else if n = 1 then kDebug else if n = 2 then kInfo else if n = 3 then kWarn
     else if n = 4 then kError else if n = 5 then kFatal else kOff)"

definition LevelFromEnv :: "string option \<Rightarrow> Severity \<Rightarrow> Severity" where
  "LevelFromEnv env fallback =
     (case env of
        None \<Rightarrow> fallback
      | Some value \<Rightarrow>
          if value = [] then fallback
          else (case strtol10 value of
                 None \<Rightarrow> fallback
               | Some level \<Rightarrow> if level < 0 \<or> 6 < level then fallback else severity_of level))"

definition ShouldLogImpl :: "Severity \<Rightarrow> Console \<Rightarrow> bool" where
  "ShouldLogImpl sev st \<longleftrightarrow> sev \<noteq> kOff \<and> g_level st \<le> sev"

definition SetLevelImpl :: "Severity \<Rightarrow> Console \<Rightarrow> Console" where
  "SetLevelImpl min_sev st = st\<lparr>g_level := min_sev\<rparr>"

definition GetLevelImpl :: "Console \<Rightarrow> Severity" where
  "GetLevelImpl st = g_level st"

section \<open>Source registry\<close>

fun find_source :: "string \<Rightarrow> nat \<Rightarrow> string list \<Rightarrow> nat option" where
  "find_source name i [] = None"
| "find_source name i (s # ss) = (if s = name then Some i else find_source name (Suc i) ss)"

definition InternSourceImpl :: "string \<Rightarrow> Console \<Rightarrow> u32 \<times> Console" where
  "InternSourceImpl name st =
     (case find_source name 0 (sources st) of
        Some i \<Rightarrow> (of_nat (i + 1), st)
      | None \<Rightarrow> (let st' = st\<lparr>sources := sources st @ [name]\<rparr> in (of_nat (length (sources st')), st')))"

definition LookupSource :: "u32 \<Rightarrow> Console \<Rightarrow> string option" where
  "LookupSource sid st =
     (if sid = 0 then None
      else if length (sources st) < unat sid then None
      else Some (sources st ! (unat sid - 1)))"

section \<open>Line assembly\<close>

fun SeverityTag :: "Severity \<Rightarrow> string" where
  "SeverityTag kTrace = ''trace''"
| "SeverityTag kDebug = ''debug''"
| "SeverityTag kInfo = ''info''"
| "SeverityTag kWarn = ''warning''"
| "SeverityTag kError = ''error''"
| "SeverityTag kFatal = ''critical''"
| "SeverityTag kOff = ''?''"

definition esc :: "string \<Rightarrow> string" where
  "esc s = CHR 0x1B # s"

definition ColorFor :: "bool \<Rightarrow> Severity \<Rightarrow> string" where
  "ColorFor tty s =
     (if \<not> tty then []
      else case s of
        kTrace \<Rightarrow> esc ''[37m'' | kDebug \<Rightarrow> esc ''[36m'' | kInfo \<Rightarrow> esc ''[32m'' | kWarn \<Rightarrow> esc ''[33m''
      | kError \<Rightarrow> esc ''[31m'' | kFatal \<Rightarrow> esc ''[1;31m'' | kOff \<Rightarrow> [])"

definition ColorReset :: "bool \<Rightarrow> string" where
  "ColorReset tty = (if tty then esc ''[0m'' else [])"

text \<open>The executable's base name, cut to 63 characters; \<open>xmbase\<close> when the link cannot be read.\<close>

definition ProcessName :: "string option \<Rightarrow> string" where
  "ProcessName exe =
     (case exe of
        None \<Rightarrow> ''xmbase''
      | Some p \<Rightarrow> let path = take 1023 p in
          if path = [] then ''xmbase'' else take 63 (rev (takeWhile (\<lambda>c. c \<noteq> CHR ''/'') (rev path))))"

text \<open>The write loop: the script holds the kernel's answers to come; once it is used up the rest is
  written.\<close>

fun WriteLine :: "write_result list \<Rightarrow> string \<Rightarrow> string \<times> write_result list" where
  "WriteLine script [] = ([], script)"
| "WriteLine [] (c # cs) = (c # cs, [])"
| "WriteLine (Eintr # script) (c # cs) = WriteLine script (c # cs)"
| "WriteLine (WriteError # script) (c # cs) = ([], script)"
| "WriteLine (Wrote n # script) (c # cs) =
     (let (w, script') = WriteLine script (drop n (c # cs)) in (take n (c # cs) @ w, script'))"

abbreviation newline :: char where "newline \<equiv> CHR 0x0A"

definition bracketed :: "string \<Rightarrow> string" where
  "bracketed s = CHR ''['' # s @ ''] ''"

definition dec :: "int \<Rightarrow> string" where
  "dec v = printf (\<lambda>_ _ _ _ _. []) default_spec (CSigned v)"

definition dec09 :: "int \<Rightarrow> string" where
  "dec09 v = printf (\<lambda>_ _ _ _ _. []) (default_spec\<lparr>zero := True, width := 9\<rparr>) (CSigned v)"

definition trunc_quot :: "int \<Rightarrow> int \<Rightarrow> int" where
  "trunc_quot a b = sgn a * (\<bar>a\<bar> div b)"

definition full_line :: "OS \<Rightarrow> Console \<Rightarrow> u32 \<Rightarrow> Severity \<Rightarrow> string \<Rightarrow> string" where
  "full_line os st source_id sev msg =
     (let secs = trunc_quot (wall_ns os) 1000000000;
          frac = wall_ns os - 1000000000 * secs;
          pre = ColorFor (stderr_tty os) sev @ bracketed (SeverityTag sev)
                @ bracketed (dec secs @ ''.'' @ dec09 frac) @ ''['' @ ProcessName (self_exe os) @ '']: '';
          src = (case LookupSource source_id st of None \<Rightarrow> [] | Some s \<Rightarrow> if s = [] then [] else bracketed (cstr s))
      in pre @ src @ cstr msg @ ColorReset (stderr_tty os) @ [newline])"

text \<open>\<open>snprintf\<close> into 768 bytes; a truncated line keeps its newline. \<open>snprintf\<close> reports a line longer
  than \<open>INT_MAX\<close> as an error, and then nothing is written.\<close>

definition line_buffer :: "string \<Rightarrow> string" where
  "line_buffer full =
     (let n = length full; line = take 767 full
      in if 768 \<le> n then line[766 := newline] else line)"

definition EmitLine :: "OS \<Rightarrow> u32 \<Rightarrow> Severity \<Rightarrow> string \<Rightarrow> Console \<Rightarrow> Console" where
  "EmitLine os source_id sev msg st =
     (let full = full_line os st source_id sev msg in
      if 2 ^ 31 \<le> length full then st
      else let (w, script) = WriteLine (write_script st) (line_buffer full)
           in st\<lparr>stderr_out := stderr_out st @ w, write_script := script\<rparr>)"

section \<open>Entry points\<close>

definition EmitEventImpl :: "OS \<Rightarrow> u32 \<Rightarrow> Severity \<Rightarrow> string option \<Rightarrow> ArgPack \<Rightarrow> Console \<Rightarrow> Console" where
  "EmitEventImpl os source_id sev fmt_str args st =
     (if \<not> ShouldLogImpl sev st then st
      else EmitLine os source_id sev
             (FormatMessage (fprint os) 512 (case fmt_str of None \<Rightarrow> [] | Some f \<Rightarrow> f) args) st)"

definition EmitEventDynImpl :: "OS \<Rightarrow> u32 \<Rightarrow> Severity \<Rightarrow> string option \<Rightarrow> Console \<Rightarrow> Console" where
  "EmitEventDynImpl os source_id sev msg st =
     (if \<not> ShouldLogImpl sev st then st
      else case msg of None \<Rightarrow> st
         | Some m \<Rightarrow> EmitLine os source_id sev (take (if 512 \<le> length m then 511 else length m) m) st)"

fun HealthName :: "HealthState \<Rightarrow> string" where
  "HealthName kOk = ''OK''"
| "HealthName kDegraded = ''DEGRADED''"
| "HealthName kFault = ''FAULT''"
| "HealthName kDisconnected = ''DISCONNECTED''"

definition ReportHealthImpl :: "OS \<Rightarrow> string option \<Rightarrow> HealthState \<Rightarrow> string option \<Rightarrow> Console \<Rightarrow> Console" where
  "ReportHealthImpl os subsystem state detail_msg st =
     (let sev = (if state = kOk then kInfo else if state = kDegraded then kWarn else kError) in
      if \<not> ShouldLogImpl sev st then st
      else let d = (case detail_msg of None \<Rightarrow> [] | Some s \<Rightarrow> s);
               msg = ''[health] '' @ (case subsystem of None \<Rightarrow> ''?'' | Some s \<Rightarrow> s) @ '' -> '' @ HealthName state
                     @ (if d \<noteq> [] then '': '' else []) @ d
           in EmitLine os 0 sev (take 511 msg) st)"

section \<open>Lines and writes\<close>

lemma WriteLine_prefix: "\<exists>k. fst (WriteLine script s) = take k s"
proof (induction script s rule: WriteLine.induct)
  case (5 n script c cs)
  then obtain k where k: "fst (WriteLine script (drop n (c # cs))) = take k (drop n (c # cs))" by blast
  have "fst (WriteLine (Wrote n # script) (c # cs)) = take n (c # cs) @ take k (drop n (c # cs))"
    using k by (simp add: case_prod_unfold)
  also have "\<dots> = take (n + k) (c # cs)" by (rule take_add [symmetric])
  finally show ?case by blast
next
  case (2 c cs)
  have "fst (WriteLine [] (c # cs)) = take (length (c # cs)) (c # cs)" by simp
  then show ?case by blast
qed (auto intro: exI [of _ 0])

lemma WriteLine_complete: "WriteError \<notin> set script \<Longrightarrow> fst (WriteLine script s) = s"
proof (induction script s rule: WriteLine.induct)
  case (5 n script c cs)
  then have "fst (WriteLine script (drop n (c # cs))) = drop n (c # cs)" by simp
  then have "fst (WriteLine (Wrote n # script) (c # cs)) = take n (c # cs) @ drop n (c # cs)"
    by (simp add: case_prod_unfold)
  then show ?case by (simp only: append_take_drop_id)
qed simp_all

lemma full_line_newline: "\<exists>b. full_line os st sid sev msg = b @ [newline]"
  by (simp add: full_line_def Let_def flip: append_assoc)

lemma line_buffer_length: "length (line_buffer l) \<le> 767"
  by (simp add: line_buffer_def Let_def)

lemma line_buffer_fits: "length l \<le> 767 \<Longrightarrow> line_buffer l = l"
  by (simp add: line_buffer_def Let_def)

lemma line_buffer_cut: "768 \<le> length l \<Longrightarrow> line_buffer l = take 766 l @ [newline]"
proof -
  assume n: "768 \<le> length l"
  then have "take 767 l = take 766 l @ [l ! 766]"
    using take_Suc_conv_app_nth [of 766 l] by simp
  moreover have "length (take 766 l) = 766" using n by simp
  ultimately show ?thesis using n by (simp add: line_buffer_def Let_def list_update_append)
qed

lemma line_buffer_ends:
  assumes "\<exists>b. l = b @ [newline]"
  shows "\<exists>b. line_buffer l = b @ [newline] \<and> b = take 766 (butlast l)"
proof (cases "length l \<le> 767")
  case True
  with assms show ?thesis by (auto simp: line_buffer_fits)
next
  case False
  then have "take 766 (butlast l) = take 766 l" by (simp add: take_butlast)
  with False show ?thesis using line_buffer_cut [of l] by simp
qed

section \<open>The registry\<close>

lemma find_source_None: "find_source n i ss = None \<longleftrightarrow> n \<notin> set ss"
  by (induction ss arbitrary: i) auto

lemma find_source_Some: "find_source n i ss = Some j \<Longrightarrow> i \<le> j \<and> j < i + length ss \<and> ss ! (j - i) = n"
  by (induction ss arbitrary: i) (fastforce split: if_splits simp: nth_Cons')+

definition intern_all :: "string list \<Rightarrow> Console \<Rightarrow> Console" where
  "intern_all names st = fold (\<lambda>n s. snd (InternSourceImpl n s)) names st"

lemma intern_keeps:
  "\<exists>new. sources (snd (InternSourceImpl n st)) = sources st @ new \<and> length new \<le> 1 \<and>
     set new \<subseteq> {n} - set (sources st)"
  by (auto simp: InternSourceImpl_def Let_def find_source_None split: option.splits)

lemma unat_of_nat_u32: "n < 2 ^ 32 \<Longrightarrow> unat (of_nat n :: u32) = n"
  by (simp add: unsigned_of_nat take_bit_nat_eq_self)

lemma intern_lookup_gen:
  assumes "length (sources st) + 1 < 2 ^ 32"
  shows "unat (fst (InternSourceImpl n st)) \<noteq> 0 \<and>
    unat (fst (InternSourceImpl n st)) \<le> length (sources (snd (InternSourceImpl n st))) \<and>
    sources (snd (InternSourceImpl n st)) ! (unat (fst (InternSourceImpl n st)) - 1) = n"
proof (cases "find_source n 0 (sources st)")
  case None
  have "unat (of_nat (length (sources st) + 1) :: u32) = length (sources st) + 1"
    using assms by (intro unat_of_nat_u32)
  with None show ?thesis by (simp add: InternSourceImpl_def Let_def add.commute del: of_nat_Suc of_nat_add)
next
  case (Some i)
  note i = find_source_Some [OF Some]
  then have "unat (of_nat (i + 1) :: u32) = i + 1" using assms by (intro unat_of_nat_u32) linarith
  with Some i show ?thesis by (simp add: InternSourceImpl_def del: of_nat_Suc of_nat_add)
qed

lemma intern_all_grows:
  "\<exists>new. sources (intern_all ns st) = sources st @ new \<and> length new \<le> length ns"
proof (induction ns arbitrary: st)
  case Nil
  then show ?case by (simp add: intern_all_def)
next
  case (Cons n ns)
  obtain a where a: "sources (snd (InternSourceImpl n st)) = sources st @ a" "length a \<le> 1"
    using intern_keeps by blast
  obtain b where b: "sources (intern_all ns (snd (InternSourceImpl n st))) = sources (snd (InternSourceImpl n st)) @ b"
    "length b \<le> length ns" using Cons.IH by blast
  have "sources (intern_all (n # ns) st) = sources st @ (a @ b)" "length (a @ b) \<le> length (n # ns)"
    using a b by (simp_all add: intern_all_def)
  then show ?case by blast
qed

lemma LookupSource_stable:
  assumes "sources st' = sources st @ new" "unat sid \<noteq> 0" "unat sid \<le> length (sources st)"
  shows "LookupSource sid st' = Some (sources st ! (unat sid - 1))"
proof -
  have "unat sid - 1 < length (sources st)" "sid \<noteq> 0" using assms by auto
  then show ?thesis using assms by (simp add: LookupSource_def nth_append)
qed

lemma find_source_append: "find_source n i ss = Some j \<Longrightarrow> find_source n i (ss @ new) = Some j"
  by (induction ss arbitrary: i) (auto split: if_splits)

lemma find_source_last: "n \<notin> set ss \<Longrightarrow> find_source n i (ss @ n # new) = Some (i + length ss)"
  by (induction ss arbitrary: i) auto

lemma intern_finds:
  assumes "InternSourceImpl n st = (sid, st1)"
  shows "\<exists>i. find_source n 0 (sources st1) = Some i \<and> sid = of_nat (i + 1)"
proof (cases "find_source n 0 (sources st)")
  case None
  then have "n \<notin> set (sources st)" by (simp add: find_source_None)
  then show ?thesis using assms None find_source_last [of n "sources st" 0 "[]"]
    by (auto simp: InternSourceImpl_def Let_def)
next
  case (Some i)
  then show ?thesis using assms by (auto simp: InternSourceImpl_def)
qed

section \<open>Reading the level\<close>

lemma digits_all: "c \<in> set (digits 10 u n) \<Longrightarrow> is_digit c"
proof (induction n rule: less_induct)
  case (less n)
  have "is_digit (digit_char u (n mod 10))" "n < 10 \<Longrightarrow> is_digit (digit_char u n)"
    using digit_char_val [of "n mod 10" u] digit_char_val [of n u] by auto
  with less.IH [of "n div 10"] less.prems digits.simps [of 10 u n] show ?case by (auto split: if_splits)
qed

lemma no_digits: "\<forall>c \<in> set s. \<not> is_digit c \<Longrightarrow> takeWhile is_digit s = []"
  by (cases s) simp_all

lemma fold_digits: "fold (\<lambda>c acc. acc * 10 + digit_val c) (digits 10 u n) 0 = int n"
proof (induction n rule: less_induct)
  case (less n)
  have d: "digit_val (digit_char u (n mod 10)) = int (n mod 10)" "n < 10 \<Longrightarrow> digit_val (digit_char u n) = int n"
    using digit_char_val [of "n mod 10" u] digit_char_val [of n u] by auto
  have "int (n div 10) * 10 + int (n mod 10) = int n"
    by (metis div_mult_mod_eq of_nat_add of_nat_mult of_nat_numeral)
  then show ?case using less d by (subst digits.simps) auto
qed

lemma strtol10_digits:
  assumes ws: "\<forall>c \<in> set ws. is_space c" and rest: "rest = [] \<or> \<not> is_digit (hd rest)"
  shows "strtol10 (ws @ digits 10 u n @ rest) = Some (min (2 ^ 63 - 1) (int n))"
proof -
  have not: "is_digit c \<Longrightarrow> \<not> is_space c \<and> c \<noteq> CHR ''-'' \<and> c \<noteq> CHR ''+''" for c
    by (auto simp: is_digit_def is_space_def)
  have hd: "is_digit (hd (digits 10 u n))" using digits_all hd_in_set by (metis digits_nonempty)
  obtain c cs where c: "digits 10 u n = c # cs" using digits_nonempty by (metis neq_Nil_conv)
  have t: "dropWhile is_space (ws @ digits 10 u n @ rest) = digits 10 u n @ rest"
    using ws hd not c by (simp add: dropWhile_append)
  have tw: "takeWhile is_digit (digits 10 u n @ rest) = digits 10 u n"
    using rest digits_all [of _ u n] by (subst takeWhile_append2) (auto simp: takeWhile_eq_Nil_iff)
  have h: "hd (digits 10 u n @ rest) = c" by (simp add: c)
  have "c \<noteq> CHR ''-''" "c \<noteq> CHR ''+''" using hd not c by auto
  then show ?thesis
    unfolding strtol10_def Let_def t h by (simp add: tw fold_digits)
qed

section \<open>Properties\<close>

text \<open>
  Source identifiers are stable names: interning a name yields a non-zero identifier
  that resolves to that name after any further registrations; interning the name again at any later
  time yields the same identifier and registers nothing; and a different name gets a different
  identifier. (The registry stays below \<open>2\<^sup>3\<^sup>2\<close> names.)
\<close>

theorem source_ids_stable:
  assumes room: "length (sources st) + length names + 3 < 2 ^ 32"
    and first: "InternSourceImpl name st = (sid, st1)"
    and later: "intern_all names st1 = st2"
  shows "sid \<noteq> 0 \<and> LookupSource sid st2 = Some name \<and> InternSourceImpl name st2 = (sid, st2) \<and>
    (other \<noteq> name \<longrightarrow> fst (InternSourceImpl other st2) \<noteq> sid)"
proof -
  obtain new1 where n1: "sources st1 = sources st @ new1" "length new1 \<le> 1"
    using intern_keeps [of name st] first by auto
  obtain new2 where n2: "sources st2 = sources st1 @ new2" "length new2 \<le> length names"
    using intern_all_grows [of names st1] later by auto
  have g: "unat sid \<noteq> 0 \<and> unat sid \<le> length (sources st1) \<and> sources st1 ! (unat sid - 1) = name"
    using intern_lookup_gen [of st name] room first by simp
  obtain i where i: "find_source name 0 (sources st1) = Some i" "sid = of_nat (i + 1)"
    using intern_finds [OF first] by blast
  have again: "InternSourceImpl name st2 = (sid, st2)"
    using find_source_append [OF i(1), of new2] i(2) n2(1) by (simp add: InternSourceImpl_def)
  have look: "LookupSource sid st2 = Some name" using LookupSource_stable [OF n2(1), of sid] g by simp
  have "fst (InternSourceImpl other st2) \<noteq> sid" if "other \<noteq> name"
  proof
    assume eq: "fst (InternSourceImpl other st2) = sid"
    obtain new3 where n3: "sources (snd (InternSourceImpl other st2)) = sources st2 @ new3"
      using intern_keeps by blast
    have "length (sources st2) + 1 < 2 ^ 32" using room n1 n2 by simp
    from intern_lookup_gen [OF this, of other] have "sources (snd (InternSourceImpl other st2)) ! (unat sid - 1) = other"
      unfolding eq by blast
    moreover have "unat sid - 1 < length (sources st1)" using g by linarith
    ultimately have "sources st1 ! (unat sid - 1) = other" using n2(1) n3 by (simp add: nth_append)
    with g that show False by simp
  qed
  with g look again show ?thesis by auto
qed

theorem source_ids_stable_witness:
  "(1 :: u32) \<noteq> 0 \<and>
   LookupSource 1 \<lparr>g_level = kInfo, sources = [''nav'', ''arm''], stderr_out = [], write_script = []\<rparr> = Some ''nav'' \<and>
   fst (InternSourceImpl ''leg'' \<lparr>g_level = kInfo, sources = [''nav'', ''arm''], stderr_out = [], write_script = []\<rparr>) \<noteq> 1"
proof -
  let ?st = "\<lparr>g_level = kInfo, sources = [], stderr_out = [], write_script = []\<rparr>"
  have "InternSourceImpl ''nav'' ?st = (1, ?st\<lparr>sources := [''nav'']\<rparr>)" by code_simp
  moreover have "intern_all [''arm'', ''nav''] (?st\<lparr>sources := [''nav'']\<rparr>) = ?st\<lparr>sources := [''nav'', ''arm'']\<rparr>"
    by code_simp
  ultimately show ?thesis
    using source_ids_stable [of ?st "[''arm'', ''nav'']" "''nav''" 1 _ _ "''leg''"] by simp
qed

text \<open>
  Property C18. Every message the console emits reaches the terminal as one complete line. With a
  severity at or above the level, \<open>EmitEventImpl\<close> appends to \<open>stderr\<close> exactly one line: it
  ends in a newline, is at most 767 bytes long, and is the whole formatted line when that fits; short writes and interrupts do not change it, and
  only a failing \<open>write(2)\<close> cuts it to a prefix. Below the level, or at \<open>kOff\<close>, nothing is written and
  no state changes. (Registered names are below a gigabyte, so \<open>snprintf\<close> cannot overflow its \<open>int\<close>.)
\<close>

theorem console_emits_complete_lines:
  assumes os: "full = full_line os st sid sev (FormatMessage (fprint os) 512 fmt args)"
    and short: "length full < 2 ^ 31"
    and st': "st' = EmitEventImpl os sid sev (Some fmt) args st"
  shows "(if sev \<noteq> kOff \<and> g_level st \<le> sev
     then (\<exists>body line k. line = body @ [newline] \<and> length line \<le> 767 \<and>
            body = take 766 (butlast full) \<and> (length full \<le> 767 \<longrightarrow> line = full) \<and>
            stderr_out st' = stderr_out st @ take k line \<and>
            (WriteError \<notin> set (write_script st) \<longrightarrow> stderr_out st' = stderr_out st @ line) \<and>
            g_level st' = g_level st \<and> sources st' = sources st)
     else st' = st)"
proof (cases "sev \<noteq> kOff \<and> g_level st \<le> sev")
  case True
  have st'': "st' = st\<lparr>stderr_out := stderr_out st @ fst (WriteLine (write_script st) (line_buffer full)),
      write_script := snd (WriteLine (write_script st) (line_buffer full))\<rparr>"
    using True short unfolding st' os by (simp add: EmitEventImpl_def ShouldLogImpl_def EmitLine_def Let_def case_prod_unfold)
  obtain b where b: "line_buffer full = b @ [newline]" "b = take 766 (butlast full)"
    using line_buffer_ends [of full] full_line_newline os by blast
  obtain k where k: "fst (WriteLine (write_script st) (line_buffer full)) = take k (line_buffer full)"
    using WriteLine_prefix by blast
  have "\<exists>body line k. line = body @ [newline] \<and> length line \<le> 767 \<and>
            body = take 766 (butlast full) \<and> (length full \<le> 767 \<longrightarrow> line = full) \<and>
            stderr_out st' = stderr_out st @ take k line \<and>
            (WriteError \<notin> set (write_script st) \<longrightarrow> stderr_out st' = stderr_out st @ line) \<and>
            g_level st' = g_level st \<and> sources st' = sources st"
    by (rule exI [of _ b], rule exI [of _ "line_buffer full"], rule exI [of _ k], intro conjI impI)
      (use b k in \<open>simp_all add: st'' line_buffer_length line_buffer_fits WriteLine_complete\<close>)
  with True show ?thesis by simp
next
  case False
  then show ?thesis by (auto simp: st' EmitEventImpl_def ShouldLogImpl_def)
qed

theorem console_emits_complete_lines_witness:
  "stderr_out (EmitEventImpl
      \<lparr>xm_log_level = None, stderr_tty = False, self_exe = Some ''/opt/robot'', wall_ns = 5000000007, fprint = (\<lambda>_ _ _ _ _. [])\<rparr>
      1 kWarn (Some ''low'') empty_pack
      \<lparr>g_level = kInfo, sources = [''nav''], stderr_out = [], write_script = [Wrote 10, Eintr, Wrote 4]\<rparr>)
   = ''[warning] [5.000000007] [robot]: [nav] low'' @ [newline]"
proof -
  let ?os = "\<lparr>xm_log_level = None, stderr_tty = False, self_exe = Some ''/opt/robot'', wall_ns = 5000000007, fprint = (\<lambda>_ _ _ _ _. [])\<rparr>"
  let ?st = "\<lparr>g_level = kInfo, sources = [''nav''], stderr_out = [], write_script = [Wrote 10, Eintr, Wrote 4]\<rparr>"
  have line: "full_line ?os ?st 1 kWarn (FormatMessage (fprint ?os) 512 ''low'' empty_pack) =
    ''[warning] [5.000000007] [robot]: [nav] low'' @ [newline]" by code_simp
  have "kWarn \<noteq> kOff \<and> g_level ?st \<le> kWarn" by (simp add: less_eq_Severity_def)
  then show ?thesis using console_emits_complete_lines [OF refl _ refl, of ?os ?st 1 kWarn "''low''" empty_pack]
    unfolding line by auto
qed

text \<open>
  \<open>XM_LOG_LEVEL\<close> is read as \<open>strtol\<close> reads it: a decimal number, after blanks and before
  anything that is not a digit, selects the severity with that code when it is 0 to 6 and keeps the
  fallback when it is larger (however large); an unset or empty variable, or one without a leading
  number, keeps the fallback.
\<close>

theorem level_from_env:
  assumes "\<forall>c \<in> set ws. is_space c" and "rest = [] \<or> \<not> is_digit (hd rest)"
    and "\<forall>c \<in> set junk. \<not> is_digit c"
  shows "LevelFromEnv (Some (ws @ digits 10 u n @ rest)) fallback = (if n \<le> 6 then severity_of (int n) else fallback) \<and>
    (n \<le> 6 \<longrightarrow> sev_code (severity_of (int n)) = n) \<and>
    LevelFromEnv (Some junk) fallback = fallback \<and> LevelFromEnv None fallback = fallback"
proof (intro conjI impI)
  show "LevelFromEnv (Some (ws @ digits 10 u n @ rest)) fallback = (if n \<le> 6 then severity_of (int n) else fallback)"
    using strtol10_digits [OF assms(1,2), of u n] by (simp add: LevelFromEnv_def)
  show "sev_code (severity_of (int n)) = n" if "n \<le> 6"
  proof -
    have "n \<in> {0, 1, 2, 3, 4, 5, 6}" using that by auto
    then show ?thesis by (auto simp: severity_of_def)
  qed
  have "takeWhile is_digit (dropWhile is_space junk) = []" "takeWhile is_digit (tl (dropWhile is_space junk)) = []"
    using assms(3) set_dropWhileD [of _ is_space junk] list.set_sel(2) [of "dropWhile is_space junk"]
    by (blast intro: no_digits, metis no_digits tl_Nil)
  then have "strtol10 junk = None" by (simp add: strtol10_def Let_def)
  then show "LevelFromEnv (Some junk) fallback = fallback" by (simp add: LevelFromEnv_def)
  show "LevelFromEnv None fallback = fallback" by (simp add: LevelFromEnv_def)
qed

theorem level_from_env_witness:
  "LevelFromEnv (Some '' 4x'') kInfo = kError \<and> LevelFromEnv (Some ''debug'') kInfo = kInfo"
proof -
  have d: "'' 4x'' = '' '' @ digits 10 False 4 @ ''x''" by code_simp
  show ?thesis unfolding d
    using level_from_env [of "'' ''" "''x''" "''debug''" False 4 kInfo] by (simp add: is_space_def is_digit_def severity_of_def)
qed

end
