(* ===== verification/Metrics.thy ===== *)
theory Metrics
  imports Complex_Main Prelude "HOL-Library.Multiset"
begin

text \<open>
  The metric slots of \<open>telemetry/binding.hpp\<close>: \<open>CounterSlot\<close>, \<open>GaugeSlot\<close>, the power-of-two
  histogram buckets and \<open>HistogramSlot\<close>, sequentially and with any number of threads interleaved
  one atomic access at a time. A double is a NaN, an infinity or a rational; the rounding addition
  of the machine is the parameter \<open>fadd\<close>, of which nothing is assumed.
\<close>

section \<open>Doubles\<close>

datatype double = NaN | Inf bool | Fin rat

text \<open>\<open>Inf True\<close> is the negative infinity.\<close>

fun dless :: "double \<Rightarrow> double \<Rightarrow> bool" where
  "dless (Fin a) (Fin b) \<longleftrightarrow> a < b"
| "dless (Fin a) (Inf n) \<longleftrightarrow> \<not> n"
| "dless (Inf n) (Fin a) \<longleftrightarrow> n"
| "dless (Inf n) (Inf m) \<longleftrightarrow> n \<and> \<not> m"
| "dless NaN y \<longleftrightarrow> False"
| "dless x NaN \<longleftrightarrow> False"

definition dle :: "double \<Rightarrow> double \<Rightarrow> bool" where
  "dle x y \<longleftrightarrow> dless x y \<or> (x = y \<and> x \<noteq> NaN)"

type_synonym fadder = "double \<Rightarrow> double \<Rightarrow> double"

section \<open>Counter and gauge\<close>

record CounterSlot =
  cvalue :: double

record GaugeSlot =
  gvalue :: double

definition CounterSlot_init :: CounterSlot where
  "CounterSlot_init = \<lparr>cvalue = Fin 0\<rparr>"

definition GaugeSlot_init :: GaugeSlot where
  "GaugeSlot_init = \<lparr>gvalue = Fin 0\<rparr>"

text \<open>\<open>Add\<close> when no other thread interferes: the first exchange succeeds.\<close>

definition CounterSlot_Add :: "fadder \<Rightarrow> double \<Rightarrow> CounterSlot \<Rightarrow> CounterSlot" where
  "CounterSlot_Add fadd v s = s\<lparr>cvalue := fadd (cvalue s) v\<rparr>"

definition GaugeSlot_Set :: "double \<Rightarrow> GaugeSlot \<Rightarrow> GaugeSlot" where
  "GaugeSlot_Set v s = s\<lparr>gvalue := v\<rparr>"

section \<open>Histogram buckets\<close>

definition kHistogramBuckets :: nat where
  "kHistogramBuckets = 24"

fun ilog2 :: "nat \<Rightarrow> nat" where
  "ilog2 n = (if n < 2 then 0 else Suc (ilog2 (n div 2)))"

declare ilog2.simps [simp del]

text \<open>\<open>std::ilogb\<close> for arguments at or above 1; \<open>INT_MAX\<close> for the infinity.\<close>

definition int_max :: int where
  "int_max = 2147483647"

fun ilogb :: "double \<Rightarrow> int" where
  "ilogb (Fin q) = int (ilog2 (nat \<lfloor>q\<rfloor>))"
| "ilogb (Inf n) = int_max"
| "ilogb NaN = int_max"

text \<open>\<open>None\<close>: the signed addition \<open>e + 1\<close> overflows, which C++ leaves undefined.\<close>

definition HistogramBucketOf :: "double \<Rightarrow> nat option" where
  "HistogramBucketOf v =
     (if \<not> dle (Fin 1) v then Some 0
      else let e = ilogb v in
        if e + 1 > int_max then None
        else Some (nat (if 23 \<le> e + 1 then 23 else e + 1)))"

definition HistogramBucketUpperBound :: "nat \<Rightarrow> double" where
  "HistogramBucketUpperBound i = (if 23 \<le> i then Inf False else Fin (of_nat (2 ^ i)))"

section \<open>Histogram slot\<close>

record HistogramSlot =
  hcount :: u64
  hsum :: double
  hmin :: double
  hmax :: double
  hbuckets :: "u64 list"

definition HistogramSlot_init :: HistogramSlot where
  "HistogramSlot_init =
     \<lparr>hcount = 0, hsum = Fin 0, hmin = Inf False, hmax = Inf True, hbuckets = replicate kHistogramBuckets 0\<rparr>"

text \<open>\<open>Record\<close> when no other thread interferes; \<open>None\<close> on the undefined bucket.\<close>

definition HistogramSlot_Record :: "fadder \<Rightarrow> double \<Rightarrow> HistogramSlot \<Rightarrow> HistogramSlot option" where
  "HistogramSlot_Record fadd v s =
     (case HistogramBucketOf v of
        None \<Rightarrow> None
      | Some b \<Rightarrow>
          Some (s\<lparr>hcount := hcount s + 1,
             hbuckets := (hbuckets s)[b := hbuckets s ! b + 1],
             hsum := fadd (hsum s) v,
             hmin := (if dless v (hmin s) then v else hmin s),
             hmax := (if dless (hmax s) v then v else hmax s)\<rparr>))"

section \<open>Threads on one histogram\<close>

datatype agg = ASum | AMin | AMax

fun cell_of :: "agg \<Rightarrow> HistogramSlot \<Rightarrow> double" where
  "cell_of ASum s = hsum s"
| "cell_of AMin s = hmin s"
| "cell_of AMax s = hmax s"

fun set_cell :: "agg \<Rightarrow> double \<Rightarrow> HistogramSlot \<Rightarrow> HistogramSlot" where
  "set_cell ASum d s = s\<lparr>hsum := d\<rparr>"
| "set_cell AMin d s = s\<lparr>hmin := d\<rparr>"
| "set_cell AMax d s = s\<lparr>hmax := d\<rparr>"

text \<open>What the loop of each cell wants to store when it has seen \<open>c\<close>; \<open>None\<close> ends the loop.\<close>

fun desired :: "fadder \<Rightarrow> agg \<Rightarrow> double \<Rightarrow> double \<Rightarrow> double option" where
  "desired fadd ASum v c = Some (fadd c v)"
| "desired fadd AMin v c = (if dless v c then Some v else None)"
| "desired fadd AMax v c = (if dless c v then Some v else None)"

datatype hpc = HIdle | HCount double | HBucket double | HLoad agg double | HCas agg double double | HUndefined double

fun after_cell :: "agg \<Rightarrow> double \<Rightarrow> hpc" where
  "after_cell ASum v = HLoad AMin v"
| "after_cell AMin v = HLoad AMax v"
| "after_cell AMax v = HIdle"

fun rank :: "agg \<Rightarrow> nat" where
  "rank ASum = 2"
| "rank AMin = 3"
| "rank AMax = 4"

text \<open>Ghosts: \<open>called\<close> lists the recorded values, \<open>past k\<close> those that have passed stage \<open>k\<close> (count,
  bucket, sum, min, max), in the order in which they took effect.\<close>

record histo_sys =
  hslot :: HistogramSlot
  hthreads :: "hpc list"
  called :: "double list"
  past :: "nat \<Rightarrow> double list"

definition goto :: "nat \<Rightarrow> hpc \<Rightarrow> histo_sys \<Rightarrow> histo_sys" where
  "goto i p s = s\<lparr>hthreads := (hthreads s)[i := p]\<rparr>"

definition pass_stage :: "nat \<Rightarrow> double \<Rightarrow> histo_sys \<Rightarrow> histo_sys" where
  "pass_stage k v s = s\<lparr>past := (past s)(k := past s k @ [v])\<rparr>"

text \<open>The test of a compare-exchange loop on a freshly observed value.\<close>

definition observe :: "fadder \<Rightarrow> nat \<Rightarrow> agg \<Rightarrow> double \<Rightarrow> histo_sys \<Rightarrow> histo_sys" where
  "observe fadd i a v s =
     (let c = cell_of a (hslot s) in
      case desired fadd a v c of
        None \<Rightarrow> goto i (after_cell a v) (pass_stage (rank a) v s)
      | Some _ \<Rightarrow> goto i (HCas a v c) s)"

text \<open>One access of \<open>Record\<close> by thread \<open>i\<close>; \<open>spurious\<close> is the weak exchange's licence to fail.\<close>

definition record_step :: "fadder \<Rightarrow> bool \<Rightarrow> nat \<Rightarrow> histo_sys \<Rightarrow> histo_sys" where
  "record_step fadd spurious i s =
     (if length (hthreads s) \<le> i then s else
      case hthreads s ! i of
        HIdle \<Rightarrow> s
      | HUndefined v \<Rightarrow> s
      | HCount v \<Rightarrow> goto i (HBucket v) (pass_stage 0 v (s\<lparr>hslot := (hslot s)\<lparr>hcount := hcount (hslot s) + 1\<rparr>\<rparr>))
      | HBucket v \<Rightarrow>
          (case HistogramBucketOf v of
             None \<Rightarrow> goto i (HUndefined v) s
           | Some b \<Rightarrow> goto i (HLoad ASum v) (pass_stage 1 v
               (s\<lparr>hslot := (hslot s)\<lparr>hbuckets := (hbuckets (hslot s))[b := hbuckets (hslot s) ! b + 1]\<rparr>\<rparr>)))
      | HLoad a v \<Rightarrow> observe fadd i a v s
      | HCas a v c \<Rightarrow>
          if cell_of a (hslot s) = c \<and> \<not> spurious
          then goto i (after_cell a v) (pass_stage (rank a) v
                 (s\<lparr>hslot := (case desired fadd a v c of None \<Rightarrow> hslot s | Some d \<Rightarrow> set_cell a d (hslot s))\<rparr>))
          else observe fadd i a v s)"

definition call_record :: "nat \<Rightarrow> double \<Rightarrow> histo_sys \<Rightarrow> histo_sys" where
  "call_record i v s =
     (if i < length (hthreads s) \<and> hthreads s ! i = HIdle
      then goto i (HCount v) (s\<lparr>called := called s @ [v]\<rparr>) else s)"

inductive histo_step :: "fadder \<Rightarrow> histo_sys \<Rightarrow> histo_sys \<Rightarrow> bool" for fadd :: fadder where
  hs_call: "histo_step fadd s (call_record i v s)"
| hs_run: "histo_step fadd s (record_step fadd spurious i s)"

inductive_cases histo_stepE: "histo_step fadd s t"

definition histo_start :: "nat \<Rightarrow> histo_sys" where
  "histo_start n = \<lparr>hslot = HistogramSlot_init, hthreads = replicate n HIdle, called = [], past = (\<lambda>_. [])\<rparr>"

definition histo_init :: "histo_sys \<Rightarrow> bool" where
  "histo_init s \<longleftrightarrow> (\<exists>n. s = histo_start n)"

section \<open>Threads on one counter\<close>

datatype apc = AIdle | ALoad double | ACas double double

record counter_sys =
  cslot :: CounterSlot
  cthreads :: "apc list"
  issued :: "double list"
  added :: "double list"

text \<open>One access of \<open>Add\<close>: the load, then exchanges until one succeeds.\<close>

definition add_step :: "fadder \<Rightarrow> bool \<Rightarrow> nat \<Rightarrow> counter_sys \<Rightarrow> counter_sys" where
  "add_step fadd spurious i s =
     (if length (cthreads s) \<le> i then s else
      let cur = cvalue (cslot s) in
      case cthreads s ! i of
        AIdle \<Rightarrow> s
      | ALoad v \<Rightarrow> s\<lparr>cthreads := (cthreads s)[i := ACas v cur]\<rparr>
      | ACas v c \<Rightarrow>
          if cur = c \<and> \<not> spurious
          then s\<lparr>cslot := (cslot s)\<lparr>cvalue := fadd c v\<rparr>, cthreads := (cthreads s)[i := AIdle], added := added s @ [v]\<rparr>
          else s\<lparr>cthreads := (cthreads s)[i := ACas v cur]\<rparr>)"

definition call_add :: "nat \<Rightarrow> double \<Rightarrow> counter_sys \<Rightarrow> counter_sys" where
  "call_add i v s =
     (if i < length (cthreads s) \<and> cthreads s ! i = AIdle
      then s\<lparr>cthreads := (cthreads s)[i := ALoad v], issued := issued s @ [v]\<rparr> else s)"

inductive counter_step :: "fadder \<Rightarrow> counter_sys \<Rightarrow> counter_sys \<Rightarrow> bool" for fadd :: fadder where
  cs_call: "counter_step fadd s (call_add i v s)"
| cs_run: "counter_step fadd s (add_step fadd spurious i s)"

inductive_cases counter_stepE: "counter_step fadd s t"

definition counter_start :: "nat \<Rightarrow> counter_sys" where
  "counter_start n = \<lparr>cslot = CounterSlot_init, cthreads = replicate n AIdle, issued = [], added = []\<rparr>"

definition counter_init :: "counter_sys \<Rightarrow> bool" where
  "counter_init s \<longleftrightarrow> (\<exists>n. s = counter_start n)"

section \<open>Extremal cells\<close>

text \<open>A cell that a value replaces only when it is better, as the minimum and maximum loops do.\<close>

locale extremal_cell =
  fixes better :: "'d \<Rightarrow> 'd \<Rightarrow> bool"
  assumes better_irrefl: "\<not> better x x"
    and better_trans: "better x y \<Longrightarrow> better y z \<Longrightarrow> better x z"
begin

lemma keep_fold:
  "(let r = foldl (\<lambda>c v. if better v c then v else c) c0 vs
    in \<not> better c0 r \<and> (\<forall>v \<in> set vs. \<not> better v r) \<and> r \<in> insert c0 (set vs))"
proof (induction vs rule: rev_induct)
  case Nil
  then show ?case by (simp add: better_irrefl)
next
  case (snoc v vs)
  then show ?case by (auto simp: Let_def better_irrefl dest: better_trans)
qed

end

lemma dless_irrefl: "\<not> dless x x"
  by (cases x) simp_all

lemma dless_trans: "dless x y \<Longrightarrow> dless y z \<Longrightarrow> dless x z"
  by (cases x; cases y; cases z) auto

interpretation minimum: extremal_cell dless
  by unfold_locales (fact dless_irrefl, fact dless_trans)

interpretation maximum: extremal_cell "\<lambda>x y. dless y x"
  by unfold_locales (auto simp: dless_irrefl intro: dless_trans)

section \<open>Invariants\<close>

lemma mset_concat_update:
  assumes "i < length xs"
  shows "mset (concat (map f (xs[i := y]))) + mset (f (xs ! i)) = mset (concat (map f xs)) + mset (f y)"
  using assms
proof (induction xs arbitrary: i)
  case (Cons x xs)
  then show ?case by (cases i) (auto simp: ac_simps)
qed simp

lemma mset_concat_update_same:
  "i < length xs \<Longrightarrow> f y = f (xs ! i) \<Longrightarrow> mset (concat (map f (xs[i := y]))) = mset (concat (map f xs))"
  using mset_concat_update [of i xs f y] by simp

text \<open>The stage a thread has not passed yet, with its value.\<close>

fun pending :: "nat \<Rightarrow> hpc \<Rightarrow> double list" where
  "pending k HIdle = []"
| "pending k (HCount v) = [v]"
| "pending k (HBucket v) = (if 1 \<le> k then [v] else [])"
| "pending k (HUndefined v) = (if 1 \<le> k then [v] else [])"
| "pending k (HLoad a v) = (if rank a \<le> k then [v] else [])"
| "pending k (HCas a v c) = (if rank a \<le> k then [v] else [])"

definition keep :: "fadder \<Rightarrow> agg \<Rightarrow> double \<Rightarrow> double \<Rightarrow> double" where
  "keep fadd a c v = (case desired fadd a v c of None \<Rightarrow> c | Some d \<Rightarrow> d)"

definition in_bucket :: "nat \<Rightarrow> double \<Rightarrow> bool" where
  "in_bucket b v \<longleftrightarrow> HistogramBucketOf v = Some b"

definition accounted :: "histo_sys \<Rightarrow> nat \<Rightarrow> bool" where
  "accounted s k \<longleftrightarrow> mset (called s) = mset (past s k) + mset (concat (map (pending k) (hthreads s)))"

definition histo_inv :: "fadder \<Rightarrow> histo_sys \<Rightarrow> bool" where
  "histo_inv fadd s \<longleftrightarrow>
     hcount (hslot s) = of_nat (length (past s 0)) \<and>
     length (hbuckets (hslot s)) = kHistogramBuckets \<and>
     (\<forall>b < kHistogramBuckets. hbuckets (hslot s) ! b = of_nat (length (filter (in_bucket b) (past s 1)))) \<and>
     (\<forall>a. cell_of a (hslot s) = foldl (keep fadd a) (cell_of a HistogramSlot_init) (past s (rank a))) \<and>
     (\<forall>k < 5. accounted s k)"

lemma goto_sel [simp]:
  "hslot (goto i p s) = hslot s" "called (goto i p s) = called s" "past (goto i p s) = past s"
  "hthreads (goto i p s) = (hthreads s)[i := p]"
  by (simp_all add: goto_def)

lemma pass_stage_sel [simp]:
  "hslot (pass_stage k v s) = hslot s" "called (pass_stage k v s) = called s" "hthreads (pass_stage k v s) = hthreads s"
  "past (pass_stage k v s) j = (if j = k then past s k @ [v] else past s j)"
  by (simp_all add: pass_stage_def)

lemma accounted_slot [simp]: "accounted (s\<lparr>hslot := x\<rparr>) k = accounted s k"
  by (simp add: accounted_def)

lemma accounted_goto:
  assumes "i < length (hthreads s)" "pending k p = pending k (hthreads s ! i)"
  shows "accounted (goto i p s) k = accounted s k"
  using mset_concat_update_same [OF assms] by (simp add: accounted_def)

lemma accounted_pass:
  assumes i: "i < length (hthreads s)" and k: "k < 5" and acc: "accounted s k"
    and old: "pending k (hthreads s ! i) = (if j \<le> k then [v] else [])"
    and new: "pending k p = (if Suc j \<le> k then [v] else [])"
  shows "accounted (goto i p (pass_stage j v s)) k"
proof (cases "j = k")
  case True
  have "mset (concat (map (pending k) ((hthreads s)[i := p]))) + {#v#} = mset (concat (map (pending k) (hthreads s)))"
    using mset_concat_update [OF i, of "pending k" p] old new True by simp
  with acc True show ?thesis by (simp add: accounted_def ac_simps)
next
  case False
  then have "pending k p = pending k (hthreads s ! i)" using old new by auto
  with i acc False show ?thesis by (simp add: accounted_def mset_concat_update_same)
qed

lemma pending_after: "k < 5 \<Longrightarrow> pending k (after_cell a v) = (if Suc (rank a) \<le> k then [v] else [])"
  by (cases a) auto

lemma rank_inj [simp]: "rank a = rank b \<longleftrightarrow> a = b"
  by (cases a; cases b) simp_all

lemma rank_neq [simp]: "rank a \<noteq> 0" "rank a \<noteq> Suc 0" "0 \<noteq> rank a" "Suc 0 \<noteq> rank a"
  by (cases a; simp)+

lemma cell_of_other [simp]:
  "cell_of a (x\<lparr>hcount := n\<rparr>) = cell_of a x" "cell_of a (x\<lparr>hbuckets := bs\<rparr>) = cell_of a x"
  "cell_of a (set_cell b d x) = (if a = b then d else cell_of a x)"
  "hcount (set_cell b d x) = hcount x" "hbuckets (set_cell b d x) = hbuckets x"
  by (cases a; cases b; simp)+

lemma histo_inv_goto:
  assumes "histo_inv fadd s" "i < length (hthreads s)" "\<And>k. pending k p = pending k (hthreads s ! i)"
  shows "histo_inv fadd (goto i p s)"
  using assms by (simp add: histo_inv_def accounted_goto)

lemma histo_inv_cell:
  assumes inv: "histo_inv fadd s" and i: "i < length (hthreads s)"
    and pc: "\<And>k. pending k (hthreads s ! i) = (if rank a \<le> k then [v] else [])"
    and x: "x = (case desired fadd a v (cell_of a (hslot s)) of None \<Rightarrow> hslot s | Some d \<Rightarrow> set_cell a d (hslot s))"
  shows "histo_inv fadd (goto i (after_cell a v) (pass_stage (rank a) v (s\<lparr>hslot := x\<rparr>)))"
proof -
  have "cell_of b x = (if b = a then keep fadd a (cell_of a (hslot s)) v else cell_of b (hslot s))" for b
    by (auto simp: x keep_def split: option.splits)
  moreover have "hcount x = hcount (hslot s)" "hbuckets x = hbuckets (hslot s)"
    by (auto simp: x split: option.splits)
  moreover have "accounted (goto i (after_cell a v) (pass_stage (rank a) v (s\<lparr>hslot := x\<rparr>))) k" if "k < 5" for k
    using inv i that pc by (intro accounted_pass) (auto simp: histo_inv_def pending_after)
  ultimately show ?thesis using inv by (simp add: histo_inv_def)
qed

lemma histo_inv_observe:
  assumes inv: "histo_inv fadd s" and i: "i < length (hthreads s)"
    and pc: "\<And>k. pending k (hthreads s ! i) = (if rank a \<le> k then [v] else [])"
  shows "histo_inv fadd (observe fadd i a v s)"
proof (cases "desired fadd a v (cell_of a (hslot s))")
  case None
  then show ?thesis using histo_inv_cell [OF inv i pc refl] by (simp add: observe_def)
next
  case (Some d)
  then show ?thesis using histo_inv_goto [OF inv i] pc by (simp add: observe_def)
qed

lemma bucket_bound: "HistogramBucketOf v = Some b \<Longrightarrow> b < kHistogramBuckets"
  by (auto simp: HistogramBucketOf_def Let_def kHistogramBuckets_def split: if_splits)

lemma histo_inv_count:
  assumes inv: "histo_inv fadd s" and i: "i < length (hthreads s)" and pc: "hthreads s ! i = HCount v"
  shows "histo_inv fadd (goto i (HBucket v) (pass_stage 0 v (s\<lparr>hslot := (hslot s)\<lparr>hcount := hcount (hslot s) + 1\<rparr>\<rparr>)))"
proof -
  have "accounted (goto i (HBucket v) (pass_stage 0 v (s\<lparr>hslot := x\<rparr>))) k" if "k < 5" for k x
    using inv i that pc by (intro accounted_pass) (auto simp: histo_inv_def)
  then show ?thesis using inv by (simp add: histo_inv_def)
qed

lemma histo_inv_bucket:
  assumes inv: "histo_inv fadd s" and i: "i < length (hthreads s)" and pc: "hthreads s ! i = HBucket v"
    and b: "HistogramBucketOf v = Some b"
  shows "histo_inv fadd (goto i (HLoad ASum v) (pass_stage 1 v
     (s\<lparr>hslot := (hslot s)\<lparr>hbuckets := (hbuckets (hslot s))[b := hbuckets (hslot s) ! b + 1]\<rparr>\<rparr>)))"
proof -
  have "accounted (goto i (HLoad ASum v) (pass_stage 1 v (s\<lparr>hslot := x\<rparr>))) k" if "k < 5" for k x
    using inv i that pc by (intro accounted_pass) (auto simp: histo_inv_def)
  then show ?thesis using inv bucket_bound [OF b] b
    by (simp add: histo_inv_def nth_list_update in_bucket_def)
qed

lemma histo_init_inv: "histo_init s \<Longrightarrow> histo_inv fadd s"
  by (auto simp: histo_init_def histo_start_def histo_inv_def accounted_def HistogramSlot_init_def)

lemma record_step_inv:
  assumes inv: "histo_inv fadd s" shows "histo_inv fadd (record_step fadd spurious i s)"
proof (cases "i < length (hthreads s)")
  case True
  then show ?thesis
  proof (cases "hthreads s ! i")
    case (HBucket v)
    with True inv show ?thesis
      by (cases "HistogramBucketOf v")
        (auto simp: record_step_def simp del: One_nat_def intro: histo_inv_goto histo_inv_bucket)
  next
    case (HCas a v c)
    with True inv show ?thesis
      using histo_inv_cell [OF inv True, of a v] histo_inv_observe [OF inv True, of a v] by (auto simp: record_step_def)
  qed (use True inv in \<open>auto simp: record_step_def intro: histo_inv_count histo_inv_observe\<close>)
qed (use inv in \<open>simp add: record_step_def\<close>)

lemma call_record_inv: 
  assumes inv: "histo_inv fadd s" shows "histo_inv fadd (call_record i v s)"
proof (cases "i < length (hthreads s) \<and> hthreads s ! i = HIdle")
  case True
  have "mset (concat (map (pending k) ((hthreads s)[i := HCount v]))) = mset (concat (map (pending k) (hthreads s))) + {#v#}" for k
    using mset_concat_update [of i "hthreads s" "pending k" "HCount v"] True by simp
  with inv True show ?thesis by (simp add: call_record_def histo_inv_def accounted_def)
qed (use inv in \<open>auto simp: call_record_def\<close>)

lemma histo_step_inv: "histo_step fadd s t \<Longrightarrow> histo_inv fadd s \<Longrightarrow> histo_inv fadd t"
  by (elim histo_stepE) (simp_all add: record_step_inv call_record_inv)

interpretation histo: inductive_invariant histo_init "histo_step fadd" "\<lambda>_. True" "histo_inv fadd" for fadd
  by unfold_locales (auto intro: histo_init_inv histo_step_inv)

lemma desired_init:
  "hsum HistogramSlot_init = Fin 0" "hmin HistogramSlot_init = Inf False" "hmax HistogramSlot_init = Inf True"
  by (simp_all add: HistogramSlot_init_def)

lemma keep_simps:
  "keep fadd ASum = fadd" "keep fadd AMin = (\<lambda>c v. if dless v c then v else c)"
  "keep fadd AMax = (\<lambda>c v. if dless c v then v else c)"
  by (auto simp: keep_def fun_eq_iff)

lemma idle_passed:
  assumes "accounted s k" "\<forall>p \<in> set (hthreads s). p = HIdle"
  shows "mset (past s k) = mset (called s)"
proof -
  have "concat (map (pending k) (hthreads s)) = []" using assms(2) by auto
  then show ?thesis using assms(1) by (simp add: accounted_def)
qed

lemma filter_length_mset: "mset xs = mset ys \<Longrightarrow> length (filter P xs) = length (filter P ys)"
  by (metis mset_filter size_mset)

text \<open>The counter.\<close>

fun unadded :: "apc \<Rightarrow> double list" where
  "unadded AIdle = []"
| "unadded (ALoad v) = [v]"
| "unadded (ACas v c) = [v]"

definition counter_inv :: "fadder \<Rightarrow> counter_sys \<Rightarrow> bool" where
  "counter_inv fadd s \<longleftrightarrow>
     cvalue (cslot s) = foldl fadd (Fin 0) (added s) \<and>
     mset (issued s) = mset (added s) + mset (concat (map unadded (cthreads s)))"

lemma add_step_inv:
  assumes "counter_inv fadd s" shows "counter_inv fadd (add_step fadd spurious i s)"
proof (cases "i < length (cthreads s)")
  case True
  note upd = mset_concat_update [OF True, of unadded]
  show ?thesis
  proof (cases "cthreads s ! i")
    case (ACas v c)
    have "mset (concat (map unadded ((cthreads s)[i := AIdle]))) + {#v#} = mset (concat (map unadded (cthreads s)))"
      using upd [of AIdle] ACas by simp
    moreover have "mset (concat (map unadded ((cthreads s)[i := ACas v d]))) = mset (concat (map unadded (cthreads s)))" for d
      using upd [of "ACas v d"] ACas by simp
    ultimately show ?thesis using True ACas assms by (auto simp: add_step_def counter_inv_def Let_def ac_simps)
  next
    case (ALoad v)
    then show ?thesis using True assms upd [of "ACas v (cvalue (cslot s))"] by (simp add: add_step_def counter_inv_def)
  qed (use True assms in \<open>simp add: add_step_def\<close>)
qed (use assms in \<open>simp add: add_step_def\<close>)

lemma call_add_inv:
  assumes "counter_inv fadd s" shows "counter_inv fadd (call_add i v s)"
  using assms mset_concat_update [of i "cthreads s" unadded "ALoad v"]
  by (auto simp: call_add_def counter_inv_def ac_simps)

interpretation counter: inductive_invariant counter_init "counter_step fadd" "\<lambda>_. True" "counter_inv fadd" for fadd
proof (unfold_locales, goal_cases)
  case (1 s)
  then show ?case by (auto simp: counter_init_def counter_start_def counter_inv_def CounterSlot_init_def)
next
  case (3 s t)
  then show ?case by (elim counter_stepE) (simp_all add: add_step_inv call_add_inv)
qed simp

section \<open>Buckets\<close>

lemma ilog2_bounds: "0 < n \<Longrightarrow> 2 ^ ilog2 n \<le> n \<and> n < 2 ^ Suc (ilog2 n)"
proof (induction n rule: ilog2.induct)
  case (1 n)
  show ?case
  proof (cases "n < 2")
    case True
    then show ?thesis using "1.prems" by (subst (1 2) ilog2.simps) simp
  next
    case False
    then have "2 ^ ilog2 (n div 2) \<le> n div 2 \<and> n div 2 < 2 ^ Suc (ilog2 (n div 2))" using "1.IH" by simp
    then show ?thesis using False by (subst (1 2) ilog2.simps) auto
  qed
qed

lemma ilog2_rat:
  assumes "1 \<le> (q :: rat)"
  shows "2 ^ ilog2 (nat \<lfloor>q\<rfloor>) \<le> q \<and> q < 2 ^ Suc (ilog2 (nat \<lfloor>q\<rfloor>))"
proof -
  let ?n = "nat \<lfloor>q\<rfloor>" and ?e = "ilog2 (nat \<lfloor>q\<rfloor>)"
  have f: "1 \<le> \<lfloor>q\<rfloor>" using assms by simp
  then have n: "int ?n = \<lfloor>q\<rfloor>" by simp
  have b: "2 ^ ?e \<le> ?n" "?n < 2 ^ Suc ?e" using ilog2_bounds [of ?n] f by auto
  have "int (2 ^ ?e) \<le> \<lfloor>q\<rfloor>" using b(1) n by (metis of_nat_le_iff)
  then have "rat_of_int (int (2 ^ ?e)) \<le> q" by linarith
  moreover have "\<lfloor>q\<rfloor> < int (2 ^ Suc ?e)" using b(2) n by (metis of_nat_less_iff)
  then have "q < rat_of_int (int (2 ^ Suc ?e))" by linarith
  ultimately show ?thesis by simp
qed

text \<open>The finite doubles are below \<open>2 ^ 1024\<close>.\<close>

fun in_range :: "double \<Rightarrow> bool" where
  "in_range (Fin q) \<longleftrightarrow> q < 2 ^ 1024"
| "in_range _ \<longleftrightarrow> True"

lemma ilog2_range:
  assumes "1 \<le> (q :: rat)" "q < 2 ^ 1024" shows "ilog2 (nat \<lfloor>q\<rfloor>) < 1024"
proof -
  have "(2 :: rat) ^ ilog2 (nat \<lfloor>q\<rfloor>) < 2 ^ 1024" using ilog2_rat [OF assms(1)] assms(2) by linarith
  then show ?thesis by (rule power_less_imp_less_exp [rotated]) simp
qed

section \<open>Schedules\<close>

lemma add_step_reach:
  "reach counter_init (counter_step fadd) s \<Longrightarrow> reach counter_init (counter_step fadd) (add_step fadd b i s)"
  using reach_step [of counter_init "counter_step fadd" s] cs_run by blast

lemma call_add_reach:
  "reach counter_init (counter_step fadd) s \<Longrightarrow> reach counter_init (counter_step fadd) (call_add i v s)"
  using reach_step [of counter_init "counter_step fadd" s] cs_call by blast

definition exact_add :: fadder where
  "exact_add x y = (case x of Fin a \<Rightarrow> (case y of Fin b \<Rightarrow> Fin (a + b) | _ \<Rightarrow> y) | _ \<Rightarrow> x)"

definition record_sched :: "fadder \<Rightarrow> nat list \<Rightarrow> histo_sys \<Rightarrow> histo_sys" where
  "record_sched fadd is s = fold (record_step fadd False) is s"

lemma record_sched_reach:
  "reach histo_init (histo_step fadd) s \<Longrightarrow> reach histo_init (histo_step fadd) (record_sched fadd is s)"
  unfolding record_sched_def by (induction "is" arbitrary: s) (auto intro: reach_step hs_run)

lemma call_record_reach:
  "reach histo_init (histo_step fadd) s \<Longrightarrow> reach histo_init (histo_step fadd) (call_record i v s)"
  using reach_step [of histo_init "histo_step fadd" s] hs_call by blast

text \<open>Two threads record 3 and 5; both load the sum before either stores it.\<close>

definition contended :: histo_sys where
  "contended = record_sched exact_add ([0, 1, 0, 1, 0, 1, 0, 1] @ [0, 0, 0, 0] @ replicate 6 1)
     (call_record 1 (Fin 5) (call_record 0 (Fin 3) (histo_start 2)))"

lemma contended_reach: "reach histo_init (histo_step exact_add) contended"
  unfolding contended_def
  by (intro record_sched_reach call_record_reach reach_init) (auto simp: histo_init_def)

section \<open>Properties\<close>

text \<open>
  Property C27. The histogram's aggregates lose nothing under contention: whenever no thread is inside
  \<open>Record\<close>, however the threads' accesses were interleaved and however often exchanges failed, the
  count is the number of recorded values (modulo \<open>2 ^ 64\<close>), every bucket holds the number of values
  that belong to it, the sum is the rounded sum of all values in some order, and the minimum and
  maximum are attained bounds (a NaN is ignored by both).
\<close>

theorem histogram_aggregates:
  assumes "reach histo_init (histo_step fadd) s" and idle: "\<forall>p \<in> set (hthreads s). p = HIdle"
  shows "hcount (hslot s) = of_nat (length (called s)) \<and>
    (\<forall>b < 24. hbuckets (hslot s) ! b = of_nat (length (filter (\<lambda>v. HistogramBucketOf v = Some b) (called s)))) \<and>
    (\<exists>order. mset order = mset (called s) \<and> hsum (hslot s) = foldl fadd (Fin 0) order) \<and>
    (\<forall>v \<in> set (called s). \<not> dless v (hmin (hslot s)) \<and> \<not> dless (hmax (hslot s)) v) \<and>
    hmin (hslot s) \<in> insert (Inf False) (set (called s)) \<and> hmax (hslot s) \<in> insert (Inf True) (set (called s))"
proof -
  have inv: "histo_inv fadd s" using histo.reach_inv assms(1) by simp
  have m: "mset (past s k) = mset (called s)" if "k < 5" for k
    using idle_passed idle inv that by (simp add: histo_inv_def)
  have cell: "cell_of a (hslot s) = foldl (keep fadd a) (cell_of a HistogramSlot_init) (past s (rank a))" for a
    using inv by (simp add: histo_inv_def)
  have len: "length (past s 0) = length (called s)" using m [of 0] by (metis size_mset zero_less_numeral)
  have bk: "length (filter P (past s 1)) = length (filter P (called s))" for P
    using m [of 1] by (intro filter_length_mset) simp
  have sets: "set (past s 3) = set (called s)" "set (past s 4) = set (called s)"
    using mset_eq_setD [OF m [of 3]] mset_eq_setD [OF m [of 4]] by simp_all
  let ?x = "hslot s"
  have lo: "\<forall>v \<in> set (called s). \<not> dless v (hmin ?x)" "hmin ?x \<in> insert (Inf False) (set (called s))"
    using minimum.keep_fold [of "Inf False" "past s 3"] cell [of AMin] sets(1)
    by (simp_all add: keep_simps desired_init Let_def)
  have hi: "\<forall>v \<in> set (called s). \<not> dless (hmax ?x) v" "hmax ?x \<in> insert (Inf True) (set (called s))"
    using maximum.keep_fold [of "Inf True" "past s 4"] cell [of AMax] sets(2)
    by (simp_all add: keep_simps desired_init Let_def)
  have sum: "mset (past s 2) = mset (called s)" "hsum ?x = foldl fadd (Fin 0) (past s 2)"
    using m [of 2] cell [of ASum] by (simp_all add: keep_simps desired_init)
  have buckets: "\<forall>b < 24. hbuckets ?x ! b = of_nat (length (filter (\<lambda>v. HistogramBucketOf v = Some b) (called s)))"
    using inv bk by (simp add: histo_inv_def kHistogramBuckets_def in_bucket_def [abs_def])
  have count: "hcount ?x = of_nat (length (called s))" using inv len by (simp add: histo_inv_def)
  show ?thesis using count buckets sum lo hi by blast
qed

theorem histogram_aggregates_witness:
  "hcount (hslot contended) = 2 \<and> hbuckets (hslot contended) ! 2 = 1 \<and>
   \<not> dless (Fin 3) (hmin (hslot contended)) \<and> \<not> dless (hmax (hslot contended)) (Fin 5)"
proof -
  have idle: "\<forall>p \<in> set (hthreads contended). p = HIdle" by code_simp
  have calls: "called contended = [Fin 3, Fin 5]" by code_simp
  have b: "length (filter (\<lambda>v. HistogramBucketOf v = Some 2) [Fin 3, Fin 5]) = 1" by code_simp
  show ?thesis using histogram_aggregates [OF contended_reach idle] unfolding calls
    using b by simp
qed

text \<open>
  Counters lose no increment: the value is always the rounded sum of the increments that
  took effect, in the order in which they did, and when no thread is inside \<open>Add\<close> these are all the
  increments requested.
\<close>

theorem counter_loses_nothing:
  assumes "reach counter_init (counter_step fadd) s"
  shows "cvalue (cslot s) = foldl fadd (Fin 0) (added s) \<and>
    ((\<forall>p \<in> set (cthreads s). p = AIdle) \<longrightarrow> mset (added s) = mset (issued s))"
proof -
  have inv: "counter_inv fadd s" using counter.reach_inv assms by simp
  moreover have "concat (map unadded (cthreads s)) = []" if "\<forall>p \<in> set (cthreads s). p = AIdle" using that by auto
  ultimately show ?thesis by (auto simp: counter_inv_def)
qed

theorem counter_loses_nothing_witness:
  "cvalue (cslot (add_step exact_add False 0 (add_step exact_add False 0 (call_add 0 (Fin 2) (counter_start 1))))) =
   foldl exact_add (Fin 0) (added (add_step exact_add False 0 (add_step exact_add False 0 (call_add 0 (Fin 2) (counter_start 1)))))"
proof -
  have "reach counter_init (counter_step exact_add) (counter_start 1)"
    by (rule reach_init) (auto simp: counter_init_def)
  then have "reach counter_init (counter_step exact_add)
      (add_step exact_add False 0 (add_step exact_add False 0 (call_add 0 (Fin 2) (counter_start 1))))"
    by (intro add_step_reach call_add_reach)
  from counter_loses_nothing [OF this] show ?thesis by blast
qed

text \<open>
  Property C28. Every finite double, the negative infinity and a NaN fall into exactly the documented
  bucket: values below 1 and NaN into bucket 0, otherwise \<open>UpperBound (b - 1) \<le> v < UpperBound b\<close>. For
  the positive infinity \<open>std::ilogb\<close> is \<open>INT_MAX\<close> and the addition overflows.
\<close>

theorem histogram_bucket_bounds:
  assumes "in_range v" "v \<noteq> Inf False"
  shows "\<exists>b. HistogramBucketOf v = Some b \<and> b < kHistogramBuckets \<and>
    (v = NaN \<or> dless v (HistogramBucketUpperBound b)) \<and>
    (0 < b \<longrightarrow> dle (HistogramBucketUpperBound (b - 1)) v) \<and>
    (b = 0 \<longleftrightarrow> \<not> dle (Fin 1) v) \<and>
    HistogramBucketOf (Inf False) = None"
proof -
  have inf: "HistogramBucketOf (Inf False) = None" by (simp add: HistogramBucketOf_def dle_def)
  show ?thesis
  proof (cases "dle (Fin 1) v")
    case False
    have "HistogramBucketOf v = Some 0 \<and> (v = NaN \<or> dless v (HistogramBucketUpperBound 0))"
      using False by (cases v) (auto simp: HistogramBucketOf_def HistogramBucketUpperBound_def dle_def)
    then show ?thesis using False inf by (intro exI [of _ 0]) (simp add: kHistogramBuckets_def)
  next
    case True
    then obtain q where q: "v = Fin q" "1 \<le> q" using assms(2) by (cases v) (auto simp: dle_def)
    let ?e = "ilog2 (nat \<lfloor>q\<rfloor>)"
    have e: "2 ^ ?e \<le> q" "q < 2 ^ Suc ?e" "?e < 1024" using ilog2_rat [OF q(2)] ilog2_range [OF q(2)] assms(1) q(1) by auto
    let ?b = "if 23 \<le> ?e + 1 then 23 else ?e + 1"
    have b: "HistogramBucketOf v = Some ?b"
      using e(3) True by (simp add: HistogramBucketOf_def q(1) int_max_def Let_def nat_add_distrib)
    have lo: "dle (HistogramBucketUpperBound (?b - 1)) v"
    proof (cases "22 \<le> ?e")
      case True
      have "(2 :: rat) ^ 22 \<le> 2 ^ ?e" using True by (intro power_increasing) auto
      then have "2 ^ 22 \<le> q" using e(1) by linarith
      then show ?thesis using True by (auto simp: q(1) HistogramBucketUpperBound_def dle_def)
    qed (use e(1) in \<open>auto simp: q(1) HistogramBucketUpperBound_def dle_def\<close>)
    have "dless v (HistogramBucketUpperBound ?b)" using e(2) by (auto simp: q(1) HistogramBucketUpperBound_def)
    with b lo True inf show ?thesis by (intro exI [of _ ?b]) (auto simp: kHistogramBuckets_def)
  qed
qed

theorem histogram_bucket_bounds_witness:
  "\<exists>b. HistogramBucketOf (Fin 5) = Some b \<and> dless (Fin 5) (HistogramBucketUpperBound b)"
  using histogram_bucket_bounds [of "Fin 5"] by auto

text \<open>The loop of one cell, run alone: a load and at most one exchange.\<close>

lemma solo_cell:
  assumes pc: "hthreads s = [HLoad a v]"
  shows "\<exists>n \<le> 2. let t = (record_step fadd False 0 ^^ n) s in
    hthreads t = [after_cell a v] \<and>
    hslot t = (case desired fadd a v (cell_of a (hslot s)) of None \<Rightarrow> hslot s | Some d \<Rightarrow> set_cell a d (hslot s))"
proof (cases "desired fadd a v (cell_of a (hslot s))")
  case None
  then show ?thesis using pc by (intro exI [of _ 1]) (simp add: record_step_def observe_def)
next
  case (Some d)
  then show ?thesis using pc by (intro exI [of _ 2]) (simp add: record_step_def observe_def numeral_2_eq_2)
qed

text \<open>
  A thread that records alone finishes within eight accesses and leaves exactly what the sequential
  \<open>Record\<close> computes.
\<close>

theorem solo_record:
  assumes pc: "hthreads s = [HCount v]" and r: "HistogramSlot_Record fadd v (hslot s) = Some x"
  shows "\<exists>n \<le> 8. hslot ((record_step fadd False 0 ^^ n) s) = x \<and> hthreads ((record_step fadd False 0 ^^ n) s) = [HIdle]"
proof -
  let ?f = "record_step fadd False 0"
  obtain b where b: "HistogramBucketOf v = Some b" using r by (auto simp: HistogramSlot_Record_def split: option.splits)
  define t0 where "t0 = (?f ^^ 2) s"
  let ?y = "(hslot s)\<lparr>hcount := hcount (hslot s) + 1, hbuckets := (hbuckets (hslot s))[b := hbuckets (hslot s) ! b + 1]\<rparr>"
  have t0: "hthreads t0 = [HLoad ASum v]" "hslot t0 = ?y"
    using pc b by (simp_all add: t0_def record_step_def numeral_2_eq_2)
  obtain n1 where n1: "n1 \<le> 2" "hthreads ((?f ^^ n1) t0) = [HLoad AMin v]" "hslot ((?f ^^ n1) t0) = ?y\<lparr>hsum := fadd (hsum ?y) v\<rparr>"
    using solo_cell [OF t0(1), of fadd] t0(2) by (auto simp: Let_def)
  define t1 where "t1 = (?f ^^ n1) t0"
  obtain n2 where n2: "n2 \<le> 2" "hthreads ((?f ^^ n2) t1) = [HLoad AMax v]"
    "hslot ((?f ^^ n2) t1) = (hslot t1)\<lparr>hmin := if dless v (hmin (hslot t1)) then v else hmin (hslot t1)\<rparr>"
    using solo_cell [OF n1(2) [folded t1_def], of fadd] by (auto simp: Let_def split: if_splits)
  define t2 where "t2 = (?f ^^ n2) t1"
  obtain n3 where n3: "n3 \<le> 2" "hthreads ((?f ^^ n3) t2) = [HIdle]"
    "hslot ((?f ^^ n3) t2) = (hslot t2)\<lparr>hmax := if dless (hmax (hslot t2)) v then v else hmax (hslot t2)\<rparr>"
    using solo_cell [OF n2(2) [folded t2_def], of fadd] by (auto simp: Let_def split: if_splits)
  have run: "(?f ^^ (n3 + (n2 + (n1 + 2)))) s = (?f ^^ n3) t2"
    by (simp only: funpow_add o_apply t0_def t1_def t2_def)
  have "hslot ((?f ^^ n3) t2) = x"
    using r b unfolding n3(3) n2(3) [folded t2_def] n1(3) [folded t1_def]
    by (cases "hslot s") (auto simp: HistogramSlot_Record_def)
  then show ?thesis using n1(1) n2(1) n3 run by (intro exI [of _ "n3 + (n2 + (n1 + 2))"]) simp
qed

end
