(* ===== verification/Telemetry.thy ===== *)
theory Telemetry
  imports Console_Binding Metrics
begin

text \<open>
  The telemetry front end: the binding table of \<open>telemetry/binding.hpp\<close>, its installation and lazy
  adoption (\<open>telemetry_unbound.cpp\<close>), the console table of \<open>DefaultConsoleBinding\<close>, the unbound
  fallbacks, and the inline operations of \<open>event.hpp\<close>, \<open>handles.hpp\<close> and \<open>health.hpp\<close> that go
  through the active binding. A binding is a table of operations on the process's world; a table
  installed by an application is a parameter.
\<close>

section \<open>The world\<close>

text \<open>What the operations act on: the environment, the console sink with \<open>stderr\<close>, the calling
  thread, the metric slots by address, and the state \<open>sdk\<close> of an installed binding. The slots at
  \<open>noop_slot\<close> and \<open>console_slot\<close> are the shared statics of the unbound state and of the console.\<close>

record 'w World =
  env :: OS
  con :: Console
  thread :: Thread
  counters :: "nat \<Rightarrow> CounterSlot"
  gauges :: "nat \<Rightarrow> GaugeSlot"
  histograms :: "nat \<Rightarrow> HistogramSlot"
  stack_junk :: "nat \<Rightarrow> char"
  sdk :: 'w

abbreviation noop_slot :: nat where "noop_slot \<equiv> 0"
abbreviation console_slot :: nat where "console_slot \<equiv> 1"

definition kBindingAbiVersion :: u32 where
  "kBindingAbiVersion = 3"

record 'w Binding =
  abi_version :: u32
  get_counter :: "string \<Rightarrow> 'w World \<Rightarrow> nat \<times> 'w World"
  get_gauge :: "string \<Rightarrow> 'w World \<Rightarrow> nat \<times> 'w World"
  get_histogram :: "string \<Rightarrow> 'w World \<Rightarrow> nat \<times> 'w World"
  get_signal :: "string \<Rightarrow> nat \<Rightarrow> nat \<Rightarrow> string \<Rightarrow> 'w World \<Rightarrow> nat \<times> 'w World"
  intern_source :: "string \<Rightarrow> 'w World \<Rightarrow> u32 \<times> 'w World"
  should_log :: "(Severity \<Rightarrow> 'w World \<Rightarrow> bool) option"
  set_level :: "(Severity \<Rightarrow> 'w World \<Rightarrow> 'w World) option"
  get_level :: "('w World \<Rightarrow> Severity) option"
  emit_event :: "u32 \<Rightarrow> Severity \<Rightarrow> string \<Rightarrow> ArgPack \<Rightarrow> Context \<Rightarrow> int \<Rightarrow> 'w World \<Rightarrow> 'w World"
  emit_event_dyn :: "u32 \<Rightarrow> Severity \<Rightarrow> string \<Rightarrow> Context \<Rightarrow> int \<Rightarrow> 'w World \<Rightarrow> 'w World"
  emit_span :: "SpanRecord \<Rightarrow> 'w World \<Rightarrow> 'w World"
  emit_signal :: "nat \<Rightarrow> u8 list \<Rightarrow> int \<Rightarrow> 'w World \<Rightarrow> 'w World"
  report_health :: "string option \<Rightarrow> HealthState \<Rightarrow> string option \<Rightarrow> Context \<Rightarrow> int \<Rightarrow> 'w World \<Rightarrow> 'w World"
  set_resource :: "string \<Rightarrow> string \<Rightarrow> 'w World \<Rightarrow> 'w World"

text \<open>The process: the two globals, whether the console table has been materialized, the world.\<close>

record 'w Proc =
  g_binding :: "'w Binding option"
  g_explicitly_set :: bool
  materialized :: bool
  world :: "'w World"

section \<open>The console table\<close>

definition GetCounterImpl :: "string \<Rightarrow> 'w World \<Rightarrow> nat \<times> 'w World" where
  "GetCounterImpl name w = (console_slot, w)"

definition GetGaugeImpl :: "string \<Rightarrow> 'w World \<Rightarrow> nat \<times> 'w World" where
  "GetGaugeImpl name w = (console_slot, w)"

definition GetHistogramImpl :: "string \<Rightarrow> 'w World \<Rightarrow> nat \<times> 'w World" where
  "GetHistogramImpl name w = (console_slot, w)"

definition GetSignalImpl :: "string \<Rightarrow> nat \<Rightarrow> nat \<Rightarrow> string \<Rightarrow> 'w World \<Rightarrow> nat \<times> 'w World" where
  "GetSignalImpl name sz al ty w = (console_slot, w)"

text \<open>Spans, samples and resources are dropped.\<close>

definition EmitSpanImpl :: "SpanRecord \<Rightarrow> 'w World \<Rightarrow> 'w World" where
  "EmitSpanImpl r w = w"

definition EmitSignalImpl :: "nat \<Rightarrow> u8 list \<Rightarrow> int \<Rightarrow> 'w World \<Rightarrow> 'w World" where
  "EmitSignalImpl slot bytes ts w = w"

definition SetResourceImpl :: "string \<Rightarrow> string \<Rightarrow> 'w World \<Rightarrow> 'w World" where
  "SetResourceImpl k v w = w"

lemmas console_impls = GetCounterImpl_def GetGaugeImpl_def GetHistogramImpl_def GetSignalImpl_def EmitSpanImpl_def EmitSignalImpl_def
  SetResourceImpl_def

definition console_binding :: "'w Binding" where
  "console_binding =
     \<lparr>abi_version = kBindingAbiVersion,
      get_counter = GetCounterImpl,
      get_gauge = GetGaugeImpl,
      get_histogram = GetHistogramImpl,
      get_signal = GetSignalImpl,
      intern_source = (\<lambda>name w. let (i, c) = InternSourceImpl name (con w) in (i, w\<lparr>con := c\<rparr>)),
      should_log = Some (\<lambda>sev w. ShouldLogImpl sev (con w)),
      set_level = Some (\<lambda>sev w. w\<lparr>con := SetLevelImpl sev (con w)\<rparr>),
      get_level = Some (\<lambda>w. GetLevelImpl (con w)),
      emit_event = (\<lambda>sid sev fmt args ctx ts w. w\<lparr>con := EmitEventImpl (env w) sid sev (Some fmt) args (con w)\<rparr>),
      emit_event_dyn = (\<lambda>sid sev msg ctx ts w. w\<lparr>con := EmitEventDynImpl (env w) sid sev (Some msg) (con w)\<rparr>),
      emit_span = EmitSpanImpl,
      emit_signal = EmitSignalImpl,
      report_health = (\<lambda>sub st d ctx ts w. w\<lparr>con := ReportHealthImpl (env w) sub st d (con w)\<rparr>),
      set_resource = SetResourceImpl\<rparr>"

text \<open>The table is built on first use, which seeds the level from the environment; without
  \<open>ENABLE_LOGGING\<close> there is none.\<close>

definition DefaultConsoleBinding :: "bool \<Rightarrow> 'w Proc \<Rightarrow> 'w Binding option \<times> 'w Proc" where
  "DefaultConsoleBinding logging p =
     (if \<not> logging then (None, p)
      else let w = world p;
               p' = (if materialized p then p
                     else p\<lparr>materialized := True,
                            world := w\<lparr>con := SetLevelImpl (LevelFromEnv (xm_log_level (env w)) kInfo) (con w)\<rparr>\<rparr>)
           in (Some console_binding, p'))"

section \<open>Installation and lookup\<close>

definition InstallBinding :: "'w Binding option \<Rightarrow> 'w Proc \<Rightarrow> bool \<times> 'w Proc" where
  "InstallBinding binding p =
     (case binding of
        Some b \<Rightarrow> if abi_version b \<noteq> kBindingAbiVersion then (False, p)
                  else (True, p\<lparr>g_explicitly_set := True, g_binding := Some b\<rparr>)
      | None \<Rightarrow> (True, p\<lparr>g_explicitly_set := True, g_binding := None\<rparr>))"

definition ActiveBinding :: "bool \<Rightarrow> 'w Proc \<Rightarrow> 'w Binding option \<times> 'w Proc" where
  "ActiveBinding logging p =
     (if g_binding p = None \<and> \<not> g_explicitly_set p then
        (case DefaultConsoleBinding logging p of
           (None, p1) \<Rightarrow> (None, p1)
         | (Some def, p1) \<Rightarrow>
             let p2 = (if g_binding p1 = None then p1\<lparr>g_binding := Some def\<rparr> else p1)
             in (g_binding p2, p2))
      else (g_binding p, p))"

section \<open>The unbound fallbacks\<close>

fun SeverityName :: "Severity \<Rightarrow> string" where
  "SeverityName kTrace = ''TRACE''"
| "SeverityName kDebug = ''DEBUG''"
| "SeverityName kInfo = ''INFO''"
| "SeverityName kWarn = ''WARN''"
| "SeverityName kError = ''ERROR''"
| "SeverityName kFatal = ''FATAL''"
| "SeverityName kOff = ''?''"

definition to_stderr :: "string \<Rightarrow> 'w World \<Rightarrow> 'w World" where
  "to_stderr s w = w\<lparr>con := (con w)\<lparr>stderr_out := stderr_out (con w) @ s\<rparr>\<rparr>"

definition unbound_line :: "string \<Rightarrow> Severity \<Rightarrow> string \<Rightarrow> string" where
  "unbound_line source sev msg =
     ''[xmtelemetry:'' @ SeverityName sev @ ''] '' @ (if source \<noteq> [] then bracketed source else []) @ msg @ [newline]"

definition UnboundEmitEvent :: "string \<Rightarrow> Severity \<Rightarrow> string \<Rightarrow> ArgPack \<Rightarrow> 'w World \<Rightarrow> 'w World" where
  "UnboundEmitEvent source sev fmt args w =
     to_stderr (unbound_line source sev (cstr (FormatInto (fprint (env w)) (stack_junk w) 512 fmt args))) w"

definition UnboundEmitEventDyn :: "string \<Rightarrow> Severity \<Rightarrow> string \<Rightarrow> 'w World \<Rightarrow> 'w World" where
  "UnboundEmitEventDyn source sev msg w =
     (let n = (if 480 < length msg then 480 else length msg)
      in to_stderr (unbound_line source sev (cstr (take n msg))) w)"

definition UnboundReportHealth :: "string option \<Rightarrow> HealthState \<Rightarrow> string option \<Rightarrow> 'w World \<Rightarrow> 'w World" where
  "UnboundReportHealth subsystem state detail_msg w =
     to_stderr (''[xmtelemetry:HEALTH] '' @ (case subsystem of None \<Rightarrow> ''?'' | Some s \<Rightarrow> s) @ '' -> '' @ HealthName state
       @ (case detail_msg of None \<Rightarrow> [] | Some d \<Rightarrow> if d \<noteq> [] then '': '' @ d else []) @ [newline]) w"

section \<open>Events\<close>

record EventSource =
  source_id :: u32
  source_name :: string

definition on_world :: "('w World \<Rightarrow> 'w World) \<Rightarrow> 'w Proc \<Rightarrow> 'w Proc" where
  "on_world f p = p\<lparr>world := f (world p)\<rparr>"

definition GetEventSource :: "bool \<Rightarrow> string \<Rightarrow> 'w Proc \<Rightarrow> EventSource \<times> 'w Proc" where
  "GetEventSource logging name p =
     (case ActiveBinding logging p of
        (None, p1) \<Rightarrow> (\<lparr>source_id = 0, source_name = name\<rparr>, p1)
      | (Some b, p1) \<Rightarrow> (let (i, w) = intern_source b name (world p1)
                         in (\<lparr>source_id = i, source_name = name\<rparr>, p1\<lparr>world := w\<rparr>)))"

definition ShouldLog :: "bool \<Rightarrow> Severity \<Rightarrow> 'w Proc \<Rightarrow> bool \<times> 'w Proc" where
  "ShouldLog logging sev p =
     (case ActiveBinding logging p of
        (Some b, p1) \<Rightarrow> ((case should_log b of None \<Rightarrow> True | Some f \<Rightarrow> f sev (world p1)), p1)
      | (None, p1) \<Rightarrow> (kWarn \<le> sev, p1))"

definition EmitEvent :: "bool \<Rightarrow> int \<Rightarrow> u32 \<Rightarrow> string \<Rightarrow> Severity \<Rightarrow> string \<Rightarrow> arg list \<Rightarrow> 'w Proc \<Rightarrow> 'w Proc" where
  "EmitEvent logging now sid sname sev fmt args p =
     (case ActiveBinding logging p of
        (Some b, p1) \<Rightarrow>
          if (case should_log b of None \<Rightarrow> False | Some f \<Rightarrow> \<not> f sev (world p1)) then p1
          else let pack = PackArgs args
               in on_world (\<lambda>w. emit_event b sid sev fmt pack (CurrentContext (thread w)) now w) p1
      | (None, p1) \<Rightarrow>
          if kWarn \<le> sev then let pack = PackArgs args in on_world (UnboundEmitEvent sname sev fmt pack) p1
          else p1)"

definition EmitEventDyn :: "bool \<Rightarrow> int \<Rightarrow> u32 \<Rightarrow> string \<Rightarrow> Severity \<Rightarrow> string \<Rightarrow> 'w Proc \<Rightarrow> 'w Proc" where
  "EmitEventDyn logging now sid sname sev msg p =
     (case ActiveBinding logging p of
        (Some b, p1) \<Rightarrow>
          if (case should_log b of None \<Rightarrow> False | Some f \<Rightarrow> \<not> f sev (world p1)) then p1
          else on_world (\<lambda>w. emit_event_dyn b sid sev msg (CurrentContext (thread w)) now w) p1
      | (None, p1) \<Rightarrow>
          if kWarn \<le> sev then on_world (UnboundEmitEventDyn sname sev msg) p1 else p1)"

definition SetResource :: "bool \<Rightarrow> string \<Rightarrow> string \<Rightarrow> 'w Proc \<Rightarrow> 'w Proc" where
  "SetResource logging key value p =
     (case ActiveBinding logging p of
        (Some b, p1) \<Rightarrow> on_world (set_resource b key value) p1
      | (None, p1) \<Rightarrow> p1)"

definition SetLogLevel :: "bool \<Rightarrow> Severity \<Rightarrow> 'w Proc \<Rightarrow> 'w Proc" where
  "SetLogLevel logging min_sev p =
     (case ActiveBinding logging p of
        (Some b, p1) \<Rightarrow> (case set_level b of None \<Rightarrow> p1 | Some f \<Rightarrow> on_world (f min_sev) p1)
      | (None, p1) \<Rightarrow> p1)"

definition GetLogLevel :: "bool \<Rightarrow> 'w Proc \<Rightarrow> Severity \<times> 'w Proc" where
  "GetLogLevel logging p =
     (case ActiveBinding logging p of
        (Some b, p1) \<Rightarrow> ((case get_level b of None \<Rightarrow> kWarn | Some f \<Rightarrow> f (world p1)), p1)
      | (None, p1) \<Rightarrow> (kWarn, p1))"

text \<open>The macros: a call site whose severity is below the compile-time floor is nothing at all. The
  stream form asks for the level first and builds the message only then; the message is the value
  of its stream expression, which may itself change the process (\<open>build\<close>).\<close>

definition XM_EVENT :: "bool \<Rightarrow> int \<Rightarrow> Severity \<Rightarrow> string \<Rightarrow> arg list \<Rightarrow> 'w Proc \<Rightarrow> 'w Proc" where
  "XM_EVENT logging now sev fmt args p = EmitEvent logging now 0 [] sev fmt args p"

definition XM_LOG :: "nat \<Rightarrow> bool \<Rightarrow> int \<Rightarrow> Severity \<Rightarrow> string \<Rightarrow> arg list \<Rightarrow> 'w Proc \<Rightarrow> 'w Proc" where
  "XM_LOG lvl logging now sev fmt args p =
     (if lvl \<le> sev_code sev then EmitEvent logging now 0 [] sev fmt args p else p)"

definition XM_LOG_SRC :: "nat \<Rightarrow> bool \<Rightarrow> int \<Rightarrow> EventSource \<Rightarrow> Severity \<Rightarrow> string \<Rightarrow> arg list \<Rightarrow> 'w Proc \<Rightarrow> 'w Proc" where
  "XM_LOG_SRC lvl logging now src sev fmt args p =
     (if lvl \<le> sev_code sev then EmitEvent logging now (source_id src) (source_name src) sev fmt args p else p)"

definition stream_body :: "bool \<Rightarrow> int \<Rightarrow> u32 \<Rightarrow> string \<Rightarrow> Severity \<Rightarrow> ('w Proc \<Rightarrow> string \<times> 'w Proc) \<Rightarrow> 'w Proc \<Rightarrow> 'w Proc" where
  "stream_body logging now sid sname sev build p =
     (let (go, p1) = ShouldLog logging sev p in
      if go then let (msg, p2) = build p1 in EmitEventDyn logging now sid sname sev msg p2
      else p1)"

definition XM_STREAM :: "nat \<Rightarrow> bool \<Rightarrow> int \<Rightarrow> Severity \<Rightarrow> ('w Proc \<Rightarrow> string \<times> 'w Proc) \<Rightarrow> 'w Proc \<Rightarrow> 'w Proc" where
  "XM_STREAM lvl logging now sev build p =
     (if lvl \<le> sev_code sev then stream_body logging now 0 [] sev build p else p)"

definition XM_STREAM_SRC :: "nat \<Rightarrow> bool \<Rightarrow> int \<Rightarrow> EventSource \<Rightarrow> Severity \<Rightarrow> ('w Proc \<Rightarrow> string \<times> 'w Proc) \<Rightarrow> 'w Proc \<Rightarrow> 'w Proc" where
  "XM_STREAM_SRC lvl logging now src sev build p =
     (if lvl \<le> sev_code sev then stream_body logging now (source_id src) (source_name src) sev build p else p)"

section \<open>Health, metrics and signals\<close>

definition ReportHealth :: "bool \<Rightarrow> int \<Rightarrow> string option \<Rightarrow> HealthState \<Rightarrow> string option \<Rightarrow> 'w Proc \<Rightarrow> 'w Proc" where
  "ReportHealth logging now subsystem state detail_msg p =
     (case ActiveBinding logging p of
        (Some b, p1) \<Rightarrow> on_world (\<lambda>w. report_health b subsystem state detail_msg (CurrentContext (thread w)) now w) p1
      | (None, p1) \<Rightarrow> if state \<noteq> kOk then on_world (UnboundReportHealth subsystem state detail_msg) p1 else p1)"

text \<open>A handle is the address of its slot.\<close>

definition with_binding :: "bool \<Rightarrow> ('w Binding \<Rightarrow> 'w World \<Rightarrow> nat \<times> 'w World) \<Rightarrow> 'w Proc \<Rightarrow> nat \<times> 'w Proc" where
  "with_binding logging get p =
     (case ActiveBinding logging p of
        (Some b, p1) \<Rightarrow> (let (slot, w) = get b (world p1) in (slot, p1\<lparr>world := w\<rparr>))
      | (None, p1) \<Rightarrow> (noop_slot, p1))"

definition GetCounter :: "bool \<Rightarrow> string \<Rightarrow> 'w Proc \<Rightarrow> nat \<times> 'w Proc" where
  "GetCounter logging name = with_binding logging (\<lambda>b. get_counter b name)"

definition GetGauge :: "bool \<Rightarrow> string \<Rightarrow> 'w Proc \<Rightarrow> nat \<times> 'w Proc" where
  "GetGauge logging name = with_binding logging (\<lambda>b. get_gauge b name)"

definition GetHistogram :: "bool \<Rightarrow> string \<Rightarrow> 'w Proc \<Rightarrow> nat \<times> 'w Proc" where
  "GetHistogram logging name = with_binding logging (\<lambda>b. get_histogram b name)"

definition GetChannel :: "bool \<Rightarrow> string \<Rightarrow> nat \<Rightarrow> nat \<Rightarrow> string \<Rightarrow> 'w Proc \<Rightarrow> nat \<times> 'w Proc" where
  "GetChannel logging name sz al ty = with_binding logging (\<lambda>b. get_signal b name sz al ty)"

definition Counter_Add :: "fadder \<Rightarrow> nat \<Rightarrow> double \<Rightarrow> 'w Proc \<Rightarrow> 'w Proc" where
  "Counter_Add fadd slot v = on_world (\<lambda>w. w\<lparr>counters := (counters w)(slot := CounterSlot_Add fadd v (counters w slot))\<rparr>)"

definition Gauge_Set :: "nat \<Rightarrow> double \<Rightarrow> 'w Proc \<Rightarrow> 'w Proc" where
  "Gauge_Set slot v = on_world (\<lambda>w. w\<lparr>gauges := (gauges w)(slot := GaugeSlot_Set v (gauges w slot))\<rparr>)"

definition Histogram_Record :: "fadder \<Rightarrow> nat \<Rightarrow> double \<Rightarrow> 'w Proc \<Rightarrow> 'w Proc option" where
  "Histogram_Record fadd slot v p =
     (case HistogramSlot_Record fadd v (histograms (world p) slot) of
        None \<Rightarrow> None
      | Some h \<Rightarrow> Some (on_world (\<lambda>w. w\<lparr>histograms := (histograms w)(slot := h)\<rparr>) p))"

text \<open>The payload is a trivially copyable object of at most 192 bytes, given by its bytes.\<close>

definition kMaxSignalPayload :: nat where
  "kMaxSignalPayload = 192"

definition Publish :: "bool \<Rightarrow> nat \<Rightarrow> u8 list \<Rightarrow> int \<Rightarrow> 'w Proc \<Rightarrow> 'w Proc" where
  "Publish logging slot sample t p =
     (case ActiveBinding logging p of
        (Some b, p1) \<Rightarrow> on_world (emit_signal b slot sample t) p1
      | (None, p1) \<Rightarrow> p1)"


section \<open>Sequences of calls\<close>

datatype 'w call =
    CInstall "'w Binding option"
  | CSource string
  | CShould Severity
  | CEvent int u32 string Severity string "arg list"
  | CDyn int u32 string Severity string
  | CResource string string
  | CSetLevel Severity
  | CGetLevel
  | CHealth int "string option" HealthState "string option"
  | CCounter string
  | CGauge string
  | CHistogram string
  | CChannel string nat nat string
  | CPublish nat "u8 list" int

fun run_call :: "bool \<Rightarrow> 'w call \<Rightarrow> 'w Proc \<Rightarrow> 'w Proc" where
  "run_call l (CInstall b) p = snd (InstallBinding b p)"
| "run_call l (CSource n) p = snd (GetEventSource l n p)"
| "run_call l (CShould sev) p = snd (ShouldLog l sev p)"
| "run_call l (CEvent t i n sev fmt args) p = EmitEvent l t i n sev fmt args p"
| "run_call l (CDyn t i n sev msg) p = EmitEventDyn l t i n sev msg p"
| "run_call l (CResource k v) p = SetResource l k v p"
| "run_call l (CSetLevel m) p = SetLogLevel l m p"
| "run_call l CGetLevel p = snd (GetLogLevel l p)"
| "run_call l (CHealth t sub st d) p = ReportHealth l t sub st d p"
| "run_call l (CCounter n) p = snd (GetCounter l n p)"
| "run_call l (CGauge n) p = snd (GetGauge l n p)"
| "run_call l (CHistogram n) p = snd (GetHistogram l n p)"
| "run_call l (CChannel n sz al ty) p = snd (GetChannel l n sz al ty p)"
| "run_call l (CPublish slot bs t) p = Publish l slot bs t p"

definition run_calls :: "bool \<Rightarrow> 'w call list \<Rightarrow> 'w Proc \<Rightarrow> 'w Proc" where
  "run_calls l cs p = fold (run_call l) cs p"

fun is_install :: "'w call \<Rightarrow> bool" where
  "is_install (CInstall b) = True"
| "is_install _ = False"

fun is_set_level :: "'w call \<Rightarrow> bool" where
  "is_set_level (CSetLevel m) = True"
| "is_set_level _ = False"

section \<open>Lookup lemmas\<close>

lemma on_world_sel [simp]:
  "g_binding (on_world f p) = g_binding p" "g_explicitly_set (on_world f p) = g_explicitly_set p"
  "materialized (on_world f p) = materialized p" "world (on_world f p) = f (world p)"
  by (simp_all add: on_world_def)

lemma active_explicit [simp]: "g_explicitly_set p \<Longrightarrow> ActiveBinding l p = (g_binding p, p)"
  by (simp add: ActiveBinding_def)

lemma active_some [simp]: "g_binding p = Some b \<Longrightarrow> ActiveBinding l p = (Some b, p)"
  by (simp add: ActiveBinding_def)

lemma active_cases:
  obtains (kept) "ActiveBinding l p = (g_binding p, p)" "g_binding p \<noteq> None \<or> g_explicitly_set p \<or> \<not> l"
  | (adopted) "l" "g_binding p = None" "\<not> g_explicitly_set p"
      "ActiveBinding l p = (Some console_binding, (snd (DefaultConsoleBinding l p))\<lparr>g_binding := Some console_binding\<rparr>)"
  by (cases "g_binding p"; cases "g_explicitly_set p"; cases l)
    (auto simp: ActiveBinding_def DefaultConsoleBinding_def Let_def)

lemma active_idem: "ActiveBinding l p = (b, p1) \<Longrightarrow> ActiveBinding l p1 = (b, p1)"
proof (cases rule: active_cases [of l p])
  case kept
  then show "ActiveBinding l p = (b, p1) \<Longrightarrow> ?thesis" by auto
next
  case adopted
  then show "ActiveBinding l p = (b, p1) \<Longrightarrow> ?thesis" by auto
qed

text \<open>Every call but an installation first looks the binding up and then only changes the world.\<close>

lemma call_shape:
  assumes "\<not> is_install c"
  obtains f where "run_call l c p = on_world f (snd (ActiveBinding l p))"
proof -
  obtain b p1 where a: "ActiveBinding l p = (b, p1)" by fastforce
  have id: "q = on_world (\<lambda>w. w) q" and set: "q\<lparr>world := w\<rparr> = on_world (\<lambda>_. w) q" for q :: "'a Proc" and w
    by (simp_all add: on_world_def)
  have "\<exists>f. run_call l c p = on_world f p1"
    using assms a
    by (cases c; cases b)
      (auto simp: GetEventSource_def ShouldLog_def EmitEvent_def EmitEventDyn_def SetResource_def SetLogLevel_def
        GetLogLevel_def ReportHealth_def with_binding_def GetCounter_def GetGauge_def GetHistogram_def GetChannel_def
        Publish_def Let_def case_prod_unfold set intro: id split: option.splits)
  with a that show thesis by auto
qed


lemma call_keeps_explicit:
  assumes "g_explicitly_set p" "\<not> is_install c"
  shows "g_explicitly_set (run_call l c p) \<and> g_binding (run_call l c p) = g_binding p"
proof -
  obtain f where "run_call l c p = on_world f (snd (ActiveBinding l p))" using call_shape [OF assms(2)] .
  with assms(1) show ?thesis by simp
qed

lemma calls_keep_explicit:
  "g_explicitly_set p \<Longrightarrow> \<forall>c \<in> set cs. \<not> is_install c \<Longrightarrow>
   g_explicitly_set (run_calls l cs p) \<and> g_binding (run_calls l cs p) = g_binding p"
proof (induction cs arbitrary: p)
  case (Cons c cs)
  then show ?case using call_keeps_explicit [of p c l] by (simp add: run_calls_def)
qed (simp add: run_calls_def)

section \<open>Levels\<close>

text \<open>A runtime level: what was set is reported, and it decides what is logged.\<close>

locale level_gate =
  fixes ok :: "'s \<Rightarrow> bool" and should :: "Severity \<Rightarrow> 's \<Rightarrow> bool"
    and set_min :: "Severity \<Rightarrow> 's \<Rightarrow> 's" and get_min :: "'s \<Rightarrow> Severity"
  assumes ok_set: "ok s \<Longrightarrow> ok (set_min m s)"
    and get_set: "ok s \<Longrightarrow> get_min (set_min m s) = m"
    and should_iff: "ok s \<Longrightarrow> should sev s \<longleftrightarrow> sev \<noteq> kOff \<and> get_min s \<le> sev"
begin

lemma should_set: "ok s \<Longrightarrow> should sev (set_min m s) \<longleftrightarrow> sev \<noteq> kOff \<and> m \<le> sev"
  using should_iff [OF ok_set] get_set by simp

lemma off_silences: "ok s \<Longrightarrow> \<not> should sev (set_min kOff s)"
  by (cases sev) (auto simp: should_set less_eq_Severity_def)

lemma last_set_wins: "ok s \<Longrightarrow> get_min (set_min m (set_min m' s)) = m"
  by (simp add: get_set ok_set)

end

interpretation sink_gate: level_gate "\<lambda>_. True" ShouldLogImpl SetLevelImpl GetLevelImpl
  by unfold_locales (simp_all add: ShouldLogImpl_def SetLevelImpl_def GetLevelImpl_def)

text \<open>The process uses the console, or will on its next call.\<close>

definition console_ready :: "'w Proc \<Rightarrow> bool" where
  "console_ready p \<longleftrightarrow> g_binding p = Some console_binding \<or> (g_binding p = None \<and> \<not> g_explicitly_set p)"

lemma console_sel [simp]:
  "should_log console_binding = Some (\<lambda>sev w. ShouldLogImpl sev (con w))"
  "set_level console_binding = Some (\<lambda>sev w. w\<lparr>con := SetLevelImpl sev (con w)\<rparr>)"
  "get_level console_binding = Some (\<lambda>w. GetLevelImpl (con w))"
  "emit_event console_binding = (\<lambda>sid sev fmt args ctx ts w. w\<lparr>con := EmitEventImpl (env w) sid sev (Some fmt) args (con w)\<rparr>)"
  "emit_event_dyn console_binding = (\<lambda>sid sev msg ctx ts w. w\<lparr>con := EmitEventDynImpl (env w) sid sev (Some msg) (con w)\<rparr>)"
  "intern_source console_binding = (\<lambda>name w. let (i, c) = InternSourceImpl name (con w) in (i, w\<lparr>con := c\<rparr>))"
  "report_health console_binding = (\<lambda>sub st d ctx ts w. w\<lparr>con := ReportHealthImpl (env w) sub st d (con w)\<rparr>)"
  "get_counter console_binding = (\<lambda>name w. (console_slot, w))" "get_gauge console_binding = (\<lambda>name w. (console_slot, w))"
  "get_histogram console_binding = (\<lambda>name w. (console_slot, w))" "get_signal console_binding = (\<lambda>name sz al ty w. (console_slot, w))"
  "emit_signal console_binding = (\<lambda>slot bytes ts w. w)" "set_resource console_binding = (\<lambda>k v w. w)"
  by (simp_all add: console_binding_def console_impls fun_eq_iff)

lemma console_ready_active:
  assumes "console_ready p"
  obtains p1 where "ActiveBinding True p = (Some console_binding, p1)" "g_binding p1 = Some console_binding"
    "fst (GetLogLevel True p) = g_level (con (world p1))"
proof (cases rule: active_cases [of True p])
  case kept
  with assms that [of p] show thesis
    by (auto simp: console_ready_def GetLogLevel_def GetLevelImpl_def)
next
  case adopted
  with that show thesis by (simp add: GetLogLevel_def GetLevelImpl_def)
qed

interpretation process_gate: level_gate console_ready "\<lambda>sev p. fst (ShouldLog True sev p)" "SetLogLevel True" "\<lambda>p. fst (GetLogLevel True p)"
proof (unfold_locales, goal_cases)
  case (1 s m)
  then show ?case by (rule console_ready_active) (simp add: SetLogLevel_def console_ready_def)
next
  case (2 s m)
  then show ?case by (rule console_ready_active) (simp add: SetLogLevel_def GetLogLevel_def SetLevelImpl_def GetLevelImpl_def)
next
  case (3 s sev)
  then show ?case by (rule console_ready_active) (simp add: ShouldLog_def ShouldLogImpl_def)
qed

lemma level_kept [simp]:
  "g_level (EmitLine os sid sev msg st) = g_level st"
  "g_level (EmitEventImpl os sid sev fmt args st) = g_level st"
  "g_level (EmitEventDynImpl os sid sev msg' st) = g_level st"
  "g_level (ReportHealthImpl os sub hs d st) = g_level st"
  "g_level (snd (InternSourceImpl n st)) = g_level st"
  by (simp_all add: EmitLine_def EmitEventImpl_def EmitEventDynImpl_def ReportHealthImpl_def InternSourceImpl_def
      Let_def case_prod_unfold split: option.splits)

lemma console_call_level:
  assumes "g_binding p = Some console_binding" "\<not> is_install c" "\<not> is_set_level c"
  shows "g_binding (run_call l c p) = Some console_binding \<and> g_level (con (world (run_call l c p))) = g_level (con (world p))"
  using assms
  by (cases c) (simp_all add: GetEventSource_def ShouldLog_def EmitEvent_def EmitEventDyn_def SetResource_def
      GetLogLevel_def ReportHealth_def with_binding_def GetCounter_def GetGauge_def GetHistogram_def GetChannel_def
      Publish_def Let_def case_prod_unfold)

lemma console_calls_level:
  "g_binding p = Some console_binding \<Longrightarrow> \<forall>c \<in> set cs. \<not> is_install c \<and> \<not> is_set_level c \<Longrightarrow>
   g_binding (run_calls l cs p) = Some console_binding \<and> g_level (con (world (run_calls l cs p))) = g_level (con (world p))"
proof (induction cs arbitrary: p)
  case (Cons c cs)
  then show ?case using console_call_level [of p c l] by (simp add: run_calls_def)
qed (simp add: run_calls_def)


section \<open>Properties\<close>

text \<open>
  An explicitly installed binding is authoritative: an accepted installation, of a table
  or of null, is what every later lookup returns until the next installation, whatever calls are
  made in between (after an explicit null the console is never adopted); a table with another ABI
  version is refused and nothing changes.
\<close>

theorem explicit_binding_sticks:
  assumes "InstallBinding b p = (accepted, p1)" "\<forall>c \<in> set cs. \<not> is_install c"
  shows "(accepted \<longleftrightarrow> (\<forall>t. b = Some t \<longrightarrow> abi_version t = kBindingAbiVersion)) \<and>
    (accepted \<longrightarrow> ActiveBinding l (run_calls l cs p1) = (b, run_calls l cs p1)) \<and>
    (\<not> accepted \<longrightarrow> p1 = p)"
proof -
  have "accepted \<Longrightarrow> g_explicitly_set p1 \<and> g_binding p1 = b"
    using assms(1) by (auto simp: InstallBinding_def split: option.splits if_splits)
  then show ?thesis using assms(1) calls_keep_explicit [of p1 cs l] assms(2)
    by (auto simp: InstallBinding_def split: option.splits if_splits)
qed

definition demo_world :: "unit World" where
  "demo_world =
     \<lparr>env = \<lparr>xm_log_level = Some ''4'', stderr_tty = False, self_exe = None, wall_ns = 0, fprint = (\<lambda>_ _ _ _ _. [])\<rparr>,
      con = \<lparr>g_level = kInfo, sources = [], stderr_out = [], write_script = []\<rparr>,
      thread = \<lparr>current = zero_context, gen_state = None\<rparr>,
      counters = (\<lambda>_. CounterSlot_init), gauges = (\<lambda>_. GaugeSlot_init), histograms = (\<lambda>_. HistogramSlot_init),
      stack_junk = (\<lambda>_. CHR 0x00), sdk = ()\<rparr>"

definition fresh_process :: "unit Proc" where
  "fresh_process = \<lparr>g_binding = None, g_explicitly_set = False, materialized = False, world = demo_world\<rparr>"

theorem explicit_binding_sticks_witness:
  "ActiveBinding True (run_calls True [CEvent 0 0 [] kError ''x'' []] (snd (InstallBinding None fresh_process))) =
   (None, run_calls True [CEvent 0 0 [] kError ''x'' []] (snd (InstallBinding None fresh_process)))"
  using explicit_binding_sticks [of None fresh_process True "snd (InstallBinding None fresh_process)"
      "[CEvent 0 0 [] kError ''x'' []]" True]
  by (simp add: InstallBinding_def)

text \<open>
  Without any setup the console logs: a process that has installed nothing starts at the
  level of \<open>XM_LOG_LEVEL\<close> (else \<open>kInfo\<close>); a level set at run time is reported and obeyed, and stays
  in force through every later call that is neither an installation nor another \<open>SetLogLevel\<close> (the
  environment is not read again); \<open>kOff\<close> silences everything.
\<close>

theorem level_persists:
  assumes "g_binding p = None" "\<not> g_explicitly_set p" "\<not> materialized p"
    and "\<forall>c \<in> set cs. \<not> is_install c \<and> \<not> is_set_level c"
  shows "fst (GetLogLevel True p) = LevelFromEnv (xm_log_level (env (world p))) kInfo \<and>
    fst (GetLogLevel True (run_calls True cs (SetLogLevel True m p))) = m \<and>
    (fst (ShouldLog True sev (run_calls True cs (SetLogLevel True m p))) \<longleftrightarrow> sev \<noteq> kOff \<and> m \<le> sev) \<and>
    \<not> fst (ShouldLog True sev (SetLogLevel True kOff p))"
proof (intro conjI)
  have ready: "console_ready p" using assms(1,2) by (simp add: console_ready_def)
  show "fst (GetLogLevel True p) = LevelFromEnv (xm_log_level (env (world p))) kInfo"
    using assms(1-3) by (simp add: GetLogLevel_def ActiveBinding_def DefaultConsoleBinding_def Let_def GetLevelImpl_def SetLevelImpl_def)
  show "\<not> fst (ShouldLog True sev (SetLogLevel True kOff p))" by (rule process_gate.off_silences [OF ready])
  let ?q = "SetLogLevel True m p"
  have q: "g_binding ?q = Some console_binding" "g_level (con (world ?q)) = m"
    using ready by (rule console_ready_active; simp add: SetLogLevel_def SetLevelImpl_def)+
  have r: "g_binding (run_calls True cs ?q) = Some console_binding" "g_level (con (world (run_calls True cs ?q))) = m"
    using console_calls_level [OF q(1) assms(4), of True] q(2) by auto
  show get: "fst (GetLogLevel True (run_calls True cs ?q)) = m" using r by (simp add: GetLogLevel_def GetLevelImpl_def)
  show "fst (ShouldLog True sev (run_calls True cs ?q)) \<longleftrightarrow> sev \<noteq> kOff \<and> m \<le> sev"
    using process_gate.should_iff [of "run_calls True cs ?q" sev] r(1) get by (simp add: console_ready_def)
qed

theorem level_persists_witness:
  "fst (GetLogLevel True fresh_process) = kError \<and>
   fst (GetLogLevel True (run_calls True [CEvent 0 0 [] kError ''x'' [], CSource ''nav''] (SetLogLevel True kDebug fresh_process))) = kDebug"
proof -
  have "LevelFromEnv (Some ''4'') kInfo = kError" by code_simp
  then show ?thesis
    using level_persists [of fresh_process "[CEvent 0 0 [] kError ''x'' [], CSource ''nav'']" kDebug kInfo]
    by (simp add: fresh_process_def demo_world_def)
qed

text \<open>
  Gating a stream log before building its message is transparent: when building the
  message has no side effect, the macro does exactly what emitting the built string would do, with
  any binding or none; and a call site below the compile-time floor leaves the process untouched.
\<close>

theorem stream_gate_transparent:
  assumes "\<And>q. build q = (msg, q)"
  shows "XM_STREAM lvl l now sev build p = (if lvl \<le> sev_code sev then EmitEventDyn l now 0 [] sev msg p else p) \<and>
    XM_STREAM_SRC lvl l now src sev build p =
      (if lvl \<le> sev_code sev then EmitEventDyn l now (source_id src) (source_name src) sev msg p else p)"
proof -
  have "stream_body l now i n sev build p = EmitEventDyn l now i n sev msg p" for i n
  proof -
    obtain b p1 where a: "ActiveBinding l p = (b, p1)" by fastforce
    note again = active_idem [OF a]
    show ?thesis using a again assms
      by (cases b) (auto simp: stream_body_def ShouldLog_def EmitEventDyn_def Let_def split: option.splits)
  qed
  then show ?thesis by (simp add: XM_STREAM_def XM_STREAM_SRC_def)
qed

theorem stream_gate_transparent_witness:
  "XM_STREAM 0 True 0 kWarn (\<lambda>q. (''hot'', q)) fresh_process = EmitEventDyn True 0 0 [] kWarn ''hot'' fresh_process"
  using stream_gate_transparent [of "\<lambda>q. (''hot'', q)" "''hot''" 0 True 0 kWarn fresh_process] by simp

text \<open>
  The unbound state is the documented degraded mode: after an explicit null an event at
  \<open>kWarn\<close> or above appends exactly its \<open>[xmtelemetry:...]\<close> line to \<open>stderr\<close>, a lower one nothing;
  health is reported unless it is \<open>kOk\<close>; the level reads \<open>kWarn\<close> and cannot be set; sources get
  id 0, metric handles the shared no-op slot; resources and signals are dropped.
\<close>

theorem unbound_mode:
  assumes "g_binding p = None" "g_explicitly_set p"
  shows "EmitEvent l now sid sname sev fmt args p =
      (if kWarn \<le> sev then on_world (to_stderr (unbound_line sname sev
          (cstr (FormatInto (fprint (env (world p))) (stack_junk (world p)) 512 fmt (PackArgs args))))) p else p) \<and>
    (state = kOk \<longrightarrow> ReportHealth l now sub state d p = p) \<and>
    (state \<noteq> kOk \<longrightarrow> ReportHealth l now sub state d p = on_world (UnboundReportHealth sub state d) p) \<and>
    SetLogLevel l m p = p \<and> GetLogLevel l p = (kWarn, p) \<and>
    GetEventSource l sname p = (\<lparr>source_id = 0, source_name = sname\<rparr>, p) \<and>
    GetCounter l sname p = (noop_slot, p) \<and> SetResource l sname fmt p = p \<and> Publish l slot bytes now p = p"
  using assms
  by (auto simp: EmitEvent_def UnboundEmitEvent_def on_world_def ReportHealth_def SetLogLevel_def
      GetLogLevel_def GetEventSource_def GetCounter_def with_binding_def SetResource_def Publish_def Let_def)

theorem unbound_mode_witness:
  "SetLogLevel True kDebug (snd (InstallBinding None fresh_process)) = snd (InstallBinding None fresh_process)"
  using unbound_mode [of "snd (InstallBinding None fresh_process)" True 0 0 "[]" kInfo "[]" "[]" kOk None None kDebug 0 "[]"]
  by (simp add: InstallBinding_def)

end
