(* ===== verification/Binding_Conc.thy ===== *)
theory Binding_Conc
  imports Telemetry
begin

text \<open>
  \<open>InstallBinding\<close> and \<open>ActiveBinding\<close> of \<open>telemetry_unbound.cpp\<close> called by any number of threads,
  interleaved one access of \<open>g_binding\<close> and \<open>g_explicitly_set\<close> at a time under sequential
  consistency. Tables are values of any type; \<open>def\<close> is what \<open>DefaultConsoleBinding\<close> returns.
\<close>

section \<open>Threads\<close>

datatype 'b bpc =
    BIdle
  | BLoad | BFlag | BDefault | BCas | BReload | BDone "'b option"
  | IFlag "'b option" | IStore "'b option" | IDone

text \<open>Ghost: \<open>stores\<close> lists the explicit stores to \<open>g_binding\<close>, newest first.\<close>

record 'b bind_sys =
  gptr :: "'b option"
  gset :: bool
  bthreads :: "nat \<Rightarrow> 'b bpc"
  stores :: "'b option list"

definition set_pc :: "nat \<Rightarrow> 'b bpc \<Rightarrow> 'b bind_sys \<Rightarrow> 'b bind_sys" where
  "set_pc i pc s = s\<lparr>bthreads := (bthreads s)(i := pc)\<rparr>"

text \<open>\<open>ActiveBinding\<close>: load; if null, the flag; if unset, the default table, the exchange and the
  second load. \<open>InstallBinding\<close>: the flag, then the store; a table of another ABI version is refused before either, so such a
  call touches nothing shared and takes no step here (\<open>Telemetry.InstallBinding\<close> has that branch).\<close>

definition binding_step :: "'b option \<Rightarrow> nat \<Rightarrow> 'b bind_sys \<Rightarrow> 'b bind_sys" where
  "binding_step def i s =
     (case bthreads s i of
        BLoad \<Rightarrow> set_pc i (if gptr s = None then BFlag else BDone (gptr s)) s
      | BFlag \<Rightarrow> set_pc i (if gset s then BDone None else BDefault) s
      | BDefault \<Rightarrow> set_pc i (if def = None then BDone None else BCas) s
      | BCas \<Rightarrow> set_pc i BReload (s\<lparr>gptr := (if gptr s = None then def else gptr s)\<rparr>)
      | BReload \<Rightarrow> set_pc i (BDone (gptr s)) s
      | IFlag b \<Rightarrow> set_pc i (IStore b) (s\<lparr>gset := True\<rparr>)
      | IStore b \<Rightarrow> set_pc i IDone (s\<lparr>gptr := b, stores := b # stores s\<rparr>)
      | BIdle \<Rightarrow> s
      | BDone r \<Rightarrow> s
      | IDone \<Rightarrow> s)"

definition finished :: "'b bpc \<Rightarrow> bool" where
  "finished pc = (case pc of BIdle \<Rightarrow> True | BDone r \<Rightarrow> True | IDone \<Rightarrow> True | _ \<Rightarrow> False)"

definition begin_call :: "nat \<Rightarrow> 'b bpc \<Rightarrow> 'b bind_sys \<Rightarrow> 'b bind_sys" where
  "begin_call i pc s = (if finished (bthreads s i) then set_pc i pc s else s)"

inductive bind_step :: "'b option \<Rightarrow> 'b bind_sys \<Rightarrow> 'b bind_sys \<Rightarrow> bool" for def :: "'b option" where
  bs_active: "bind_step def s (begin_call i BLoad s)"
| bs_install: "bind_step def s (begin_call i (IFlag b) s)"
| bs_run: "bind_step def s (binding_step def i s)"

inductive_cases bind_stepE: "bind_step def s t"

definition bind_start :: "'b bind_sys" where
  "bind_start = \<lparr>gptr = None, gset = False, bthreads = (\<lambda>_. BIdle), stores = []\<rparr>"

section \<open>Invariants\<close>

lemma set_pc_sel [simp]:
  "gptr (set_pc i pc s) = gptr s" "gset (set_pc i pc s) = gset s" "stores (set_pc i pc s) = stores s"
  "bthreads (set_pc i pc s) j = (if j = i then pc else bthreads s j)"
  by (simp_all add: set_pc_def)

text \<open>The newest explicit store, if it was a table, is the active binding; the flag is set before any
  store; without one, only the default can be active.\<close>

fun matches :: "'b option \<Rightarrow> 'b option list \<Rightarrow> 'b option \<Rightarrow> bool" where
  "matches def (Some b # rest) g \<longleftrightarrow> g = Some b"
| "matches def _ g \<longleftrightarrow> g = None \<or> g = def"

definition bind_inv :: "'b option \<Rightarrow> 'b bind_sys \<Rightarrow> bool" where
  "bind_inv def s \<longleftrightarrow>
     matches def (stores s) (gptr s) \<and>
     (stores s \<noteq> [] \<longrightarrow> gset s) \<and>
     (\<forall>i b. bthreads s i = IStore b \<longrightarrow> gset s) \<and>
     (\<forall>i b. bthreads s i = BDone (Some b) \<longrightarrow> Some b = def \<or> Some b \<in> set (stores s))"

lemma gptr_origin: "bind_inv def s \<Longrightarrow> gptr s = Some b \<Longrightarrow> Some b = def \<or> Some b \<in> set (stores s)"
  by (cases "(def, stores s, gptr s)" rule: matches.cases) (auto simp: bind_inv_def)

lemma binding_step_inv:
  assumes "bind_inv def s" shows "bind_inv def (binding_step def i s)"
proof (cases "bthreads s i")
  case BLoad
  then show ?thesis using assms gptr_origin [OF assms] by (auto simp: binding_step_def bind_inv_def)
next
  case BReload
  then show ?thesis using assms gptr_origin [OF assms] by (auto simp: binding_step_def bind_inv_def)
next
  case BCas
  then show ?thesis using assms
    by (cases "(def, stores s, gptr s)" rule: matches.cases) (auto simp: binding_step_def bind_inv_def)
next
  case (IStore b)
  then show ?thesis using assms by (cases b) (auto simp: binding_step_def bind_inv_def)
qed (use assms in \<open>auto simp: binding_step_def bind_inv_def\<close>)

lemma begin_call_inv:
  "bind_inv def s \<Longrightarrow> pc = BLoad \<or> pc = IFlag b \<Longrightarrow> bind_inv def (begin_call i pc s)"
  by (auto simp: begin_call_def bind_inv_def)

interpretation binding: inductive_invariant "\<lambda>s. s = bind_start" "bind_step def" "\<lambda>_. True" "bind_inv def" for def
proof (unfold_locales, goal_cases)
  case (1 s)
  then show ?case by (simp add: bind_start_def bind_inv_def)
next
  case (3 s t)
  then show ?case by (elim bind_stepE) (auto simp: binding_step_inv intro: begin_call_inv)
qed simp

text \<open>After an explicit call with no adoption under way, the globals are what was stored last.\<close>

definition in_window :: "'b bpc \<Rightarrow> bool" where
  "in_window pc = (case pc of BDefault \<Rightarrow> True | BCas \<Rightarrow> True | _ \<Rightarrow> False)"

definition settled :: "'b bind_sys \<Rightarrow> bool" where
  "settled s \<longleftrightarrow> gset s \<and> stores s \<noteq> [] \<and> gptr s = hd (stores s) \<and> (\<forall>i. \<not> in_window (bthreads s i))"

lemma settled_step:
  assumes "settled s" shows "settled (binding_step def i s)"
proof -
  have "\<not> in_window (bthreads s i)" using assms by (simp add: settled_def)
  then show ?thesis using assms
    by (cases "bthreads s i") (auto simp: binding_step_def settled_def in_window_def)
qed

lemma settled_begin: "settled s \<Longrightarrow> pc = BLoad \<or> pc = IFlag b \<Longrightarrow> settled (begin_call i pc s)"
  by (auto simp: begin_call_def settled_def in_window_def)

interpretation settle: inductive_invariant settled "bind_step def" "\<lambda>_. True" settled for def
proof (unfold_locales, goal_cases)
  case (3 s t)
  then show ?case by (elim bind_stepE) (auto simp: settled_step intro: settled_begin)
qed simp_all

definition bind_sched :: "'b option \<Rightarrow> nat list \<Rightarrow> 'b bind_sys \<Rightarrow> 'b bind_sys" where
  "bind_sched def is s = fold (binding_step def) is s"

lemma bind_sched_reach:
  "reach init (bind_step def) s \<Longrightarrow> reach init (bind_step def) (bind_sched def is s)"
  unfolding bind_sched_def by (induction "is" arbitrary: s) (auto intro: reach_step bs_run)

lemma begin_active_reach: "reach init (bind_step def) s \<Longrightarrow> reach init (bind_step def) (begin_call i BLoad s)"
  using reach_step [of init "bind_step def" s] bs_active by blast

lemma begin_install_reach: "reach init (bind_step def) s \<Longrightarrow> reach init (bind_step def) (begin_call i (IFlag b) s)"
  using reach_step [of init "bind_step def" s] bs_install by blast

lemmas bind_reach = bind_sched_reach begin_active_reach begin_install_reach

text \<open>Thread 0 looks the binding up and passes the flag test; thread 1 unbinds explicitly and returns;
  thread 0 goes on.\<close>

definition unbind_race :: "nat list \<Rightarrow> nat bind_sys" where
  "unbind_race is = bind_sched (Some 7) is
     (bind_sched (Some 7) [0, 0, 1, 1] (begin_call 1 (IFlag None) (begin_call 0 BLoad bind_start)))"

lemma unbind_race_reach: "reach (\<lambda>s. s = bind_start) (bind_step (Some 7)) (unbind_race is)"
  unfolding unbind_race_def by (intro bind_reach reach_init) simp

section \<open>Properties\<close>

text \<open>
  Property C24. A concurrent explicit installation wins: in every reachable state, if the newest
  explicit store to \<open>g_binding\<close> was a table then that table is the active binding, whatever lazy
  adoptions race with it; and every table a lookup has returned was installed explicitly or is the
  default one.
\<close>

theorem explicit_install_wins:
  assumes "reach (\<lambda>s. s = bind_start) (bind_step def) s"
  shows "(\<forall>b rest. stores s = Some b # rest \<longrightarrow> gptr s = Some b) \<and>
    (\<forall>i b. bthreads s i = BDone (Some b) \<longrightarrow> Some b = def \<or> Some b \<in> set (stores s))"
  using binding.reach_inv [OF assms] by (auto simp: bind_inv_def)

theorem explicit_install_wins_witness:
  "gptr (bind_sched (Some 7) [0, 0, 0, 1, 1, 0, 0] (begin_call 1 (IFlag (Some 5)) (begin_call 0 BLoad bind_start))) = Some (5 :: nat)"
proof -
  let ?s = "bind_sched (Some 7) [0, 0, 0, 1, 1, 0, 0] (begin_call 1 (IFlag (Some 5)) (begin_call 0 BLoad bind_start))"
  have r: "reach (\<lambda>s. s = bind_start) (bind_step (Some 7)) ?s" by (intro bind_reach reach_init) simp
  have "stores ?s = [Some (5 :: nat)]" by code_simp
  then show ?thesis using explicit_install_wins [OF r] by blast
qed

text \<open>
  An explicit unbind is authoritative once no adoption is under way: from a state in which
  an explicit call has stored its table or null and no thread is between its flag test and its
  exchange, the active binding is at all times the newest explicit store, so the console is never
  adopted again.
\<close>

theorem settled_unbind_lasts:
  assumes "reach settled (bind_step def) s"
  shows "gptr s = hd (stores s) \<and> (\<forall>i. \<not> in_window (bthreads s i))"
  using settle.reach_inv [OF assms] by (simp add: settled_def)

theorem settled_unbind_lasts_witness:
  "gptr (bind_sched (Some 7) [0, 0, 0] (begin_call 0 BLoad
     \<lparr>gptr = None, gset = True, bthreads = (\<lambda>_. BIdle), stores = [None]\<rparr>)) = (None :: nat option)"
proof -
  let ?s = "\<lparr>gptr = None, gset = True, bthreads = (\<lambda>_. BIdle), stores = [None]\<rparr> :: nat bind_sys"
  have "settled ?s" by (simp add: settled_def in_window_def)
  then have "reach settled (bind_step (Some 7)) (bind_sched (Some 7) [0, 0, 0] (begin_call 0 BLoad ?s))"
    by (intro bind_reach reach_init)
  moreover have "stores (bind_sched (Some 7) [0, 0, 0] (begin_call 0 BLoad ?s)) = [None :: nat option]" by code_simp
  ultimately show ?thesis using settled_unbind_lasts by (metis list.sel(1))
qed

text \<open>
  Property C25. An explicit unbind that races with a first lookup can be undone: there is a run in which
  \<open>InstallBinding(nullptr)\<close> has returned, no other explicit call has been made, and a lookup that had
  already passed the flag test then installs the console binding, which every later lookup returns.
\<close>

theorem adoption_overrides_unbind:
  "\<exists>s t. reach (\<lambda>s. s = bind_start) (bind_step (Some 7)) s \<and> reach (\<lambda>u. u = s) (bind_step (Some 7)) t \<and>
     bthreads s 1 = IDone \<and> stores s = [None] \<and> gptr s = None \<and>
     stores t = [None] \<and> gptr t = Some (7 :: nat) \<and> bthreads t 2 = BDone (Some 7)"
proof (intro exI conjI)
  show "reach (\<lambda>s. s = bind_start) (bind_step (Some 7)) (unbind_race [])" by (rule unbind_race_reach)
  show "reach (\<lambda>u. u = unbind_race []) (bind_step (Some 7)) (bind_sched (Some 7) [2] (begin_call 2 BLoad (bind_sched (Some 7) [0, 0, 0] (unbind_race []))))"
    by (intro bind_reach reach_init) simp
qed (code_simp+)

text \<open>
  A lookup alone computes the sequential \<open>ActiveBinding\<close>.
\<close>

theorem solo_active_binding:
  assumes "bthreads s i = BLoad" "gptr s = g_binding p" "gset s = g_explicitly_set p"
    "def = fst (DefaultConsoleBinding l p)"
  shows "let t = bind_sched def [i, i, i, i, i] s; (b, p1) = ActiveBinding l p
    in bthreads t i = BDone b \<and> gptr t = g_binding p1 \<and> gset t = g_explicitly_set p1"
proof (cases rule: active_cases [of l p])
  case kept
  show ?thesis
  proof (cases "g_binding p")
    case None
    with kept have "gset s \<or> def = None" using assms(3,4) by (auto simp: DefaultConsoleBinding_def)
    then show ?thesis using None kept(1) assms(1-3)
      by (cases "gset s") (simp_all add: bind_sched_def binding_step_def)
  next
    case (Some b)
    then show ?thesis using kept(1) assms(1-3) by (simp add: bind_sched_def binding_step_def)
  qed
next
  case adopted
  then have "def = Some console_binding" "g_explicitly_set (snd (DefaultConsoleBinding l p)) = g_explicitly_set p"
    using assms(4) by (simp_all add: DefaultConsoleBinding_def Let_def)
  then show ?thesis using adopted assms(1-3) by (simp add: bind_sched_def binding_step_def)
qed

end
