(* ===== verification/Span_Process.thy ===== *)
theory Span_Process
  imports Telemetry
begin

text \<open>
  Spans in a process: the constructors and the destructor of \<open>Span\<close> (\<open>telemetry/span.hpp\<close>) on the
  calling thread of the process, with the lookup of the active binding and the call of its
  \<open>emit_span\<close>, the \<open>XM_SPAN\<close> macros with their compile-time floor, and blocks in which spans, guards
  and any telemetry calls are nested. Shown: what a recording binding receives is what the scopes of
  \<open>Trace_Context\<close> emit, whatever else the blocks do.
\<close>

section \<open>Spans on the process\<close>

definition on_thread :: "(Thread \<Rightarrow> 'a \<times> Thread) \<Rightarrow> 'w Proc \<Rightarrow> 'a \<times> 'w Proc" where
  "on_thread f p = (let (a, th) = f (World.thread (world p)) in (a, on_world (\<lambda>w. w\<lparr>World.thread := th\<rparr>) p))"

definition open_span :: "u32 \<times> u32 \<Rightarrow> string \<Rightarrow> int \<Rightarrow> Context option \<Rightarrow> 'w Proc \<Rightarrow> Span \<times> 'w Proc" where
  "open_span rd name t0 link =
     on_thread (case link of None \<Rightarrow> Span_ctor rd name t0 | Some l \<Rightarrow> Span_ctor_linked rd name l t0)"

definition close_span :: "bool \<Rightarrow> int \<Rightarrow> Span \<Rightarrow> 'w Proc \<Rightarrow> 'w Proc" where
  "close_span logging t1 sp p =
     (let ctx = CurrentContext (World.thread (world p));
          p1 = on_world (\<lambda>w. w\<lparr>World.thread := SetCurrentContext (sp_saved sp) (World.thread w)\<rparr>) p
      in case ActiveBinding logging p1 of
           (Some b, p2) \<Rightarrow> on_world (emit_span b \<lparr>rec_name = sp_name sp, rec_ctx = ctx, rec_parent = sp_parent sp,
             rec_begin = sp_begin sp, rec_end = t1, rec_links = sp_links sp\<rparr>) p2
         | (None, p2) \<Rightarrow> p2)"

text \<open>Blocks. \<open>PSpan\<close> is a span scope, through the macros when its first argument says so: those are
  nothing when the compile-time level is above 5.\<close>

datatype 'w block =
    PSpan bool string int int "Context option" "'w block list"
  | PGuard Context "'w block list"
  | PLink Context
  | PSet Context
  | PCall "'w call"

record 'w Run =
  scope_stack :: "Span list"
  proc :: "'w Proc"

fun run_block :: "nat \<Rightarrow> bool \<Rightarrow> u32 \<times> u32 \<Rightarrow> 'w block \<Rightarrow> 'w Run \<Rightarrow> 'w Run"
  and run_blocks :: "nat \<Rightarrow> bool \<Rightarrow> u32 \<times> u32 \<Rightarrow> 'w block list \<Rightarrow> 'w Run \<Rightarrow> 'w Run" where
  "run_block lvl l rd (PSpan macro name t0 t1 link body) s =
     (if macro \<and> 5 < lvl then run_blocks lvl l rd body s
      else let (sp, p) = open_span rd name t0 link (proc s);
               s1 = run_blocks lvl l rd body \<lparr>scope_stack = sp # scope_stack s, proc = p\<rparr>
           in \<lparr>scope_stack = tl (scope_stack s1), proc = close_span l t1 (hd (scope_stack s1)) (proc s1)\<rparr>)"
| "run_block lvl l rd (PGuard ctx body) s =
     (let (saved, p) = on_thread (ContextGuard_enter ctx) (proc s);
          s1 = run_blocks lvl l rd body (s\<lparr>proc := p\<rparr>)
      in s1\<lparr>proc := on_world (\<lambda>w. w\<lparr>World.thread := ContextGuard_exit saved (World.thread w)\<rparr>) (proc s1)\<rparr>)"
| "run_block lvl l rd (PLink ctx) s =
     s\<lparr>scope_stack := (case scope_stack s of [] \<Rightarrow> [] | sp # sps \<Rightarrow> AddLink ctx sp # sps)\<rparr>"
| "run_block lvl l rd (PSet ctx) s =
     s\<lparr>proc := on_world (\<lambda>w. w\<lparr>World.thread := SetCurrentContext ctx (World.thread w)\<rparr>) (proc s)\<rparr>"
| "run_block lvl l rd (PCall c) s = s\<lparr>proc := run_call l c (proc s)\<rparr>"
| "run_blocks lvl l rd [] s = s"
| "run_blocks lvl l rd (b # bs) s = run_blocks lvl l rd bs (run_block lvl l rd b s)"

text \<open>What is left of a block when everything but the spans, guards and contexts is erased.\<close>

fun scopes_of :: "nat \<Rightarrow> 'w block \<Rightarrow> scope list" where
  "scopes_of lvl (PSpan macro name t0 t1 link body) =
     (if macro \<and> 5 < lvl then concat (map (scopes_of lvl) body)
      else [InSpan name t0 t1 link (concat (map (scopes_of lvl) body))])"
| "scopes_of lvl (PGuard ctx body) = [InGuard ctx (concat (map (scopes_of lvl) body))]"
| "scopes_of lvl (PLink ctx) = [Link ctx]"
| "scopes_of lvl (PSet ctx) = [SetCtx ctx]"
| "scopes_of lvl (PCall c) = []"

fun no_install :: "'w block \<Rightarrow> bool" where
  "no_install (PSpan macro name t0 t1 link body) = (\<forall>b \<in> set body. no_install b)"
| "no_install (PGuard ctx body) = (\<forall>b \<in> set body. no_install b)"
| "no_install (PCall c) = (\<not> is_install c)"
| "no_install _ = True"

section \<open>Recording bindings\<close>

text \<open>Every operation of the table except \<open>emit_span\<close> leaves \<open>f\<close> of the world alone.\<close>

definition keeps :: "('w World \<Rightarrow> 'a) \<Rightarrow> 'w Binding \<Rightarrow> bool" where
  "keeps f b \<longleftrightarrow>
     (\<forall>n w. f (snd (get_counter b n w)) = f w) \<and> (\<forall>n w. f (snd (get_gauge b n w)) = f w) \<and>
     (\<forall>n w. f (snd (get_histogram b n w)) = f w) \<and> (\<forall>n sz al ty w. f (snd (get_signal b n sz al ty w)) = f w) \<and>
     (\<forall>n w. f (snd (intern_source b n w)) = f w) \<and>
     (\<forall>g m w. set_level b = Some g \<longrightarrow> f (g m w) = f w) \<and>
     (\<forall>i sev fmt pk ctx t w. f (emit_event b i sev fmt pk ctx t w) = f w) \<and>
     (\<forall>i sev msg ctx t w. f (emit_event_dyn b i sev msg ctx t w) = f w) \<and>
     (\<forall>slot bs t w. f (emit_signal b slot bs t w) = f w) \<and>
     (\<forall>sub st d ctx t w. f (report_health b sub st d ctx t w) = f w) \<and>
     (\<forall>k v w. f (set_resource b k v w) = f w)"

lemma keepsD:
  assumes "keeps f b"
  shows "f (snd (get_counter b n w)) = f w" "f (snd (get_gauge b n w)) = f w" "f (snd (get_histogram b n w)) = f w"
    "f (snd (get_signal b n sz al ty w)) = f w" "f (snd (intern_source b n w)) = f w"
    "set_level b = Some g \<Longrightarrow> f (g m w) = f w" "f (emit_event b i sev fmt pk ctx t w) = f w"
    "f (emit_event_dyn b i sev msg ctx t w) = f w" "f (emit_signal b slot bs t w) = f w"
    "f (report_health b sub st d ctx t w) = f w" "f (set_resource b k v w) = f w"
  using assms by (auto simp: keeps_def)

text \<open>A bound process keeps what its table keeps, through every call that is not an installation.\<close>

lemma call_keeps:
  assumes "g_binding p = Some b" "keeps f b" "\<not> is_install c"
  shows "f (world (run_call l c p)) = f (world p)" "g_binding (run_call l c p) = Some b"
  using assms(1,3) keepsD [OF assms(2)]
  by (cases c; auto simp: GetEventSource_def ShouldLog_def EmitEvent_def EmitEventDyn_def SetResource_def SetLogLevel_def
      GetLogLevel_def ReportHealth_def with_binding_def GetCounter_def GetGauge_def GetHistogram_def GetChannel_def
      Publish_def Let_def case_prod_unfold split: option.splits)+

lemma run_scopes_append: "run_scopes rd bound (ps @ qs) e = run_scopes rd bound qs (run_scopes rd bound ps e)"
  by (induction ps arbitrary: e) auto

text \<open>A table whose operations leave the calling thread alone; one that also appends entries to a log
  for every span, and for nothing else.\<close>

locale quiet_table =
  fixes b :: "'w Binding"
  assumes emit_thread: "World.thread (emit_span b r w) = World.thread w"
    and keep_thread: "keeps World.thread b"

locale span_recorder = quiet_table b for b :: "'w Binding" +
  fixes log :: "'w World \<Rightarrow> 'x list" and entries :: "SpanRecord \<Rightarrow> 'x list"
  assumes emit_log: "log (emit_span b r w) = log w @ entries r"
    and keep_log: "keeps log b"
    and log_thread: "log (w\<lparr>World.thread := th\<rparr>) = log w"
begin

text \<open>The simulation: the process and the thread of \<open>Trace_Context\<close> agree.\<close>

definition agree :: "'x list \<Rightarrow> 'w Run \<Rightarrow> Env \<Rightarrow> bool" where
  "agree old s e \<longleftrightarrow> g_binding (proc s) = Some b \<and> scope_stack s = open_spans e \<and>
     World.thread (world (proc s)) = Env.thread e \<and> log (world (proc s)) = old @ concat (map entries (emitted e))"

lemma agree_thread:
  "agree old s e \<Longrightarrow> agree old (s\<lparr>proc := on_world (\<lambda>w. w\<lparr>World.thread := f (World.thread w)\<rparr>) (proc s)\<rparr>) (e\<lparr>Env.thread := f (Env.thread e)\<rparr>)"
  by (simp add: agree_def log_thread)

lemma agree_open:
  assumes "agree old s e" "open_span rd name t0 link (proc s) = (sp, p)"
  shows "agree old \<lparr>scope_stack = sp # scope_stack s, proc = p\<rparr>
    (e\<lparr>Env.thread := snd (opened rd name t0 link (Env.thread e)), open_spans := fst (opened rd name t0 link (Env.thread e)) # open_spans e\<rparr>)"
  using assms by (auto simp: agree_def open_span_def opened_def on_thread_def log_thread Let_def case_prod_unfold split: option.splits)

lemma agree_close:
  assumes "agree old s e"
  shows "agree old \<lparr>scope_stack = tl (scope_stack s), proc = close_span l t1 (hd (scope_stack s)) (proc s)\<rparr>
    (e\<lparr>Env.thread := (Env.thread e)\<lparr>current := sp_saved (hd (open_spans e))\<rparr>, open_spans := tl (open_spans e),
       emitted := emitted e @ fst (Span_dtor True t1 (hd (open_spans e)) (Env.thread e))\<rparr>)"
  using assms
  by (simp add: agree_def close_span_def CurrentContext_def SetCurrentContext_def Span_dtor_def Let_def emit_log emit_thread log_thread)

lemma blocks_simulate:
  "no_install blk \<Longrightarrow> agree old s e \<Longrightarrow> agree old (run_block lvl l rd blk s) (run_scopes rd True (scopes_of lvl blk) e)"
  "\<forall>blk \<in> set bs. no_install blk \<Longrightarrow> agree old s e \<Longrightarrow>
     agree old (run_blocks lvl l rd bs s) (run_scopes rd True (concat (map (scopes_of lvl) bs)) e)"
proof (induction lvl l rd blk s and lvl l rd bs s arbitrary: e and e rule: run_block_run_blocks.induct)
  case (1 lvl l rd macro name t0 t1 link body s)
  obtain sp p where o': "open_span rd name t0 link (proc s) = (sp, p)" by fastforce
  show ?case
  proof (cases "macro \<and> 5 < lvl")
    case False
    have "agree old (run_blocks lvl l rd body \<lparr>scope_stack = sp # scope_stack s, proc = p\<rparr>)
        (run_scopes rd True (concat (map (scopes_of lvl) body))
          (e\<lparr>Env.thread := snd (opened rd name t0 link (Env.thread e)), open_spans := fst (opened rd name t0 link (Env.thread e)) # open_spans e\<rparr>))"
      using "1.IH"(2) [OF False o' [symmetric] refl] "1.prems" agree_open [OF _ o'] by simp
    from agree_close [OF this, of l t1] show ?thesis using False o' by (auto simp: run_InSpan Let_def simp del: run_scope.simps)
  qed (use 1 in auto)
next
  case (2 lvl l rd ctx body s)
  have saved: "World.thread (world (proc s)) = Env.thread e" using "2.prems"(2) by (simp add: agree_def)
  have "agree old (s\<lparr>proc := on_world (\<lambda>w. w\<lparr>World.thread := SetCurrentContext ctx (World.thread w)\<rparr>) (proc s)\<rparr>)
      (e\<lparr>Env.thread := SetCurrentContext ctx (Env.thread e)\<rparr>)" using "2.prems"(2) by (rule agree_thread)
  then have "agree old (run_blocks lvl l rd body (s\<lparr>proc := on_world (\<lambda>w. w\<lparr>World.thread := SetCurrentContext ctx (World.thread w)\<rparr>) (proc s)\<rparr>))
      (run_scopes rd True (concat (map (scopes_of lvl) body)) (e\<lparr>Env.thread := SetCurrentContext ctx (Env.thread e)\<rparr>))"
    using "2.IH" [OF _ refl] "2.prems"(1)
    by (simp add: on_thread_def ContextGuard_enter_def SetCurrentContext_def saved on_world_def)
  from agree_thread [OF this, of "ContextGuard_exit (current (Env.thread e))"]
  show ?case by (simp add: on_thread_def ContextGuard_enter_def SetCurrentContext_def saved on_world_def Let_def)
next
  case (3 lvl l rd ctx s)
  then show ?case by (simp add: agree_def)
next
  case (4 lvl l rd ctx s)
  then show ?case using agree_thread [of old s e "SetCurrentContext ctx"] by simp
next
  case (5 lvl l rd c s)
  then have b: "g_binding (proc s) = Some b" "\<not> is_install c" by (simp_all add: agree_def)
  show ?case using "5.prems"(2) call_keeps [OF b(1) keep_log b(2), of l] call_keeps(1) [OF b(1) keep_thread b(2), of l]
    by (simp add: agree_def)
next
  case (7 lvl l rd blk bs s)
  then show ?case by (simp add: run_scopes_append)
qed simp_all

lemma recorded:
  fixes p sps lvl l rd
  assumes "g_binding p = Some b" "\<forall>blk \<in> set bs. no_install blk"
  defines "s \<equiv> run_blocks lvl l rd bs \<lparr>scope_stack = sps, proc = p\<rparr>"
    and "e \<equiv> run_scopes rd True (concat (map (scopes_of lvl) bs)) \<lparr>Env.thread = World.thread (world p), open_spans = sps, emitted = []\<rparr>"
  shows "log (world (proc s)) = log (world p) @ concat (map entries (emitted e))" "scope_stack s = open_spans e"
    "World.thread (world (proc s)) = Env.thread e"
  using blocks_simulate(2) [OF assms(2), of "log (world p)" "\<lparr>scope_stack = sps, proc = p\<rparr>"
      "\<lparr>Env.thread = World.thread (world p), open_spans = sps, emitted = []\<rparr>" lvl l rd] assms(1)
  unfolding s_def e_def by (simp_all add: agree_def)

end

sublocale quiet_table \<subseteq> silent: span_recorder b "\<lambda>_. [] :: unit list" "\<lambda>_. []"
  by unfold_locales (simp_all add: keeps_def)

context quiet_table
begin

lemma context_restored:
  assumes "g_binding p = Some b" "\<forall>blk \<in> set bs. no_install blk" "\<forall>blk \<in> set bs. \<forall>ctx. SetCtx ctx \<notin> set (scopes_of lvl blk)"
  shows "current (World.thread (world (proc (run_blocks lvl l rd bs \<lparr>scope_stack = sps, proc = p\<rparr>)))) = current (World.thread (world p))"
proof -
  have "set (concat (map (scopes_of lvl) bs)) \<inter> range SetCtx = {}" using assms(3) by auto
  from scopes_restore [OF this] show ?thesis using silent.recorded(3) [OF assms(1,2), of lvl l rd sps] by simp
qed

end

lemma keeps_console_thread: "keeps World.thread console_binding"
  by (simp add: keeps_def Let_def case_prod_unfold)

interpretation console_table: quiet_table console_binding
  by unfold_locales (simp add: console_binding_def console_impls, rule keeps_console_thread)

section \<open>Properties\<close>

text \<open>
  Property C26. Spans through the whole front end. Let a process be bound to any table whose \<open>emit_span\<close> appends the span
  record to a log and whose other operations leave the log and the calling thread alone. Whatever spans (through the
  macros or not), guards, links, contexts and other telemetry calls a thread nests, as long as none of them installs a
  binding, the log grows by exactly the records that the scopes alone emit, whole and in order, and the thread and its
  open spans end as the scopes alone leave them. When no context is set by hand these records are the tree of the spans:
  each with its enclosing span as parent, its enclosing trace, a fresh identifier, its times and its first four valid
  links, after the spans of its body.
\<close>

theorem spans_delivered:
  fixes log :: "'w World \<Rightarrow> SpanRecord list"
  assumes "g_binding p = Some b" "\<forall>blk \<in> set bs. no_install blk"
    and "keeps World.thread b" "\<And>r w. World.thread (emit_span b r w) = World.thread w"
    and "keeps log b" "\<And>r w. log (emit_span b r w) = log w @ [r]" "\<And>w th. log (w\<lparr>World.thread := th\<rparr>) = log w"
    and "s = run_blocks lvl l rd bs \<lparr>scope_stack = sps, proc = p\<rparr>"
    and "ps = concat (map (scopes_of lvl) bs)" "th = World.thread (world p)"
    and "e = run_scopes rd True ps \<lparr>Env.thread = th, open_spans = sps, emitted = []\<rparr>"
  shows "log (world (proc s)) = log (world p) @ emitted e \<and> World.thread (world (proc s)) = Env.thread e \<and>
    scope_stack s = open_spans e \<and>
    ((\<forall>q \<in> set ps. no_set q) \<longrightarrow> emitted e = fst (span_trees (drawn_id (gen_seed rd th)) (current th) 0 ps))"
proof -
  have "span_recorder b log (\<lambda>r. [r])" by unfold_locales (use assms(3-7) in auto)
  note R = span_recorder.recorded [OF this assms(1,2), of lvl l rd sps, folded assms(8,9,10), folded assms(11)]
  have "emitted e = fst (span_trees (drawn_id (gen_seed rd th)) (current th) 0 ps)" if "\<forall>q \<in> set ps. no_set q"
    using scopes_tree(2) [OF that, of rd "\<lparr>Env.thread = th, open_spans = sps, emitted = []\<rparr>" "gen_seed rd th" 0]
    by (simp add: tree_run_def assms(11))
  with R show ?thesis by simp
qed

definition recording_binding :: "SpanRecord list Binding" where
  "recording_binding = console_binding\<lparr>emit_span := \<lambda>r w. w\<lparr>sdk := sdk w @ [r]\<rparr>\<rparr>"

definition recorded_blocks :: "SpanRecord list block list" where
  "recorded_blocks = [PSpan False ''plan'' 0 3000 None [PLink \<lparr>trace = \<lparr>hi = 5, lo = 6\<rparr>, span = 7\<rparr>,
     PCall (CEvent 0 1 [] kInfo ''x'' []), PSpan True ''generate'' 1 2 None [PCall (CCounter ''a'')]]]"

lemma keeps_recording: "keeps World.thread recording_binding" "keeps sdk recording_binding"
  by (simp_all add: keeps_def recording_binding_def Let_def case_prod_unfold)

definition recording_process :: "SpanRecord list Proc" where
  "recording_process =
     \<lparr>g_binding = Some recording_binding, g_explicitly_set = True, materialized = False,
      world = \<lparr>env = env demo_world, con = con demo_world, thread = \<lparr>current = zero_context, gen_state = None\<rparr>,
        counters = (\<lambda>_. CounterSlot_init), gauges = (\<lambda>_. GaugeSlot_init), histograms = (\<lambda>_. HistogramSlot_init),
        stack_junk = (\<lambda>_. CHR 0x00), sdk = []\<rparr>\<rparr>"

theorem spans_delivered_witness:
  "let rs = sdk (world (proc (run_blocks 0 True (1, 2) recorded_blocks \<lparr>scope_stack = [], proc = recording_process\<rparr>))) in
     map rec_name rs = [''generate'', ''plan''] \<and> rec_parent (rs ! 0) = Context.span (rec_ctx (rs ! 1)) \<and> rec_parent (rs ! 1) = 0 \<and>
     trace (rec_ctx (rs ! 0)) = trace (rec_ctx (rs ! 1)) \<and> map rec_links rs = [[], [\<lparr>trace = \<lparr>hi = 5, lo = 6\<rparr>, span = 7\<rparr>]]"
proof -
  have p: "g_binding recording_process = Some recording_binding" "World.thread (world recording_process) = \<lparr>current = zero_context, gen_state = None\<rparr>"
    "sdk (world recording_process) = []" by (simp_all add: recording_process_def)
  have b: "\<forall>blk \<in> set recorded_blocks. no_install blk" by (simp add: recorded_blocks_def)
  have ps: "concat (map (scopes_of 0) recorded_blocks) = [InSpan ''plan'' 0 3000 None [Link \<lparr>trace = \<lparr>hi = 5, lo = 6\<rparr>, span = 7\<rparr>,
      InSpan ''generate'' 1 2 None []]]" by (simp add: recorded_blocks_def)
  have e: "World.thread (emit_span recording_binding r w) = World.thread w" "sdk (emit_span recording_binding r w) = sdk w @ [r]" for r w
    by (simp_all add: recording_binding_def)
  let ?g = "drawn_id (gen_seed (1, 2) \<lparr>current = zero_context, gen_state = None\<rparr>)"
  from spans_delivered [OF p(1) b keeps_recording(1) e(1) keeps_recording(2) e(2) _ refl ps [symmetric] p(2) [symmetric] refl, of True "(1, 2)" "[]"]
  have "sdk (world (proc (run_blocks 0 True (1, 2) recorded_blocks \<lparr>scope_stack = [], proc = recording_process\<rparr>))) =
      fst (span_trees ?g zero_context 0 [InSpan ''plan'' 0 3000 None [Link \<lparr>trace = \<lparr>hi = 5, lo = 6\<rparr>, span = 7\<rparr>, InSpan ''generate'' 1 2 None []]])"
    by (simp add: p(3) del: run_scopes.simps span_trees.simps)
  moreover have "?g k \<noteq> 0" for k by (simp add: drawn_id_def Let_def)
  ultimately show ?thesis by (simp add: Let_def zero_context_def TraceId_valid_def Context_valid_def or_eq_0_iff)
qed

end
