(* ===== verification/Mini_Backend.thy ===== *)
theory Mini_Backend
  imports Span_Process
begin

text \<open>
  A table an application installs: \<open>MiniBackend\<close> of \<open>examples/custom_binding_example.cpp\<close>, the
  reference implementation of every entry of the binding table. Its name registries and the console's
  source registry meet one contract, the locale \<open>name_registry\<close>; it is a span recorder; its counters
  hold exactly what was added under their names.
\<close>

section \<open>Name registries\<close>

text \<open>A registry gives every name an identifier that is a function of the name's position; names are
  only ever appended, once each. \<open>fits\<close> bounds the number of names an identifier can tell apart.\<close>

locale name_registry =
  fixes intern :: "string \<Rightarrow> 's \<Rightarrow> 'i \<times> 's" and names :: "'s \<Rightarrow> string list"
    and ident :: "nat \<Rightarrow> 'i" and fits :: "nat \<Rightarrow> bool"
  assumes intern_names: "names (snd (intern n s)) = (if n \<in> set (names s) then names s else names s @ [n])"
    and intern_ident: "find_source n 0 (names (snd (intern n s))) = Some i \<Longrightarrow> fst (intern n s) = ident i"
    and ident_inj: "ident i = ident j \<Longrightarrow> fits i \<Longrightarrow> fits j \<Longrightarrow> i = j"
    and fits_mono: "fits j \<Longrightarrow> i \<le> j \<Longrightarrow> fits i"
begin

definition interns :: "string list \<Rightarrow> 's \<Rightarrow> 's" where
  "interns ns s = fold (\<lambda>n t. snd (intern n t)) ns s"

lemma interns_names: "\<exists>new. names (interns ns s) = names s @ new"
proof (induction ns arbitrary: s)
  case (Cons n ns)
  from Cons [of "snd (intern n s)"] intern_names [of n s] show ?case by (auto simp: interns_def)
qed (simp add: interns_def)

lemma interned: "\<exists>i. find_source n 0 (names (snd (intern n s))) = Some i \<and> fst (intern n s) = ident i"
proof -
  have "n \<in> set (names (snd (intern n s)))" using intern_names [of n s] by auto
  then obtain i where "find_source n 0 (names (snd (intern n s))) = Some i"
    by (metis find_source_None not_Some_eq)
  then show ?thesis using intern_ident by blast
qed

text \<open>An identifier is for ever: interning the name again, after any other names, gives it back.\<close>

lemma intern_again: "fst (intern n (interns ns (snd (intern n s)))) = fst (intern n s)"
proof -
  let ?t = "interns ns (snd (intern n s))"
  obtain i where i: "find_source n 0 (names (snd (intern n s))) = Some i" "fst (intern n s) = ident i"
    using interned by blast
  obtain new where new: "names ?t = names (snd (intern n s)) @ new" using interns_names by blast
  then have "find_source n 0 (names ?t) = Some i" using find_source_append [OF i(1)] by simp
  moreover have "names (snd (intern n ?t)) = names ?t" using intern_names [of n ?t] intern_names [of n s] new by auto
  ultimately show ?thesis using intern_ident [of n ?t i] i(2) by simp
qed

text \<open>Different names have different identifiers.\<close>

lemma intern_distinct:
  assumes "m \<noteq> n" "fits (length (names (interns ns (snd (intern n s)))))"
  shows "fst (intern m (interns ns (snd (intern n s)))) \<noteq> fst (intern n s)"
proof
  let ?t = "interns ns (snd (intern n s))"
  assume eq: "fst (intern m ?t) = fst (intern n s)"
  obtain i where i: "find_source n 0 (names (snd (intern n s))) = Some i" "fst (intern n s) = ident i"
    using interned by blast
  obtain j where j: "find_source m 0 (names (snd (intern m ?t))) = Some j" "fst (intern m ?t) = ident j"
    using interned by blast
  obtain new where new: "names ?t = names (snd (intern n s)) @ new" using interns_names by blast
  have n: "names ?t ! i = n" "i < length (names ?t)"
    using find_source_Some [OF i(1)] new by (auto simp: nth_append)
  have m: "names (snd (intern m ?t)) ! j = m" "j < length (names (snd (intern m ?t)))"
    using find_source_Some [OF j(1)] by auto
  have "j \<le> length (names ?t)" using m(2) intern_names [of m ?t] by (auto split: if_splits)
  then have "i = j" using eq i(2) j(2) n(2) assms(2) by (metis ident_inj fits_mono less_imp_le)
  then show False using n m assms(1) intern_names [of m ?t] by (auto simp: nth_append split: if_splits)
qed

end

lemma find_source_mem: "find_source n i ss = Some j \<Longrightarrow> n \<in> set ss"
  by (metis find_source_None option.distinct(1))

interpretation console_sources: name_registry InternSourceImpl sources "\<lambda>i. of_nat (i + 1)" "\<lambda>i. i < 2 ^ 32 - 1"
proof (unfold_locales, goal_cases)
  case (1 n s)
  show ?case by (auto simp: InternSourceImpl_def Let_def find_source_None find_source_mem split: option.splits)
next
  case (2 n s i)
  then show ?case using intern_finds [of n s "fst (InternSourceImpl n s)" "snd (InternSourceImpl n s)"] by simp
next
  case (3 i j)
  then have "unat (of_nat (i + 1) :: u32) = i + 1" "unat (of_nat (j + 1) :: u32) = j + 1"
    by (intro unat_of_nat_u32; linarith)+
  with 3(1) show ?case by (metis add_right_cancel)
qed simp

section \<open>The backend\<close>

text \<open>The names of the two deques, in order (slot \<open>k\<close> of a deque is at address \<open>2 + k\<close>, and the shared
  histogram and signal are at address 2), and what was printed, one string per \<open>printf\<close>.\<close>

record Mini =
  counter_names :: "string list"
  gauge_names :: "string list"
  printed :: "string list"

abbreviation mini_slot :: nat where "mini_slot \<equiv> 2"

text \<open>The search in a deque and the append.\<close>

definition Slot :: "string \<Rightarrow> string list \<Rightarrow> nat \<times> string list" where
  "Slot name store =
     (case find_source name 0 store of
        Some i \<Rightarrow> (mini_slot + i, store)
      | None \<Rightarrow> (mini_slot + length store, store @ [name]))"

definition mini_counter :: "string \<Rightarrow> Mini World \<Rightarrow> nat \<times> Mini World" where
  "mini_counter n w =
     (let (a, ns) = Slot n (counter_names (sdk w)) in
      (a, if ns = counter_names (sdk w) then w
          else w\<lparr>sdk := (sdk w)\<lparr>counter_names := ns\<rparr>, counters := (counters w)(a := CounterSlot_init)\<rparr>))"

definition mini_gauge :: "string \<Rightarrow> Mini World \<Rightarrow> nat \<times> Mini World" where
  "mini_gauge n w =
     (let (a, ns) = Slot n (gauge_names (sdk w)) in
      (a, if ns = gauge_names (sdk w) then w
          else w\<lparr>sdk := (sdk w)\<lparr>gauge_names := ns\<rparr>, gauges := (gauges w)(a := GaugeSlot_init)\<rparr>))"

definition print_line :: "string \<Rightarrow> Mini World \<Rightarrow> Mini World" where
  "print_line s w = w\<lparr>sdk := (sdk w)\<lparr>printed := printed (sdk w) @ [s]\<rparr>\<rparr>"

fun health_code :: "HealthState \<Rightarrow> nat" where
  "health_code kOk = 0"
| "health_code kDegraded = 1"
| "health_code kFault = 2"
| "health_code kDisconnected = 3"

text \<open>\<open>%s\<close> of a null pointer is the C library's \<open>(null)\<close>.\<close>

definition c_str :: "string option \<Rightarrow> string" where
  "c_str s = (case s of None \<Rightarrow> ''(null)'' | Some t \<Rightarrow> cstr t)"

text \<open>\<open>ms\<close> is the rendering of a duration in milliseconds (\<open>%6.2f\<close>).\<close>

definition span_line :: "(int \<Rightarrow> string) \<Rightarrow> SpanRecord \<Rightarrow> string" where
  "span_line ms r =
     ''[mini] span   '' @ pad_right 22 (cstr (rec_name r)) @ '' '' @ ms (rec_end r - rec_begin r) @ '' ms  links='' @
     digits 10 False (length (rec_links r)) @ ''  trace='' @
     pad_to 16 CHR ''0'' (digits 16 False (unat (hi (trace (rec_ctx r))))) @ [CHR 0xE2, CHR 0x80, CHR 0xA6, newline]"

definition MiniBackend_Make :: "(int \<Rightarrow> string) \<Rightarrow> Mini Binding" where
  "MiniBackend_Make ms =
     \<lparr>abi_version = kBindingAbiVersion,
      get_counter = mini_counter,
      get_gauge = mini_gauge,
      get_histogram = (\<lambda>n w. (mini_slot, w)),
      get_signal = (\<lambda>n sz al ty w. (mini_slot,
         print_line (''[mini] channel registered: '' @ cstr n @ '' ('' @ digits 10 False sz @ '' B/sample)'' @ [newline]) w)),
      intern_source = (\<lambda>n w. (1, w)),
      should_log = Some (\<lambda>sev w. True),
      set_level = Some (\<lambda>m w. w),
      get_level = Some (\<lambda>w. kTrace),
      emit_event = (\<lambda>src sev fmt args ctx t w.
         print_line (''[mini] event  sev='' @ digits 10 False (sev_code sev) @ '' src='' @ digits 10 False (unat src) @
           '' fmt='' @ [CHR 0x22] @ cstr fmt @ [CHR 0x22] @ '' ('' @ digits 10 False (unat (argc args)) @ '' args)'' @ [newline]) w),
      emit_event_dyn = (\<lambda>src sev msg ctx t w.
         print_line (''[mini] event* sev='' @ digits 10 False (sev_code sev) @ '' '' @ [CHR 0x22] @ cstr msg @ [CHR 0x22, newline]) w),
      emit_span = (\<lambda>r. print_line (span_line ms r)),
      emit_signal = (\<lambda>slot bs t. print_line (''[mini] signal '' @ digits 10 False (length bs) @ '' B'' @ [newline])),
      report_health = (\<lambda>sub st d ctx t.
         print_line (''[mini] health '' @ c_str sub @ '' -> '' @ digits 10 False (health_code st) @ '' ('' @ c_str d @ '')'' @ [newline])),
      set_resource = (\<lambda>k v. print_line (''[mini] resource '' @ cstr k @ ''='' @ cstr v @ [newline]))\<rparr>"

section \<open>Lemmas\<close>

lemma print_line_sel [simp]:
  "World.thread (print_line s w) = World.thread w" "counters (print_line s w) = counters w" "gauges (print_line s w) = gauges w"
  "counter_names (sdk (print_line s w)) = counter_names (sdk w)" "gauge_names (sdk (print_line s w)) = gauge_names (sdk w)"
  "printed (sdk (print_line s w)) = printed (sdk w) @ [s]"
  by (simp_all add: print_line_def)

lemma mini_slots_sel [simp]:
  "World.thread (snd (mini_counter n w)) = World.thread w" "printed (sdk (snd (mini_counter n w))) = printed (sdk w)"
  "World.thread (snd (mini_gauge n w)) = World.thread w" "printed (sdk (snd (mini_gauge n w))) = printed (sdk w)"
  "counters (snd (mini_gauge n w)) = counters w" "counter_names (sdk (snd (mini_gauge n w))) = counter_names (sdk w)"
  by (simp_all add: mini_counter_def mini_gauge_def Let_def case_prod_unfold)

lemma Slot_names: "snd (Slot n ns) = (if n \<in> set ns then ns else ns @ [n])"
  by (auto simp: Slot_def find_source_None find_source_mem split: option.splits)

lemma Slot_index: "find_source n 0 (snd (Slot n ns)) = Some i \<Longrightarrow> fst (Slot n ns) = mini_slot + i"
  using find_source_last [of n ns 0 "[]"] find_source_None [of n 0 ns]
  by (auto simp: Slot_def split: option.splits)

lemma mini_names [simp]:
  "counter_names (sdk (snd (mini_counter n w))) = snd (Slot n (counter_names (sdk w)))"
  "gauge_names (sdk (snd (mini_gauge n w))) = snd (Slot n (gauge_names (sdk w)))"
  "fst (mini_counter n w) = fst (Slot n (counter_names (sdk w)))" "fst (mini_gauge n w) = fst (Slot n (gauge_names (sdk w)))"
  by (simp_all add: mini_counter_def mini_gauge_def Let_def case_prod_unfold)

interpretation mini_counters: name_registry mini_counter "\<lambda>w. counter_names (sdk w)" "\<lambda>i. mini_slot + i" "\<lambda>i. True"
  by unfold_locales (simp_all add: Slot_names [symmetric] Slot_index)

interpretation mini_gauges: name_registry mini_gauge "\<lambda>w. gauge_names (sdk w)" "\<lambda>i. mini_slot + i" "\<lambda>i. True"
  by unfold_locales (simp_all add: Slot_names [symmetric] Slot_index)

text \<open>The lines that report spans.\<close>

definition is_span_line :: "string \<Rightarrow> bool" where
  "is_span_line s \<longleftrightarrow> take 11 s = ''[mini] span''"

definition span_lines :: "Mini World \<Rightarrow> string list" where
  "span_lines w = filter is_span_line (printed (sdk w))"

text \<open>The lines that report health.\<close>

definition health_lines :: "Mini World \<Rightarrow> string list" where
  "health_lines w = filter (\<lambda>s. take 13 s = ''[mini] health'') (printed (sdk w))"

interpretation mini_spans: span_recorder "MiniBackend_Make ms" span_lines "\<lambda>r. [span_line ms r]" for ms
  by unfold_locales (simp_all add: MiniBackend_Make_def keeps_def span_lines_def is_span_line_def span_line_def)

text \<open>Named adds: the handle is looked up by name and added to, between any other calls.\<close>

datatype metric_op = MAdd string double | MCall "Mini call"

fun metric_step :: "fadder \<Rightarrow> bool \<Rightarrow> metric_op \<Rightarrow> Mini Proc \<Rightarrow> Mini Proc" where
  "metric_step fadd l (MAdd n v) p = (let (c, p1) = GetCounter l n p in Counter_Add fadd c v p1)"
| "metric_step fadd l (MCall c) p = run_call l c p"

fun added_to :: "string \<Rightarrow> metric_op list \<Rightarrow> double list" where
  "added_to n [] = []"
| "added_to n (MAdd m v # ops) = (if m = n then v # added_to n ops else added_to n ops)"
| "added_to n (MCall c # ops) = added_to n ops"

text \<open>Every registered counter holds the sum, in order, of what \<open>done\<close> has added under its name.\<close>

definition counters_hold :: "(int \<Rightarrow> string) \<Rightarrow> (string \<Rightarrow> double) \<Rightarrow> Mini Proc \<Rightarrow> bool" where
  "counters_hold ms val p \<longleftrightarrow> g_binding p = Some (MiniBackend_Make ms) \<and> distinct (counter_names (sdk (world p))) \<and>
     (\<forall>i < length (counter_names (sdk (world p))).
        cvalue (counters (world p) (mini_slot + i)) = val (counter_names (sdk (world p)) ! i)) \<and>
     (\<forall>n. n \<notin> set (counter_names (sdk (world p))) \<longrightarrow> val n = Fin 0)"

lemma mini_counter_cases:
  "find_source n 0 (counter_names (sdk w)) = Some i \<Longrightarrow> mini_counter n w = (mini_slot + i, w)"
  "n \<notin> set (counter_names (sdk w)) \<Longrightarrow> mini_counter n w = (mini_slot + length (counter_names (sdk w)),
     w\<lparr>sdk := (sdk w)\<lparr>counter_names := counter_names (sdk w) @ [n]\<rparr>,
       counters := (counters w)(mini_slot + length (counter_names (sdk w)) := CounterSlot_init)\<rparr>)"
  using find_source_None [of n 0 "counter_names (sdk w)"] by (auto simp: mini_counter_def Slot_def)

lemma counter_registered:
  assumes "counters_hold ms val p" "GetCounter l n p = (c, p1)"
  shows "counters_hold ms val p1" "n \<in> set (counter_names (sdk (world p1)))"
    "\<exists>i < length (counter_names (sdk (world p1))). c = mini_slot + i \<and> counter_names (sdk (world p1)) ! i = n"
proof -
  let ?ns = "counter_names (sdk (world p))"
  have c: "c = fst (Slot n ?ns)" and p1: "p1 = p\<lparr>world := snd (mini_counter n (world p))\<rparr>"
    using assms by (auto simp: counters_hold_def GetCounter_def with_binding_def MiniBackend_Make_def case_prod_unfold Let_def)
  show "n \<in> set (counter_names (sdk (world p1)))" by (simp add: p1 Slot_names)
  show "counters_hold ms val p1"
  proof (cases "find_source n 0 ?ns")
    case None
    then have "n \<notin> set ?ns" by (simp add: find_source_None)
    with assms(1) show ?thesis
      by (auto simp: p1 counters_hold_def mini_counter_cases(2) nth_append CounterSlot_init_def less_Suc_eq)
  next
    case (Some i)
    then show ?thesis using assms(1) by (simp add: p1 mini_counter_cases(1))
  qed
  obtain i where i: "find_source n 0 (snd (Slot n ?ns)) = Some i" using mini_counters.interned [of n "world p"] by auto
  show "\<exists>i < length (counter_names (sdk (world p1))). c = mini_slot + i \<and> counter_names (sdk (world p1)) ! i = n"
    using find_source_Some [OF i] Slot_index [OF i] c by (auto simp: p1)
qed

lemma counter_added:
  assumes "counters_hold ms val p"
  shows "counters_hold ms (val(n := fadd (val n) v)) (metric_step fadd l (MAdd n v) p)"
proof -
  obtain c p1 where g: "GetCounter l n p = (c, p1)" by fastforce
  note r = counter_registered [OF assms g]
  from r(1,3) show ?thesis
    by (auto simp: g counters_hold_def Counter_Add_def CounterSlot_Add_def nth_eq_iff_index_eq)
qed

lemma call_keeps_counters:
  assumes "counters_hold ms val p" "\<not> is_install c"
  shows "counters_hold ms val (run_call l c p)"
proof (cases c)
  case (CCounter n)
  then show ?thesis using counter_registered(1) [OF assms(1)] by (metis prod.collapse run_call.simps(10))
qed (use assms in \<open>auto simp: counters_hold_def MiniBackend_Make_def GetEventSource_def ShouldLog_def EmitEvent_def
    EmitEventDyn_def SetResource_def SetLogLevel_def GetLogLevel_def ReportHealth_def with_binding_def GetGauge_def
    GetHistogram_def GetChannel_def Publish_def Let_def case_prod_unfold\<close>)

lemma metric_steps_hold:
  assumes "counters_hold ms val p" "\<forall>c. MCall c \<in> set ops \<longrightarrow> \<not> is_install c"
  shows "counters_hold ms (\<lambda>n. foldl fadd (val n) (added_to n ops)) (fold (metric_step fadd l) ops p)"
  using assms
proof (induction ops arbitrary: val p)
  case (Cons op ops)
  show ?case
  proof (cases op)
    case (MAdd n v)
    have "(\<lambda>m. foldl fadd ((val(n := fadd (val n) v)) m) (added_to m ops)) = (\<lambda>m. foldl fadd (val m) (added_to m (op # ops)))"
      by (auto simp: MAdd)
    then show ?thesis using Cons.IH [OF counter_added [OF Cons.prems(1)], of n fadd v l] Cons.prems(2) MAdd by (simp del: metric_step.simps)
  next
    case (MCall c)
    then show ?thesis using Cons.IH [OF call_keeps_counters [OF Cons.prems(1)], of c l] Cons.prems(2) by simp
  qed
qed simp

section \<open>Properties\<close>

text \<open>
  Counters through the whole front end: with the example backend installed, whatever events, spans,
  registrations and lookups come in between, a counter read by its name holds exactly the sum, in
  program order and with the machine's addition, of what was added under that name, and 0 when nothing was.
\<close>

theorem mini_counters_exact:
  assumes "g_binding p = Some (MiniBackend_Make ms)" "counter_names (sdk (world p)) = []"
    and "\<forall>c. MCall c \<in> set ops \<longrightarrow> \<not> is_install c"
    and "GetCounter l n (fold (metric_step fadd l) ops p) = (c, p')"
  shows "cvalue (counters (world p') c) = foldl fadd (Fin 0) (added_to n ops)"
proof -
  have "counters_hold ms (\<lambda>_. Fin 0) p" using assms(1,2) by (simp add: counters_hold_def)
  from counter_registered [OF metric_steps_hold [OF this assms(3)] assms(4)]
  show ?thesis by (auto simp: counters_hold_def)
qed

definition mini_process :: "Mini Proc" where
  "mini_process =
     \<lparr>g_binding = Some (MiniBackend_Make (\<lambda>ns. digits 10 False (nat ns))), g_explicitly_set = True, materialized = False,
      world = \<lparr>env = env demo_world, con = con demo_world, thread = World.thread demo_world,
        counters = (\<lambda>_. CounterSlot_init), gauges = (\<lambda>_. GaugeSlot_init), histograms = (\<lambda>_. HistogramSlot_init),
        stack_junk = (\<lambda>_. CHR 0x00), sdk = \<lparr>counter_names = [], gauge_names = [], printed = []\<rparr>\<rparr>\<rparr>"

definition mini_ops :: "metric_op list" where
  "mini_ops = [MAdd ''a'' (Fin 2), MAdd ''b'' (Fin 9), MCall (CEvent 0 1 [] kInfo ''x'' []), MAdd ''a'' (Fin 3)]"

theorem mini_counters_exact_witness:
  "\<exists>c p'. GetCounter True ''a'' (fold (metric_step exact_add True) mini_ops mini_process) = (c, p') \<and>
     cvalue (counters (world p') c) = Fin 5"
proof -
  obtain c p' where g: "GetCounter True ''a'' (fold (metric_step exact_add True) mini_ops mini_process) = (c, p')" by fastforce
  have "cvalue (counters (world p') c) = foldl exact_add (Fin 0) (added_to ''a'' mini_ops)"
    by (rule mini_counters_exact [OF _ _ _ g]) (auto simp: mini_process_def mini_ops_def)
  also have "\<dots> = Fin 5" by code_simp
  finally show ?thesis using g by blast
qed

text \<open>
  Spans on the example backend: with it installed, blocks in which spans, guards,
  links and any other telemetry calls are nested print, in order, exactly one span line for every span
  record that the scopes alone emit on that thread, and leave the thread as the scopes alone leave it;
  spans through the macros vanish when compiled out.
\<close>

theorem mini_span_lines:
  assumes "g_binding p = Some (MiniBackend_Make ms)" "\<forall>blk \<in> set bs. no_install blk"
    and "s = run_blocks lvl l rd bs \<lparr>scope_stack = sps, proc = p\<rparr>"
    and "e = run_scopes rd True (concat (map (scopes_of lvl) bs))
      \<lparr>Env.thread = World.thread (world p), open_spans = sps, emitted = []\<rparr>"
  shows "span_lines (world (proc s)) = span_lines (world p) @ map (span_line ms) (emitted e) \<and>
    World.thread (world (proc s)) = Env.thread e \<and> scope_stack s = open_spans e"
  using mini_spans.recorded [OF assms(1,2), of lvl l rd sps] by (simp add: assms(3,4))

definition mini_blocks :: "Mini block list" where
  "mini_blocks = [PSpan False ''plan'' 0 3000 None [PLink \<lparr>trace = \<lparr>hi = 5, lo = 6\<rparr>, span = 7\<rparr>,
     PCall (CEvent 0 1 [] kInfo ''x'' []), PSpan True ''generate'' 1 2 None [PCall (CCounter ''a'')]]]"

theorem mini_span_lines_witness:
  "length (span_lines (world (proc (run_blocks 6 True (1, 2) mini_blocks \<lparr>scope_stack = [], proc = mini_process\<rparr>)))) = 1 \<and>
   length (span_lines (world (proc (run_blocks 0 True (1, 2) mini_blocks \<lparr>scope_stack = [], proc = mini_process\<rparr>)))) = 2"
proof -
  have p: "g_binding mini_process = Some (MiniBackend_Make (\<lambda>ns. digits 10 False (nat ns)))" "span_lines (world mini_process) = []"
    "World.thread (world mini_process) = \<lparr>current = zero_context, gen_state = None\<rparr>"
    by (simp_all add: mini_process_def span_lines_def demo_world_def)
  have b: "\<forall>blk \<in> set mini_blocks. no_install blk" by (simp add: mini_blocks_def)
  have "length (emitted (run_scopes (1, 2) True (concat (map (scopes_of 6) mini_blocks))
      \<lparr>Env.thread = \<lparr>current = zero_context, gen_state = None\<rparr>, open_spans = [], emitted = []\<rparr>)) = 1" by code_simp
  moreover have "length (emitted (run_scopes (1, 2) True (concat (map (scopes_of 0) mini_blocks))
      \<lparr>Env.thread = \<lparr>current = zero_context, gen_state = None\<rparr>, open_spans = [], emitted = []\<rparr>)) = 2" by code_simp
  ultimately show ?thesis
    using mini_span_lines [OF p(1) b refl refl, of 6 True "(1, 2)" "[]"] mini_span_lines [OF p(1) b refl refl, of 0 True "(1, 2)" "[]"] p
    by simp
qed

text \<open>The console drops spans but the contexts nest all the same.\<close>

theorem console_blocks_restore_context:
  assumes "g_binding p = Some console_binding" "\<forall>blk \<in> set bs. no_install blk"
    and "\<forall>blk \<in> set bs. \<forall>ctx. SetCtx ctx \<notin> set (scopes_of lvl blk)"
  shows "current (World.thread (world (proc (run_blocks lvl l rd bs \<lparr>scope_stack = sps, proc = p\<rparr>)))) = current (World.thread (world p))"
  by (rule console_table.context_restored [OF assms])

end
