(* ===== verification/Mini_Main.thy ===== *)
theory Mini_Main
  imports Mini_Backend
begin

text \<open>
  The program of \<open>examples/custom_binding_example.cpp\<close>: \<open>main\<close> installs the backend, uses every verb once and unbinds. Its
  standard output is what the backend prints, call by call. The clock readings are \<open>clk 0\<close>, \<open>clk 1\<close>, \dots in the order of the calls, the
  bytes of a sample (with its padding) and the C library's renderings are arguments.
\<close>

section \<open>The program\<close>

text \<open>\<open>sizeof(TrajPoint)\<close>: a 32-bit index, padding, three doubles.\<close>

definition TrajPoint_size :: nat where
  "TrajPoint_size = 32"

definition publish_points :: "bool \<Rightarrow> fadder \<Rightarrow> (nat \<Rightarrow> u8 list) \<Rightarrow> (nat \<Rightarrow> int) \<Rightarrow> nat \<Rightarrow> nat \<Rightarrow> Mini Proc \<Rightarrow> Mini Proc" where
  "publish_points l fadd point clk traj cycles p =
     fold (\<lambda>i p. Counter_Add fadd cycles (Fin 1) (Publish l traj (point i) (clk (2 + i)) p)) [0..<3] p"

text \<open>The inner block, with its span opened by the macro, and the outer one.\<close>

definition generate_body :: "nat \<Rightarrow> bool \<Rightarrow> fadder \<Rightarrow> (nat \<Rightarrow> u8 list) \<Rightarrow> (nat \<Rightarrow> int) \<Rightarrow> nat \<Rightarrow> nat \<Rightarrow> Mini Proc \<Rightarrow> Mini Proc" where
  "generate_body lvl l fadd point clk traj cycles p0 =
     (let p1 = publish_points l fadd point clk traj cycles p0;
          p2 = XM_LOG lvl l (clk 5) kInfo ''trajectory ready: {} points'' [AInt 3] p1
      in XM_STREAM lvl l (clk 6) kWarn (\<lambda>p. (''streamed '' @ digits 10 False 42, p)) p2)"

definition generate_block :: "nat \<Rightarrow> bool \<Rightarrow> u32 \<times> u32 \<Rightarrow> fadder \<Rightarrow> (nat \<Rightarrow> u8 list) \<Rightarrow> (nat \<Rightarrow> int) \<Rightarrow> nat \<Rightarrow> nat \<Rightarrow> Mini Proc \<Rightarrow> Mini Proc" where
  "generate_block lvl l rd fadd point clk traj cycles p0 =
     (if 5 < lvl then generate_body lvl l fadd point clk traj cycles p0
      else let (gen, p1) = open_span rd ''demo.plan.generate'' (clk 1) None p0
           in close_span l (clk 7) gen (generate_body lvl l fadd point clk traj cycles p1))"

definition plan_block :: "nat \<Rightarrow> bool \<Rightarrow> u32 \<times> u32 \<Rightarrow> fadder \<Rightarrow> (nat \<Rightarrow> u8 list) \<Rightarrow> (nat \<Rightarrow> int) \<Rightarrow> nat \<Rightarrow> nat \<Rightarrow> Context \<Rightarrow> Mini Proc \<Rightarrow> Mini Proc" where
  "plan_block lvl l rd fadd point clk traj cycles upstream p0 =
     (let (ctx, p1) = on_thread (NewTrace rd) p0;
          (saved, p2) = on_thread (ContextGuard_enter ctx) p1;
          (plan0, p3) = open_span rd ''demo.plan.iteration'' (clk 0) None p2;
          plan = AddLink upstream plan0;
          p4 = generate_block lvl l rd fadd point clk traj cycles p3;
          p5 = close_span l (clk 8) plan p4
      in on_world (\<lambda>w. w\<lparr>World.thread := ContextGuard_exit saved (World.thread w)\<rparr>) p5)"

text \<open>The counters at exit; \<open>g\<close> renders a value with \<open>%.0f\<close>.\<close>

definition print_counters :: "(double \<Rightarrow> string) \<Rightarrow> Mini World \<Rightarrow> Mini World" where
  "print_counters g w =
     fold (\<lambda>(i, n). print_line (''[mini] metric '' @ cstr n @ '' = '' @ g (cvalue (counters w (mini_slot + i))) @ [newline]))
       (List.enumerate 0 (counter_names (sdk w))) w"

definition mini_main :: "nat \<Rightarrow> bool \<Rightarrow> (int \<Rightarrow> string) \<Rightarrow> (double \<Rightarrow> string) \<Rightarrow> u32 \<times> u32 \<Rightarrow> fadder \<Rightarrow> (nat \<Rightarrow> u8 list) \<Rightarrow> string \<Rightarrow> (nat \<Rightarrow> int) \<Rightarrow>
    Mini Proc \<Rightarrow> int \<times> Mini Proc" where
  "mini_main lvl l ms g rd fadd point tyname clk p =
     (let (installed, p0) = InstallBinding (Some (MiniBackend_Make ms)) p in
      if \<not> installed then (1, on_world (to_stderr (''ABI mismatch'' @ [newline])) p0)
      else
        let p1 = SetResource l ''robot.id'' ''demo-bot'' p0;
            (cycles, p2) = GetCounter l ''demo.cycles'' p1;
            (traj, p3) = GetChannel l ''demo.plan.traj_point'' TrajPoint_size 8 tyname p2;
            (upstream, p4) = on_thread (NewTrace rd) p3;
            p5 = plan_block lvl l rd fadd point clk traj cycles upstream p4;
            p6 = ReportHealth l (clk 9) (Some ''demo.planner'') kOk (Some ''nominal'') p5;
            p7 = on_world (print_counters g) p6;
            (_, p8) = InstallBinding None p7
        in (0, p8))"

section \<open>The calls on the backend\<close>

text \<open>What the calls of the program do to a process bound to the backend.\<close>

lemma mini_calls:
  assumes "g_binding p = Some (MiniBackend_Make ms)"
  shows "SetResource l k v p = on_world (print_line (''[mini] resource '' @ cstr k @ ''='' @ cstr v @ [newline])) p"
    "Publish l slot bs t p = on_world (print_line (''[mini] signal '' @ digits 10 False (length bs) @ '' B'' @ [newline])) p"
    "ReportHealth l t sub st d p = on_world (print_line (''[mini] health '' @ c_str sub @ '' -> '' @ digits 10 False (health_code st) @
       '' ('' @ c_str d @ '')'' @ [newline])) p"
    "GetCounter l n p = (fst (mini_counter n (world p)), on_world (\<lambda>w. snd (mini_counter n w)) p)"
    "GetChannel l n sz al ty p = (mini_slot,
       on_world (print_line (''[mini] channel registered: '' @ cstr n @ '' ('' @ digits 10 False sz @ '' B/sample)'' @ [newline])) p)"
    "EmitEvent l t sid sn sev fmt args p = on_world (print_line (''[mini] event  sev='' @ digits 10 False (sev_code sev) @ '' src='' @
       digits 10 False (unat sid) @ '' fmt='' @ [CHR 0x22] @ cstr fmt @ [CHR 0x22] @ '' ('' @ digits 10 False (unat (argc (PackArgs args))) @
       '' args)'' @ [newline])) p"
    "stream_body l t sid sn sev (\<lambda>p. (msg, p)) p = on_world (print_line (''[mini] event* sev='' @ digits 10 False (sev_code sev) @ '' '' @
       [CHR 0x22] @ cstr msg @ [CHR 0x22, newline])) p"
    "close_span l t sp p = on_world (\<lambda>w. print_line (span_line ms \<lparr>rec_name = sp_name sp, rec_ctx = CurrentContext (World.thread w),
       rec_parent = sp_parent sp, rec_begin = sp_begin sp, rec_end = t, rec_links = sp_links sp\<rparr>)
       (w\<lparr>World.thread := SetCurrentContext (sp_saved sp) (World.thread w)\<rparr>)) p"
  using assms
  by (simp_all add: SetResource_def Publish_def ReportHealth_def GetCounter_def GetChannel_def with_binding_def MiniBackend_Make_def
      EmitEvent_def EmitEventDyn_def stream_body_def ShouldLog_def close_span_def on_world_def case_prod_unfold Let_def)

text \<open>The inner block, then the outer one: what they print and the context they leave.\<close>

definition generated :: "string list" where
  "generated =
     [''[mini] signal 32 B'' @ [newline], ''[mini] signal 32 B'' @ [newline], ''[mini] signal 32 B'' @ [newline],
      ''[mini] event  sev=2 src=0 fmt='' @ [CHR 0x22] @ ''trajectory ready: {} points'' @ [CHR 0x22] @ '' (1 args)'' @ [newline],
      ''[mini] event* sev=3 '' @ [CHR 0x22] @ ''streamed 42'' @ [CHR 0x22, newline]]"

lemma mini_digits:
  "digits 10 False 0 = ''0''" "digits 10 False (Suc 0) = ''1''" "digits 10 False 2 = ''2''" "digits 10 False 3 = ''3''"
  "digits 10 False 32 = ''32''" "digits 10 False 42 = ''42''"
  by code_simp+

lemma mini_texts:
  "cstr ''trajectory ready: {} points'' = ''trajectory ready: {} points''" "cstr ''streamed 42'' = ''streamed 42''"
  "argc (PackArgs [AInt 3]) = 1"
  "cstr ''robot.id'' = ''robot.id''" "cstr ''demo-bot'' = ''demo-bot''" "cstr ''demo.plan.traj_point'' = ''demo.plan.traj_point''"
  "cstr ''demo.planner'' = ''demo.planner''" "cstr ''nominal'' = ''nominal''" "cstr ''demo.cycles'' = ''demo.cycles''"
  by code_simp+

lemma generate_body_mini:
  fixes p point
  assumes "g_binding p = Some (MiniBackend_Make ms)" "lvl \<le> 2" "\<forall>i<3. length (point i) = TrajPoint_size"
    and "p' = generate_body lvl l fadd point clk traj cycles p"
  shows "g_binding p' = g_binding p" "World.thread (world p') = World.thread (world p)"
    "printed (sdk (world p')) = printed (sdk (world p)) @ generated"
    "counter_names (sdk (world p')) = counter_names (sdk (world p))"
    "cvalue (counters (world p') cycles) = fadd (fadd (fadd (cvalue (counters (world p) cycles)) (Fin 1)) (Fin 1)) (Fin 1)"
  using assms(1-3)
  by (simp_all add: assms(4) generate_body_def publish_points_def mini_calls Counter_Add_def XM_LOG_def XM_STREAM_def
      generated_def TrajPoint_size_def upt_rec Let_def CounterSlot_Add_def
      mini_digits mini_texts)

lemma open_span_valid:
  assumes "Context_valid (current (World.thread (world p)))" "open_span rd nm t None p = (sp, p')"
  shows "\<exists>th. p' = on_world (\<lambda>w. w\<lparr>World.thread := th\<rparr>) p \<and> trace (current th) = trace (current (World.thread (world p))) \<and>
    sp = \<lparr>sp_name = nm, sp_begin = t, sp_saved = current (World.thread (world p)), sp_parent = Context.span (current (World.thread (world p))), sp_links = []\<rparr>"
  using assms Span_Begin_valid [OF assms(1), of rd]
  by (auto simp: open_span_def on_thread_def Span_ctor_def split_beta Let_def)

lemma generate_block_mini:
  fixes p point
  assumes "g_binding p = Some (MiniBackend_Make ms)" "lvl \<le> 2" "\<forall>i<3. length (point i) = TrajPoint_size"
    and "Context_valid (current (World.thread (world p)))"
    and "p' = generate_block lvl l rd fadd point clk traj cycles p"
  shows "g_binding p' = g_binding p \<and> current (World.thread (world p')) = current (World.thread (world p)) \<and>
    counter_names (sdk (world p')) = counter_names (sdk (world p)) \<and>
    cvalue (counters (world p') cycles) = fadd (fadd (fadd (cvalue (counters (world p) cycles)) (Fin 1)) (Fin 1)) (Fin 1) \<and>
    (\<exists>r. printed (sdk (world p')) = printed (sdk (world p)) @ generated @ [span_line ms r] \<and>
      rec_name r = ''demo.plan.generate'' \<and> rec_links r = [] \<and> rec_begin r = clk 1 \<and> rec_end r = clk 7 \<and>
      trace (rec_ctx r) = trace (current (World.thread (world p))) \<and> rec_parent r = Context.span (current (World.thread (world p))))"
proof -
  obtain sp p1 where o: "open_span rd ''demo.plan.generate'' (clk 1) None p = (sp, p1)" by fastforce
  from open_span_valid [OF assms(4) o] obtain th where th: "p1 = on_world (\<lambda>w. w\<lparr>World.thread := th\<rparr>) p"
    "trace (current th) = trace (current (World.thread (world p)))"
    "sp = \<lparr>sp_name = ''demo.plan.generate'', sp_begin = clk 1, sp_saved = current (World.thread (world p)),
       sp_parent = Context.span (current (World.thread (world p))), sp_links = []\<rparr>" by blast
  define p2 where "p2 = generate_body lvl l fadd point clk traj cycles p1"
  have b: "g_binding p1 = Some (MiniBackend_Make ms)" using th(1) assms(1) by simp
  note g = generate_body_mini [OF b assms(2,3) p2_def]
  have "p' = close_span l (clk 7) sp p2" using assms(2,5) o by (simp add: generate_block_def p2_def)
  also have "\<dots> = on_world (\<lambda>w. print_line (span_line ms \<lparr>rec_name = sp_name sp, rec_ctx = CurrentContext (World.thread w),
       rec_parent = sp_parent sp, rec_begin = sp_begin sp, rec_end = clk 7, rec_links = sp_links sp\<rparr>)
       (w\<lparr>World.thread := SetCurrentContext (sp_saved sp) (World.thread w)\<rparr>)) p2"
    by (rule mini_calls(8)) (use g(1) b in simp)
  finally show ?thesis using g th
    by (auto simp: SetCurrentContext_def CurrentContext_def)
qed

text \<open>The records of the two spans: one trace, the inner one under the outer one, which links the upstream context.\<close>

definition plan_spans :: "(nat \<Rightarrow> int) \<Rightarrow> Context \<Rightarrow> SpanRecord \<Rightarrow> SpanRecord \<Rightarrow> bool" where
  "plan_spans clk upstream gen plan \<longleftrightarrow>
     rec_name gen = ''demo.plan.generate'' \<and> rec_links gen = [] \<and> rec_begin gen = clk 1 \<and> rec_end gen = clk 7 \<and>
     rec_name plan = ''demo.plan.iteration'' \<and> rec_links plan = [upstream] \<and> rec_begin plan = clk 0 \<and> rec_end plan = clk 8 \<and>
     Context_valid upstream \<and> trace (rec_ctx gen) = trace (rec_ctx plan) \<and> rec_parent gen = Context.span (rec_ctx plan)"

lemma plan_block_mini:
  fixes p point
  assumes "g_binding p = Some (MiniBackend_Make ms)" "lvl \<le> 2" "\<forall>i<3. length (point i) = TrajPoint_size"
    and "Context_valid upstream" "p' = plan_block lvl l rd fadd point clk traj cycles upstream p"
  shows "g_binding p' = g_binding p \<and> current (World.thread (world p')) = current (World.thread (world p)) \<and>
    counter_names (sdk (world p')) = counter_names (sdk (world p)) \<and>
    cvalue (counters (world p') cycles) = fadd (fadd (fadd (cvalue (counters (world p) cycles)) (Fin 1)) (Fin 1)) (Fin 1) \<and>
    (\<exists>gen plan. printed (sdk (world p')) = printed (sdk (world p)) @ generated @ [span_line ms gen, span_line ms plan] \<and>
      plan_spans clk upstream gen plan)"
proof -
  obtain ctx p1 where n: "on_thread (NewTrace rd) p = (ctx, p1)" by fastforce
  have v: "Context_valid ctx" and p1: "p1 = on_world (\<lambda>w. w\<lparr>World.thread := snd (NewTrace rd (World.thread w))\<rparr>) p"
    using n NewTrace_valid [of rd "World.thread (world p)"] by (auto simp: on_thread_def split_beta on_world_def)
  define p2 where "p2 = on_world (\<lambda>w. w\<lparr>World.thread := (World.thread w)\<lparr>current := ctx\<rparr>\<rparr>) p1"
  have e: "on_thread (ContextGuard_enter ctx) p1 = (current (World.thread (world p1)), p2)"
    by (simp add: on_thread_def ContextGuard_enter_def p2_def on_world_def)
  have v2: "Context_valid (current (World.thread (world p2)))" using v by (simp add: p2_def)
  obtain sp p3 where o: "open_span rd ''demo.plan.iteration'' (clk 0) None p2 = (sp, p3)" by fastforce
  from open_span_valid [OF v2 o] obtain th where th: "p3 = on_world (\<lambda>w. w\<lparr>World.thread := th\<rparr>) p2"
    "trace (current th) = trace (current (World.thread (world p2)))"
    "sp_name sp = ''demo.plan.iteration'' \<and> sp_begin sp = clk 0 \<and> sp_saved sp = ctx \<and> sp_links sp = []"
    by (auto simp: p2_def)
  define p4 where "p4 = generate_block lvl l rd fadd point clk traj cycles p3"
  have b: "g_binding p3 = Some (MiniBackend_Make ms)" using th(1) assms(1) by (simp add: p2_def p1)
  have v3: "Context_valid (current (World.thread (world p3)))" using th(1,2) v2 by (simp add: Context_valid_def)
  note g = generate_block_mini [OF b assms(2,3) v3 p4_def]
  have c: "close_span l (clk 8) (AddLink upstream sp) p4 = on_world (\<lambda>w. print_line (span_line ms \<lparr>rec_name = sp_name (AddLink upstream sp),
       rec_ctx = CurrentContext (World.thread w), rec_parent = sp_parent (AddLink upstream sp), rec_begin = sp_begin (AddLink upstream sp),
       rec_end = clk 8, rec_links = sp_links (AddLink upstream sp)\<rparr>)
       (w\<lparr>World.thread := SetCurrentContext (sp_saved (AddLink upstream sp)) (World.thread w)\<rparr>)) p4"
    by (rule mini_calls(8)) (use g b in simp)
  have "p' = on_world (\<lambda>w. w\<lparr>World.thread := ContextGuard_exit (current (World.thread (world p1))) (World.thread w)\<rparr>)
      (close_span l (clk 8) (AddLink upstream sp) p4)"
    using assms(5) n e o by (simp add: plan_block_def p4_def)
  then show ?thesis unfolding c using g th assms(4)
    by (auto simp: ContextGuard_exit_def CurrentContext_def AddLink_def kMaxSpanLinks_def p1 p2_def NewTrace_current plan_spans_def)
      (rule exI, rule conjI, rule refl, rule exI, rule conjI, rule refl, simp)
qed

text \<open>The program up to and after its blocks.\<close>

lemma mini_main_run:
  assumes "counter_names (sdk (world p)) = []" "mini_main lvl l ms g rd fadd point tyname clk p = (rc, p')"
  obtains p4 upstream p5 where "g_binding p4 = Some (MiniBackend_Make ms)" "Context_valid upstream"
    "p5 = plan_block lvl l rd fadd point clk mini_slot mini_slot upstream p4"
    "counter_names (sdk (world p4)) = [''demo.cycles'']" "cvalue (counters (world p4) mini_slot) = Fin 0"
    "current (World.thread (world p4)) = current (World.thread (world p))"
    "printed (sdk (world p4)) = printed (sdk (world p)) @ [''[mini] resource robot.id=demo-bot'' @ [newline],
      ''[mini] channel registered: demo.plan.traj_point (32 B/sample)'' @ [newline]]"
    "g_binding p5 = Some (MiniBackend_Make ms) \<longrightarrow> rc = 0 \<and> p' = snd (InstallBinding None (on_world (print_counters g)
      (on_world (print_line (''[mini] health demo.planner -> 0 (nominal)'' @ [newline])) p5)))"
proof
  define p0 where "p0 = p\<lparr>g_explicitly_set := True, g_binding := Some (MiniBackend_Make ms)\<rparr>"
  define p1 where "p1 = on_world (print_line (''[mini] resource robot.id=demo-bot'' @ [newline])) p0"
  define p2 where "p2 = on_world (\<lambda>w. snd (mini_counter ''demo.cycles'' w)) p1"
  define p3 where "p3 = on_world (print_line (''[mini] channel registered: demo.plan.traj_point (32 B/sample)'' @ [newline])) p2"
  define p4 where "p4 = on_world (\<lambda>w. w\<lparr>World.thread := snd (NewTrace rd (World.thread w))\<rparr>) p3"
  define upstream where "upstream = fst (NewTrace rd (World.thread (world p3)))"
  note ps = p0_def p1_def p2_def p3_def p4_def
  show "g_binding p4 = Some (MiniBackend_Make ms)" by (simp add: ps)
  show "Context_valid upstream" by (simp add: upstream_def NewTrace_valid)
  show "counter_names (sdk (world p4)) = [''demo.cycles'']" "cvalue (counters (world p4) mini_slot) = Fin 0"
    using assms(1) by (simp_all add: ps Slot_def mini_counter_def CounterSlot_init_def)
  show "current (World.thread (world p4)) = current (World.thread (world p))"
    "printed (sdk (world p4)) = printed (sdk (world p)) @ [''[mini] resource robot.id=demo-bot'' @ [newline],
      ''[mini] channel registered: demo.plan.traj_point (32 B/sample)'' @ [newline]]"
    by (simp_all add: ps NewTrace_current)
  have "InstallBinding (Some (MiniBackend_Make ms)) p = (True, p0)"
    by (simp add: InstallBinding_def MiniBackend_Make_def p0_def)
  moreover have "SetResource l ''robot.id'' ''demo-bot'' p0 = p1" by (simp add: mini_calls(1) p0_def p1_def mini_texts)
  moreover have "GetCounter l ''demo.cycles'' p1 = (mini_slot, p2)"
    using assms(1) by (simp add: mini_calls(4) ps Slot_def)
  moreover have "GetChannel l ''demo.plan.traj_point'' TrajPoint_size 8 tyname p2 = (mini_slot, p3)"
    by (simp add: mini_calls(5) [of _ ms] ps mini_texts mini_digits TrajPoint_size_def)
  moreover have "on_thread (NewTrace rd) p3 = (upstream, p4)"
    by (simp add: on_thread_def upstream_def p4_def on_world_def split_beta)
  ultimately show "g_binding (plan_block lvl l rd fadd point clk mini_slot mini_slot upstream p4) = Some (MiniBackend_Make ms) \<longrightarrow> rc = 0 \<and> p' = snd (InstallBinding None (on_world (print_counters g) (on_world (print_line (''[mini] health demo.planner -> 0 (nominal)'' @ [newline]))
      (plan_block lvl l rd fadd point clk mini_slot mini_slot upstream p4))))"
    using assms(2) by (auto simp: mini_main_def InstallBinding_def mini_calls(3) [of _ ms] mini_texts mini_digits c_str_def)
qed simp

section \<open>Properties\<close>

text \<open>
  The example program, end to end: started in a process with any binding, it exits with 0 and leaves the process
  explicitly unbound and its thread's context as it was; in between its backend printed, in the order of the calls,
  the resource, the channel, three samples, the event and the streamed event, the inner span (no link, on the trace and
  under the span of the outer one), the outer span (linked to the upstream context), the health report and the
  counter, which holds three additions of 1.
\<close>

theorem mini_main_output:
  assumes "counter_names (sdk (world p)) = []" "lvl \<le> 2" "\<forall>i<3. length (point i) = TrajPoint_size"
    and "mini_main lvl l ms g rd fadd point tyname clk p = (rc, p')"
  shows "rc = 0 \<and> g_binding p' = None \<and> g_explicitly_set p' \<and>
    current (World.thread (world p')) = current (World.thread (world p)) \<and>
    (\<exists>gen plan upstream. printed (sdk (world p')) = printed (sdk (world p)) @
        [''[mini] resource robot.id=demo-bot'' @ [newline],
         ''[mini] channel registered: demo.plan.traj_point (32 B/sample)'' @ [newline]] @ generated @
        [span_line ms gen, span_line ms plan, ''[mini] health demo.planner -> 0 (nominal)'' @ [newline],
         ''[mini] metric demo.cycles = '' @ g (fadd (fadd (fadd (Fin 0) (Fin 1)) (Fin 1)) (Fin 1)) @ [newline]] \<and>
      plan_spans clk upstream gen plan)"
proof -
  obtain p4 upstream p5 where b: "g_binding p4 = Some (MiniBackend_Make ms)" and up: "Context_valid upstream"
    and p5: "p5 = plan_block lvl l rd fadd point clk mini_slot mini_slot upstream p4"
    and names: "counter_names (sdk (world p4)) = [''demo.cycles'']" "cvalue (counters (world p4) mini_slot) = Fin 0"
    and th: "current (World.thread (world p4)) = current (World.thread (world p))"
    and out: "printed (sdk (world p4)) = printed (sdk (world p)) @ [''[mini] resource robot.id=demo-bot'' @ [newline],
      ''[mini] channel registered: demo.plan.traj_point (32 B/sample)'' @ [newline]]"
    and m: "g_binding p5 = Some (MiniBackend_Make ms) \<longrightarrow> rc = 0 \<and> p' = snd (InstallBinding None (on_world (print_counters g)
      (on_world (print_line (''[mini] health demo.planner -> 0 (nominal)'' @ [newline])) p5)))"
    by (rule mini_main_run [OF assms(1,4)]) blast
  note pl = plan_block_mini [OF b assms(2,3) up p5]
  have p': "rc = 0" "g_binding p' = None" "g_explicitly_set p'" "World.thread (world p') = World.thread (world p5)"
    "printed (sdk (world p')) = printed (sdk (world p5)) @ [''[mini] health demo.planner -> 0 (nominal)'' @ [newline],
      ''[mini] metric demo.cycles = '' @ g (cvalue (counters (world p5) mini_slot)) @ [newline]]"
    using m conjunct1 [OF pl] conjunct1 [OF conjunct2 [OF conjunct2 [OF pl]]] names(1) b
    by (simp_all add: InstallBinding_def print_counters_def mini_texts numeral_2_eq_2)
  from pl obtain gen plan where
    "printed (sdk (world p5)) = printed (sdk (world p4)) @ generated @ [span_line ms gen, span_line ms plan]"
    "plan_spans clk upstream gen plan" by blast
  then show ?thesis using p' th out names(2) pl by (intro conjI exI [of _ gen] exI [of _ plan] exI [of _ upstream]) simp_all
qed

theorem mini_main_output_witness:
  "fst (mini_main 0 True (\<lambda>ns. digits 10 False (nat ns)) (\<lambda>v. ''3'') (1, 2) exact_add (\<lambda>i. replicate 32 0) ''TrajPoint'' int mini_process) = 0 \<and>
   length (printed (sdk (world (snd (mini_main 0 True (\<lambda>ns. digits 10 False (nat ns)) (\<lambda>v. ''3'') (1, 2) exact_add
     (\<lambda>i. replicate 32 0) ''TrajPoint'' int mini_process))))) = 11"
proof -
  obtain rc p' where m: "mini_main 0 True (\<lambda>ns. digits 10 False (nat ns)) (\<lambda>v. ''3'') (1, 2) exact_add
    (\<lambda>i. replicate 32 0) ''TrajPoint'' int mini_process = (rc, p')" by fastforce
  have p: "counter_names (sdk (world mini_process)) = []" "printed (sdk (world mini_process)) = []"
    by (simp_all add: mini_process_def)
  from mini_main_output [OF p(1) _ _ m] show ?thesis by (auto simp: m p(2) generated_def TrajPoint_size_def)
qed

end
