(* ===== verification/Bench_Harness.thy ===== *)
theory Bench_Harness
  imports Console_Binding Metrics
begin

text \<open>
  The measurement tier of \<open>testing/\<close>: the allocation probe (\<open>alloc_probe.hpp\<close>), the tail
  statistics, the batched measurement loops, the hardware context and the JSON report writer
  (\<open>bench_harness.hpp\<close>). Samples are finite doubles, given as rationals, and \<open>rnd\<close> is the machine's
  rounding; the clock and the probed thread's counters are part of the state.
\<close>

section \<open>Allocation probe\<close>

record AllocState =
  g_alloc_counting :: bool
  g_alloc_count :: u64

definition AllocProbe_ctor :: "AllocState \<Rightarrow> AllocState" where
  "AllocProbe_ctor st = st\<lparr>g_alloc_count := 0, g_alloc_counting := True\<rparr>"

definition AllocProbe_dtor :: "AllocState \<Rightarrow> AllocState" where
  "AllocProbe_dtor st = st\<lparr>g_alloc_counting := False\<rparr>"

definition allocations_of :: "AllocState \<Rightarrow> u64" where
  "allocations_of st = g_alloc_count st"

definition count_one :: "AllocState \<Rightarrow> AllocState" where
  "count_one st = (if g_alloc_counting st then st\<lparr>g_alloc_count := g_alloc_count st + 1\<rparr> else st)"

datatype alloc_error = BadAlloc

text \<open>\<open>m\<close> is what \<open>malloc\<close> answers for the requested size (at least 1).\<close>

definition CountingAlloc :: "(nat \<Rightarrow> 'a option) \<Rightarrow> nat \<Rightarrow> AllocState \<Rightarrow> (alloc_error + 'a) \<times> AllocState" where
  "CountingAlloc m sz st =
     (let st1 = count_one st in
      case m (if sz \<noteq> 0 then sz else 1) of Some q \<Rightarrow> (Inr q, st1) | None \<Rightarrow> (Inl BadAlloc, st1))"

definition CountingAllocNoThrow :: "(nat \<Rightarrow> 'a option) \<Rightarrow> nat \<Rightarrow> AllocState \<Rightarrow> 'a option \<times> AllocState" where
  "CountingAllocNoThrow m sz st = (let st1 = count_one st in (m (if sz \<noteq> 0 then sz else 1), st1))"

section \<open>Statistics\<close>

text \<open>The statistics are finite: they come from finite durations.\<close>

record Stats =
  p50 :: rat
  p99 :: rat
  p999 :: rat
  smax :: rat
  smean :: rat
  samples :: nat

definition Stats_zero :: Stats where
  "Stats_zero = \<lparr>p50 = 0, p99 = 0, p999 = 0, smax = 0, smean = 0, samples = 0\<rparr>"

definition rank_of :: "(rat \<Rightarrow> rat) \<Rightarrow> rat \<Rightarrow> nat \<Rightarrow> nat" where
  "rank_of rnd q n = nat \<lceil>rnd (q * of_nat n)\<rceil>"

definition PercentileSorted :: "(rat \<Rightarrow> rat) \<Rightarrow> rat list \<Rightarrow> rat \<Rightarrow> rat" where
  "PercentileSorted rnd xs q =
     (if xs = [] then 0
      else let rank = rank_of rnd q (length xs);
               index = (if rank = 0 then 0 else rank - 1)
           in xs ! min index (length xs - 1))"

definition ComputeStats :: "(rat \<Rightarrow> rat) \<Rightarrow> rat list \<Rightarrow> Stats" where
  "ComputeStats rnd xs =
     (if xs = [] then Stats_zero\<lparr>samples := 0\<rparr>
      else let s = sort xs; sum = foldl (\<lambda>acc v. rnd (acc + v)) 0 s
           in \<lparr>p50 = PercentileSorted rnd s (rnd (50 / 100)),
               p99 = PercentileSorted rnd s (rnd (99 / 100)),
               p999 = PercentileSorted rnd s (rnd (999 / 1000)),
               smax = last s,
               smean = rnd (sum / of_nat (length s)),
               samples = length xs\<rparr>)"

section \<open>Measurement loops\<close>

record 's Bench =
  alloc :: AllocState
  clk :: int
  user :: 's

text \<open>One pass of the timed loop per sample: nanoseconds per operation.\<close>

definition per_op :: "(rat \<Rightarrow> rat) \<Rightarrow> int \<Rightarrow> nat \<Rightarrow> rat" where
  "per_op rnd d batch = rnd (rnd (of_int d) / of_nat batch)"

fun sample_loop :: "(rat \<Rightarrow> rat) \<Rightarrow> ('s Bench \<Rightarrow> 's Bench) \<Rightarrow> nat \<Rightarrow> nat \<Rightarrow> 's Bench \<Rightarrow> rat list \<times> 's Bench" where
  "sample_loop rnd op batch 0 st = ([], st)"
| "sample_loop rnd op batch (Suc n) st =
     (let st1 = (op ^^ batch) st;
          (rest, st2) = sample_loop rnd op batch n st1
      in (per_op rnd (clk st1 - clk st) batch # rest, st2))"

text \<open>\<open>None\<close>: outside the contract (no operation per sample, a negative count, or \<open>batch * 4\<close>
  overflowing \<open>int\<close>).\<close>

definition MeasureBatched :: "(rat \<Rightarrow> rat) \<Rightarrow> ('s Bench \<Rightarrow> 's Bench) \<Rightarrow> int \<Rightarrow> int \<Rightarrow> 's Bench \<Rightarrow> (Stats \<times> u64 \<times> 's Bench) option" where
  "MeasureBatched rnd op batch n st =
     (if batch \<le> 0 \<or> 2 ^ 31 \<le> batch * 4 \<or> n < 0 then None
      else let st1 = (op ^^ nat (batch * 4)) st;
               st2 = st1\<lparr>alloc := AllocProbe_ctor (alloc st1)\<rparr>;
               (per_op_ns, st3) = sample_loop rnd op (nat batch) (nat n) st2;
               allocations = allocations_of (alloc st3);
               st4 = st3\<lparr>alloc := AllocProbe_dtor (alloc st3)\<rparr>
           in Some (ComputeStats rnd per_op_ns, allocations, st4))"

fun setup_loop :: "(rat \<Rightarrow> rat) \<Rightarrow> ('s Bench \<Rightarrow> 's Bench) \<Rightarrow> ('s Bench \<Rightarrow> 's Bench) \<Rightarrow> nat \<Rightarrow> nat \<Rightarrow> u64 \<Rightarrow> 's Bench \<Rightarrow> rat list \<times> u64 \<times> 's Bench" where
  "setup_loop rnd prep op batch 0 tot st = ([], tot, st)"
| "setup_loop rnd prep op batch (Suc n) tot st =
     (let st1 = prep st;
          st2 = st1\<lparr>alloc := AllocProbe_ctor (alloc st1)\<rparr>;
          st3 = (op ^^ batch) st2;
          tot1 = tot + allocations_of (alloc st3);
          st4 = st3\<lparr>alloc := AllocProbe_dtor (alloc st3)\<rparr>;
          (rest, tot2, st5) = setup_loop rnd prep op batch n tot1 st4
      in (per_op rnd (clk st3 - clk st2) batch # rest, tot2, st5))"

definition MeasureBatchedWithSetup :: "(rat \<Rightarrow> rat) \<Rightarrow> ('s Bench \<Rightarrow> 's Bench) \<Rightarrow> ('s Bench \<Rightarrow> 's Bench) \<Rightarrow> int \<Rightarrow> int \<Rightarrow> 's Bench \<Rightarrow> (Stats \<times> u64 \<times> 's Bench) option" where
  "MeasureBatchedWithSetup rnd prep op batch n st =
     (if batch \<le> 0 \<or> n < 0 then None
      else let st1 = (op ^^ nat batch) (prep st);
               (per_op_ns, tot, st2) = setup_loop rnd prep op (nat batch) (nat n) 0 st1
           in Some (ComputeStats rnd per_op_ns, tot, st2))"

section \<open>Report rows and hardware context\<close>

record BenchResult =
  bname :: string
  blayer :: string
  payload_bytes :: nat
  contended_row :: bool
  batch :: int
  stats :: Stats
  allocations :: u64
  alloc_gated :: bool
  has_jitter :: bool
  jitter_p99_ns :: double
  jitter_max_ns :: double
  bgroup :: string
  bmode :: string
  rate_hz :: double
  achieved_fps :: double
  bnotes :: string

record HardwareContext =
  cpu_model :: string
  governor :: string
  kernel :: string
  preempt_rt :: bool
  nproc :: nat
  load_avg_1m :: double
  load_avg_5m :: double
  load_avg_15m :: double
  display :: string
  gl_renderer :: string

text \<open>What the files under \<open>/proc\<close> and \<open>/sys\<close>, \<open>uname\<close> and the stream extraction of the load averages
  deliver: lines of a file (\<open>None\<close> when it cannot be fopened).\<close>

record Host =
  cpuinfo :: "string list option"
  scaling_governor :: "string list option"
  uname_release_version :: "(string \<times> string) option"
  kernel_realtime :: "string list option"
  hardware_concurrency :: nat
  loadavg :: "(double \<times> double \<times> double) option"
  self_status :: "string list option"

definition ReadFirstLine :: "string list option \<Rightarrow> string" where
  "ReadFirstLine f = (case f of Some (l # _) \<Rightarrow> l | _ \<Rightarrow> [])"

definition starts_with :: "string \<Rightarrow> string \<Rightarrow> bool" where
  "starts_with pre s \<longleftrightarrow> take (length pre) s = pre"

fun contains :: "string \<Rightarrow> string \<Rightarrow> bool" where
  "contains needle [] \<longleftrightarrow> needle = []"
| "contains needle (c # cs) \<longleftrightarrow> starts_with needle (c # cs) \<or> contains needle cs"

definition blank :: "char \<Rightarrow> bool" where
  "blank c \<longleftrightarrow> c = CHR '' '' \<or> c = CHR 0x09"

text \<open>The first \<open>model name\<close> row; a row without a colon still ends the search.\<close>

fun cpu_model_of :: "string list \<Rightarrow> string option" where
  "cpu_model_of [] = None"
| "cpu_model_of (line # rest) =
     (if starts_with ''model name'' line then
        (case dropWhile (\<lambda>c. c \<noteq> CHR '':'') line of
           [] \<Rightarrow> None
         | _ # value \<Rightarrow> Some (if dropWhile blank value = [] then value else dropWhile blank value))
      else cpu_model_of rest)"

definition CaptureHardwareContext :: "Host \<Rightarrow> HardwareContext" where
  "CaptureHardwareContext h =
     (let model = (case cpuinfo h of None \<Rightarrow> None | Some ls \<Rightarrow> cpu_model_of ls);
          gov = ReadFirstLine (scaling_governor h);
          (la1, la5, la15) = (case loadavg h of None \<Rightarrow> (Fin (- 1), Fin (- 1), Fin (- 1)) | Some t \<Rightarrow> t)
      in \<lparr>cpu_model = (case model of None \<Rightarrow> ''unknown'' | Some m \<Rightarrow> m),
          governor = (if gov \<noteq> [] then gov else ''unknown''),
          kernel = (case uname_release_version h of None \<Rightarrow> ''unknown'' | Some (r, v) \<Rightarrow> r),
          preempt_rt = ((case uname_release_version h of None \<Rightarrow> False | Some (r, v) \<Rightarrow> contains ''PREEMPT_RT'' v)
             \<or> ReadFirstLine (kernel_realtime h) = ''1''),
          nproc = hardware_concurrency h,
          load_avg_1m = la1, load_avg_5m = la5, load_avg_15m = la15,
          display = [], gl_renderer = []\<rparr>)"

text \<open>\<open>sscanf\<close> leaves the initial 0 when no number follows.\<close>

fun rss_of :: "string list \<Rightarrow> int" where
  "rss_of [] = - 1"
| "rss_of (line # rest) =
     (if starts_with ''VmRSS:'' line
      then (case strtol10 (drop 6 line) of None \<Rightarrow> 0 | Some kib \<Rightarrow> kib)
      else rss_of rest)"

definition ReadVmRssKiB :: "Host \<Rightarrow> int" where
  "ReadVmRssKiB h = (case self_status h of None \<Rightarrow> - 1 | Some ls \<Rightarrow> rss_of ls)"

section \<open>JSON report\<close>

abbreviation quote :: char where "quote \<equiv> CHR 0x22"
abbreviation backslash :: char where "backslash \<equiv> CHR 0x5C"

definition json_escape_char :: "char \<Rightarrow> string" where
  "json_escape_char c =
     (if c = quote then [backslash, quote]
      else if c = backslash then [backslash, backslash]
      else if c = CHR 0x0A then [backslash, CHR ''n'']
      else if c = CHR 0x09 then [backslash, CHR ''t'']
      else if 0x20 \<le> (of_char c :: nat) then [c]
      else [])"

definition JsonEscapeTo :: "string \<Rightarrow> string \<Rightarrow> string" where
  "JsonEscapeTo out value = out @ concat (map json_escape_char value)"

text \<open>\<open>%.1f\<close>: to the nearest tenth, ties to even on the exact value; \<open>num\<close> has 64 bytes.\<close>

definition round_half_even :: "rat \<Rightarrow> int" where
  "round_half_even q =
     (let f = \<lfloor>q\<rfloor>; r = q - of_int f
      in if r < 1 / 2 \<or> (r = 1 / 2 \<and> even f) then f else f + 1)"

fun fixed1 :: "double \<Rightarrow> string" where
  "fixed1 NaN = ''nan''"
| "fixed1 (Inf n) = (if n then ''-inf'' else ''inf'')"
| "fixed1 (Fin q) =
     (let t = nat (round_half_even (\<bar>q\<bar> * 10))
      in (if q < 0 then ''-'' else []) @ digits 10 False (t div 10) @ ''.'' @ digits 10 False (t mod 10))"

definition num64 :: "string \<Rightarrow> string" where
  "num64 s = take 63 s"

definition field :: "string \<Rightarrow> string \<Rightarrow> bool \<Rightarrow> string \<Rightarrow> string" where
  "field key text trailing_comma out =
     out @ [quote] @ key @ [quote] @ '': '' @ text @ (if trailing_comma then '', '' else [])"

definition field_str :: "string \<Rightarrow> string \<Rightarrow> bool \<Rightarrow> string \<Rightarrow> string" where
  "field_str key value tc out =
     (let out1 = JsonEscapeTo (out @ [quote] @ key @ [quote] @ '': '' @ [quote]) value @ [quote]
      in if tc then out1 @ '', '' else out1)"

definition field_num :: "string \<Rightarrow> double \<Rightarrow> bool \<Rightarrow> string \<Rightarrow> string" where
  "field_num key value tc out = field key (num64 (fixed1 value)) tc out"

definition field_int :: "string \<Rightarrow> int \<Rightarrow> bool \<Rightarrow> string \<Rightarrow> string" where
  "field_int key value tc out = field key (num64 (dec value)) tc out"

definition field_bool :: "string \<Rightarrow> bool \<Rightarrow> bool \<Rightarrow> string \<Rightarrow> string" where
  "field_bool key value tc out = field key (if value then ''true'' else ''false'') tc out"

definition opt :: "bool \<Rightarrow> (string \<Rightarrow> string) \<Rightarrow> string \<Rightarrow> string" where
  "opt c f out = (if c then f out else out)"

definition put :: "string \<Rightarrow> string \<Rightarrow> string" where
  "put s out = out @ s"

text \<open>The writes of one object, in order.\<close>

definition steps :: "(string \<Rightarrow> string) list \<Rightarrow> string \<Rightarrow> string" where
  "steps fs out = fold (\<lambda>f o'. f o') fs out"

definition i64 :: "u64 \<Rightarrow> int" where
  "i64 w = sint w"

definition write_row :: "BenchResult \<Rightarrow> bool \<Rightarrow> string \<Rightarrow> string" where
  "write_row r is_last out =
     (let st = stats r;
          fps = dle (Fin 0) (achieved_fps r);
          noted = (bnotes r \<noteq> []);
          more = (has_jitter r \<or> fps \<or> noted)
      in steps
        [put ''    { '', field_str ''name'' (bname r) True, field_str ''layer'' (blayer r) True,
         opt (bgroup r \<noteq> []) (field_str ''group'' (bgroup r) True),
         opt (bmode r \<noteq> []) (field_str ''mode'' (bmode r) True),
         field_int ''payload_bytes'' (i64 (of_nat (payload_bytes r))) True,
         field_bool ''contended'' (contended_row r) True, field_str ''unit'' ''ns'' True,
         opt (dless (Fin 0) (rate_hz r)) (field_num ''rate_hz'' (rate_hz r) True),
         field_int ''batch'' (batch r) True, field_int ''samples'' (i64 (of_nat (samples st))) True,
         field_num ''p50'' (Fin (p50 st)) True, field_num ''p99'' (Fin (p99 st)) True,
         field_num ''p999'' (Fin (p999 st)) True, field_num ''max'' (Fin (smax st)) True,
         field_num ''mean'' (Fin (smean st)) True, field_int ''allocations'' (i64 (allocations r)) True,
         field_bool ''alloc_gated'' (alloc_gated r) more,
         opt (has_jitter r) (field_num ''jitter_p99'' (jitter_p99_ns r) True),
         opt (has_jitter r) (field_num ''jitter_max'' (jitter_max_ns r) (fps \<or> noted)),
         opt fps (field_num ''achieved_fps'' (achieved_fps r) noted),
         opt noted (field_str ''notes'' (bnotes r) False),
         put (if is_last then '' }'' @ [newline] else '' },'' @ [newline])] out)"

fun write_rows :: "BenchResult list \<Rightarrow> string \<Rightarrow> string" where
  "write_rows [] out = out"
| "write_rows (r # rs) out = write_rows rs (write_row r (rs = []) out)"

fun write_failures :: "bool \<Rightarrow> string list \<Rightarrow> string \<Rightarrow> string" where
  "write_failures first [] out = out"
| "write_failures first (g # gs) out =
     write_failures False gs (JsonEscapeTo (out @ (if first then [] else '', '') @ [quote]) g @ [quote])"

definition report_text :: "string \<Rightarrow> string \<Rightarrow> HardwareContext \<Rightarrow> BenchResult list \<Rightarrow> bool \<Rightarrow> double \<Rightarrow> string list \<Rightarrow> string" where
  "report_text schema stamp hw results smoke scale gate_failures =
     steps
       [put (''{'' @ [newline] @ ''  ''), field_str ''schema'' schema True, field_str ''generated_at_utc'' stamp True,
        field_bool ''smoke'' smoke True, field_num ''scale'' scale False,
        put ('','' @ [newline] @ ''  '' @ [quote] @ ''hardware'' @ [quote] @ '': { ''),
        field_str ''cpu_model'' (cpu_model hw) True, field_int ''nproc'' (int (nproc hw)) True,
        field_str ''governor'' (governor hw) True, field_str ''kernel'' (kernel hw) True,
        field_bool ''preempt_rt'' (preempt_rt hw) True,
        opt (display hw \<noteq> []) (field_str ''display'' (display hw) True),
        opt (gl_renderer hw \<noteq> []) (field_str ''gl_renderer'' (gl_renderer hw) True),
        field_num ''load_avg_1m'' (load_avg_1m hw) True, field_num ''load_avg_5m'' (load_avg_5m hw) True,
        field_num ''load_avg_15m'' (load_avg_15m hw) False,
        put ('' },'' @ [newline] @ ''  '' @ [quote] @ ''alloc_gate'' @ [quote] @ '': { ''),
        field_bool ''passed'' (gate_failures = []) True,
        put ([quote] @ ''failures'' @ [quote] @ '': [''), write_failures True gate_failures,
        put (''] },'' @ [newline] @ ''  '' @ [quote] @ ''benchmarks'' @ [quote] @ '': ['' @ [newline]),
        write_rows results, put (''  ]'' @ [newline] @ ''}'' @ [newline])] []"

text \<open>The file: opening it may fail, and so may writing or closing.\<close>

definition WriteJsonReport :: "bool \<Rightarrow> nat \<Rightarrow> bool \<Rightarrow> string \<Rightarrow> string \<Rightarrow> HardwareContext \<Rightarrow> BenchResult list \<Rightarrow> bool \<Rightarrow> double \<Rightarrow> string list \<Rightarrow> bool \<times> string option" where
  "WriteJsonReport fopened fwritten fclosed schema stamp hw results smoke scale gate_failures =
     (let text = report_text schema stamp hw results smoke scale gate_failures in
      if \<not> fopened then (False, None)
      else (fclosed \<and> min fwritten (length text) = length text, Some (take fwritten text)))"

section \<open>Order statistics\<close>

lemma sorted_count_le:
  assumes "sorted xs" "i < length xs"
  shows "Suc i \<le> length (filter (\<lambda>x. x \<le> xs ! i) xs)"
proof -
  have "\<forall>x \<in> set (take (Suc i) xs). x \<le> xs ! i"
    using assms by (auto simp: in_set_conv_nth less_Suc_eq_le intro!: sorted_nth_mono)
  then have "filter (\<lambda>x. x \<le> xs ! i) (take (Suc i) xs) = take (Suc i) xs" by (simp add: filter_id_conv)
  then have "Suc i = length (filter (\<lambda>x. x \<le> xs ! i) (take (Suc i) xs))" using assms(2) by simp
  also have "\<dots> \<le> length (filter (\<lambda>x. x \<le> xs ! i) (take (Suc i) xs @ drop (Suc i) xs))" by (simp only: filter_append length_append)
  finally show ?thesis by simp
qed

lemma sorted_count_less:
  assumes "sorted xs" "i < length xs"
  shows "length (filter (\<lambda>x. x < xs ! i) xs) < Suc i"
proof -
  have "\<forall>x \<in> set (drop i xs). \<not> x < xs ! i"
    using assms by (auto simp: in_set_conv_nth not_less intro!: sorted_nth_mono)
  then have "filter (\<lambda>x. x < xs ! i) (drop i xs) = []" by (simp add: filter_empty_conv)
  then have "filter (\<lambda>x. x < xs ! i) xs = filter (\<lambda>x. x < xs ! i) (take i xs)"
    by (metis append_Nil2 append_take_drop_id filter_append)
  then show ?thesis using length_filter_le [of "\<lambda>x. x < xs ! i" "take i xs"] assms(2) by simp
qed

text \<open>The position the code picks: the rank, kept between 1 and the number of samples.\<close>

definition pick :: "(rat \<Rightarrow> rat) \<Rightarrow> rat \<Rightarrow> nat \<Rightarrow> nat" where
  "pick rnd q n = max 1 (min (rank_of rnd q n) n)"

lemma percentile_pick:
  assumes "xs \<noteq> []"
  shows "PercentileSorted rnd xs q = xs ! (pick rnd q (length xs) - 1)" "pick rnd q (length xs) - 1 < length xs"
proof -
  have "0 < length xs" using assms by simp
  then show "pick rnd q (length xs) - 1 < length xs" by (auto simp: pick_def max_def min_def)
  have "min (if rank_of rnd q (length xs) = 0 then 0 else rank_of rnd q (length xs) - 1) (length xs - 1)
      = pick rnd q (length xs) - 1" using \<open>0 < length xs\<close> by (auto simp: pick_def min_def max_def)
  then show "PercentileSorted rnd xs q = xs ! (pick rnd q (length xs) - 1)"
    using assms by (simp add: PercentileSorted_def Let_def)
qed

lemma percentile_spec:
  assumes "sorted xs" "xs \<noteq> []"
  shows "let v = PercentileSorted rnd xs q; k = pick rnd q (length xs)
    in v \<in> set xs \<and> k \<le> length (filter (\<lambda>x. x \<le> v) xs) \<and> length (filter (\<lambda>x. x < v) xs) < k"
proof -
  let ?k = "pick rnd q (length xs)"
  have "Suc (?k - 1) = ?k" by (simp add: pick_def)
  then show ?thesis
    using percentile_pick [OF assms(2), of rnd q] sorted_count_le [OF assms(1), of "?k - 1"]
      sorted_count_less [OF assms(1), of "?k - 1"] by (simp add: Let_def)
qed

lemma percentile_mono:
  assumes "sorted xs" "xs \<noteq> []" "mono rnd" "q \<le> q'"
  shows "PercentileSorted rnd xs q \<le> PercentileSorted rnd xs q'"
proof -
  have "q * of_nat (length xs) \<le> q' * of_nat (length xs)" using assms(4) by (intro mult_right_mono) auto
  then have "rnd (q * of_nat (length xs)) \<le> rnd (q' * of_nat (length xs))" using assms(3) by (rule monoD [rotated])
  then have "rank_of rnd q (length xs) \<le> rank_of rnd q' (length xs)" by (simp add: rank_of_def ceiling_mono nat_mono)
  then have "pick rnd q (length xs) - 1 \<le> pick rnd q' (length xs) - 1" by (simp add: pick_def)
  then show ?thesis using percentile_pick [OF assms(2)] assms(1) by (simp add: sorted_nth_mono)
qed

lemma percentile_last: "sorted xs \<Longrightarrow> xs \<noteq> [] \<Longrightarrow> PercentileSorted rnd xs q \<le> last xs"
  using percentile_pick [of xs rnd q] by (simp add: last_conv_nth sorted_nth_mono)

lemma sorted_last_Max:
  assumes "sorted xs" "xs \<noteq> []" shows "last xs = Max (set xs)"
proof (rule Max_eqI [symmetric])
  fix y assume "y \<in> set xs"
  then obtain i where i: "i < length xs" "y = xs ! i" by (auto simp: in_set_conv_nth)
  then show "y \<le> last xs" using assms by (simp add: last_conv_nth sorted_nth_mono)
qed (use assms in auto)

lemma filter_sort_length: "length (filter P (sort xs)) = length (filter P xs)"
  by (simp add: filter_sort)

text \<open>What a nearest-rank percentile is.\<close>

definition nearest_rank :: "(rat \<Rightarrow> rat) \<Rightarrow> rat list \<Rightarrow> rat \<Rightarrow> rat \<Rightarrow> bool" where
  "nearest_rank rnd xs q v \<longleftrightarrow>
     (let k = pick rnd q (length xs)
      in v \<in> set xs \<and> k \<le> length (filter (\<lambda>x. x \<le> v) xs) \<and> length (filter (\<lambda>x. x < v) xs) < k)"

section \<open>Counting allocations\<close>

text \<open>An operation that allocates \<open>k\<close> times and leaves the probe alone.\<close>

definition allocates :: "nat \<Rightarrow> ('s Bench \<Rightarrow> 's Bench) \<Rightarrow> bool" where
  "allocates k op \<longleftrightarrow> (\<forall>st. alloc (op st) = (count_one ^^ k) (alloc st))"

lemma count_one_sel [simp]:
  "g_alloc_counting (count_one st) = g_alloc_counting st"
  "g_alloc_counting st \<Longrightarrow> g_alloc_count (count_one st) = g_alloc_count st + 1"
  by (simp_all add: count_one_def)

lemma count_many [simp]:
  "g_alloc_counting ((count_one ^^ n) st) = g_alloc_counting st"
  "g_alloc_counting st \<Longrightarrow> g_alloc_count ((count_one ^^ n) st) = g_alloc_count st + of_nat n"
  by (induction n) (auto simp: algebra_simps)

lemma allocates_power:
  assumes "allocates k op" shows "alloc ((op ^^ m) st) = (count_one ^^ (m * k)) (alloc st)"
proof (induction m)
  case (Suc m)
  have "alloc ((op ^^ Suc m) st) = (count_one ^^ k) (alloc ((op ^^ m) st))" using assms by (simp add: allocates_def)
  with Suc show ?case by (simp add: funpow_add)
qed simp

lemma sample_loop_alloc:
  "allocates k op \<Longrightarrow> alloc (snd (sample_loop rnd op m n st)) = (count_one ^^ (n * (m * k))) (alloc st)"
proof (induction n arbitrary: st)
  case (Suc n)
  have "alloc (snd (sample_loop rnd op m (Suc n) st)) = alloc (snd (sample_loop rnd op m n ((op ^^ m) st)))"
    by (simp add: Let_def case_prod_unfold)
  also have "\<dots> = (count_one ^^ (n * (m * k))) ((count_one ^^ (m * k)) (alloc st))"
    using Suc by (simp add: allocates_power)
  also have "\<dots> = (count_one ^^ (n * (m * k) + m * k)) (alloc st)" by (simp only: funpow_add o_apply)
  finally show ?case by (simp only: mult_Suc add.commute)
qed simp

lemma measured_allocs:
  assumes "allocates k op" "0 < b" "b * 4 < 2 ^ 31" "0 \<le> n"
  shows "\<exists>s st'. MeasureBatched rnd op b n st = Some (s, of_nat (nat n * (nat b * k)), st') \<and> \<not> g_alloc_counting (alloc st')"
  using assms sample_loop_alloc [OF assms(1)]
  by (simp add: MeasureBatched_def Let_def case_prod_unfold allocations_of_def AllocProbe_ctor_def AllocProbe_dtor_def)

lemma setup_loop_total:
  assumes "allocates k op"
  shows "fst (snd (setup_loop rnd prep op m n tot st)) = tot + of_nat (n * (m * k))"
proof (induction n arbitrary: tot st)
  case (Suc n)
  show ?case
    using Suc [of "tot + of_nat (m * k)"] allocates_power [OF assms]
    by (simp add: Let_def case_prod_unfold AllocProbe_ctor_def allocations_of_def algebra_simps)
qed simp

section \<open>Properties\<close>

text \<open>
  The statistics are the order statistics they claim to be: for a nonempty sample set and a
  monotone rounding, each percentile is a sample with at least \<open>k\<close> samples at or below it and fewer than
  \<open>k\<close> strictly below, where \<open>k\<close> is the computed rank kept between 1 and the number of samples; they are
  ordered \<open>p50 \<le> p99 \<le> p999 \<le> max\<close>; the maximum is the largest sample; and the result, the mean
  included, does not depend on the order in which the samples were taken.
\<close>

theorem stats_order_statistics:
  assumes "xs \<noteq> []" and "mono rnd"
  shows "let s = ComputeStats rnd xs in
     nearest_rank rnd xs (rnd (50 / 100)) (p50 s) \<and> nearest_rank rnd xs (rnd (99 / 100)) (p99 s) \<and>
     nearest_rank rnd xs (rnd (999 / 1000)) (p999 s) \<and>
     p50 s \<le> p99 s \<and> p99 s \<le> p999 s \<and> p999 s \<le> smax s \<and> smax s = Max (set xs) \<and> samples s = length xs \<and>
     (\<forall>ys. mset ys = mset xs \<longrightarrow> ComputeStats rnd ys = s)"
proof -
  have s: "sorted (sort xs)" "sort xs \<noteq> []" using assms(1) by (simp, metis length_0_conv length_sort)
  have c: "p50 (ComputeStats rnd xs) = PercentileSorted rnd (sort xs) (rnd (50 / 100))"
    "p99 (ComputeStats rnd xs) = PercentileSorted rnd (sort xs) (rnd (99 / 100))"
    "p999 (ComputeStats rnd xs) = PercentileSorted rnd (sort xs) (rnd (999 / 1000))"
    "smax (ComputeStats rnd xs) = last (sort xs)" "samples (ComputeStats rnd xs) = length xs"
    using assms(1) by (simp_all add: ComputeStats_def Let_def)
  have near: "nearest_rank rnd xs q (PercentileSorted rnd (sort xs) q)" for q
    using percentile_spec [OF s, of rnd q] by (simp add: nearest_rank_def filter_sort_length Let_def)
  have ord: "rnd (50 / 100) \<le> rnd (99 / 100)" "rnd (99 / 100) \<le> rnd (999 / 1000)"
    by (rule monoD [OF assms(2)], simp)+
  have same: "ComputeStats rnd ys = ComputeStats rnd xs" if "mset ys = mset xs" for ys
  proof -
    have "sort ys = sort xs" using that by (intro properties_for_sort) simp_all
    moreover have "length ys = length xs" using that by (rule mset_eq_length)
    ultimately show ?thesis using assms(1) by (auto simp: ComputeStats_def)
  qed
  have "last (sort xs) = Max (set xs)" using sorted_last_Max [OF s] by simp
  then show ?thesis
    unfolding Let_def c
    using near same percentile_mono [OF s assms(2) ord(1)] percentile_mono [OF s assms(2) ord(2)] percentile_last [OF s]
    by blast
qed

theorem stats_order_statistics_witness:
  "p50 (ComputeStats (\<lambda>x. x) [3, 1, 2]) \<le> p99 (ComputeStats (\<lambda>x. x) [3, 1, 2]) \<and>
   smax (ComputeStats (\<lambda>x. x) [3, 1, 2]) = Max {3, 1, 2}"
proof -
  have m: "mono (\<lambda>x :: rat. x)" and ne: "[3, 1, 2 :: rat] \<noteq> []" by (simp_all add: mono_def)
  have set: "set [3, 1, 2 :: rat] = {3, 1, 2}" by simp
  from stats_order_statistics [OF ne m] show ?thesis unfolding Let_def set by blast
qed

text \<open>
  The allocation gate counts exactly the measured section: for an operation that allocates
  \<open>k\<close> times per call both measurement loops report \<open>k\<close> times the number of measured calls (modulo
  \<open>2 ^ 64\<close>), whatever the warm-up, the per-sample setup and earlier probes allocated; in particular a
  nonallocating operation reports 0.
\<close>

theorem alloc_gate_exact:
  assumes "allocates k op" and "0 < b" "b * 4 < 2 ^ 31" "0 \<le> n"
  shows "(\<exists>s st'. MeasureBatched rnd op b n st = Some (s, of_nat (nat n * (nat b * k)), st') \<and>
      \<not> g_alloc_counting (alloc st')) \<and>
    (\<exists>s st'. MeasureBatchedWithSetup rnd prep op b n st = Some (s, of_nat (nat n * (nat b * k)), st'))"
proof
  show "\<exists>s st'. MeasureBatched rnd op b n st = Some (s, of_nat (nat n * (nat b * k)), st') \<and> \<not> g_alloc_counting (alloc st')"
    by (rule measured_allocs [OF assms])
  show "\<exists>s st'. MeasureBatchedWithSetup rnd prep op b n st = Some (s, of_nat (nat n * (nat b * k)), st')"
    using assms(2-4) setup_loop_total [OF assms(1), of rnd prep "nat b" "nat n" 0 "(op ^^ nat b) (prep st)"]
    by (cases "setup_loop rnd prep op (nat b) (nat n) 0 ((op ^^ nat b) (prep st))")
      (simp add: MeasureBatchedWithSetup_def)
qed

theorem alloc_gate_exact_witness:
  "\<exists>s st'. MeasureBatched (\<lambda>x. x) (\<lambda>st. st\<lparr>alloc := snd (CountingAlloc (\<lambda>n. Some n) 8 (alloc st)), clk := clk st + 5\<rparr>) 2 3
     \<lparr>alloc = \<lparr>g_alloc_counting = False, g_alloc_count = 9\<rparr>, clk = 0, user = ()\<rparr> = Some (s, 6, st')"
proof -
  let ?op = "\<lambda>st. st\<lparr>alloc := snd (CountingAlloc (\<lambda>n. Some n) 8 (alloc st)), clk := clk st + 5\<rparr> :: unit Bench"
  have "allocates 1 ?op" by (simp add: allocates_def CountingAlloc_def Let_def)
  from alloc_gate_exact [OF this, of 2 3 "\<lambda>x. x" "\<lparr>alloc = \<lparr>g_alloc_counting = False, g_alloc_count = 9\<rparr>, clk = 0, user = ()\<rparr>" "\<lambda>st. st"]
  show ?thesis by auto
qed

end
