(* ===== verification/Bench_Report.thy ===== *)
theory Bench_Report
  imports Bench_Harness
begin

text \<open>
  The report of \<open>bench_harness.hpp\<close> is JSON: a grammar that relates a text to the value it denotes,
  the expected value of a report, and the proof that \<open>report_text\<close> denotes it.
\<close>

section \<open>JSON\<close>

datatype json = JStr string | JNum string | JBool bool | JObj "(string \<times> json) list" | JArr "json list"

definition ws :: "string \<Rightarrow> bool" where
  "ws s \<longleftrightarrow> set s \<subseteq> {CHR '' '', CHR 0x09, CHR 0x0A, CHR 0x0D}"

fun unescape :: "string \<Rightarrow> string option" where
  "unescape [] = Some []"
| "unescape (c # cs) =
     (if c = backslash then
        (case cs of
           [] \<Rightarrow> None
         | e # r \<Rightarrow>
             if e = quote \<or> e = backslash then map_option (Cons e) (unescape r)
             else if e = CHR ''n'' then map_option (Cons (CHR 0x0A)) (unescape r)
             else if e = CHR ''t'' then map_option (Cons (CHR 0x09)) (unescape r)
             else None)
      else if c = quote \<or> (of_char c :: nat) < 0x20 then None
      else map_option (Cons c) (unescape cs))"

definition is_json_number :: "string \<Rightarrow> bool" where
  "is_json_number s \<longleftrightarrow>
     (let t = (if s \<noteq> [] \<and> hd s = CHR ''-'' then tl s else s);
          ip = takeWhile is_digit t; rest = dropWhile is_digit t
      in ip \<noteq> [] \<and> (hd ip = CHR ''0'' \<longrightarrow> tl ip = []) \<and>
         (rest = [] \<or> (hd rest = CHR ''.'' \<and> tl rest \<noteq> [] \<and> list_all is_digit (tl rest))))"

inductive js_value :: "string \<Rightarrow> json \<Rightarrow> bool"
  and js_members :: "string \<Rightarrow> (string \<times> json) list \<Rightarrow> bool"
  and js_elements :: "string \<Rightarrow> json list \<Rightarrow> bool"
where
  v_str: "unescape b = Some s \<Longrightarrow> js_value (quote # b @ [quote]) (JStr s)"
| v_num: "is_json_number n \<Longrightarrow> js_value n (JNum n)"
| v_true: "js_value ''true'' (JBool True)"
| v_false: "js_value ''false'' (JBool False)"
| v_obj: "js_members m ms \<Longrightarrow> js_value (CHR ''{'' # m @ ''}'') (JObj ms)"
| v_nil: "ws w \<Longrightarrow> js_value (CHR ''['' # w @ '']'') (JArr [])"
| v_arr: "js_elements e es \<Longrightarrow> js_value (CHR ''['' # e @ '']'') (JArr es)"
| m_one: "ws a \<Longrightarrow> unescape k = Some ks \<Longrightarrow> ws c \<Longrightarrow> ws d \<Longrightarrow> js_value t v \<Longrightarrow>
    js_members (a @ quote # k @ quote # CHR '':'' # c @ t @ d) [(ks, v)]"
| m_app: "js_members x xs \<Longrightarrow> js_members y ys \<Longrightarrow> js_members (x @ CHR '','' # y) (xs @ ys)"
| e_one: "ws a \<Longrightarrow> ws b \<Longrightarrow> js_value t v \<Longrightarrow> js_elements (a @ t @ b) [v]"
| e_app: "js_elements x xs \<Longrightarrow> js_elements y ys \<Longrightarrow> js_elements (x @ CHR '','' # y) (xs @ ys)"

lemma ws_append [simp]: "ws (a @ b) \<longleftrightarrow> ws a \<and> ws b"
  by (auto simp: ws_def)

lemma ws_simps [simp]: "ws []" "ws (c # s) \<longleftrightarrow> c \<in> {CHR '' '', CHR 0x09, CHR 0x0A, CHR 0x0D} \<and> ws s"
  by (auto simp: ws_def)

lemma members_ws: "js_members x xs \<Longrightarrow> ws a \<Longrightarrow> ws b \<Longrightarrow> js_members (a @ x @ b) xs"
proof (induction x xs arbitrary: a b rule: js_value_js_members_js_elements.inducts(2) [where ?P1.0 = "\<lambda>_ _. True" and ?P3.0 = "\<lambda>_ _. True"])
  case (m_one a' k ks c d t v)
  then show ?case using js_value_js_members_js_elements.m_one [of "a @ a'" k ks c "d @ b" t v] by simp
next
  case (m_app x xs y ys)
  have "js_members (a @ x) xs" "js_members (y @ b) ys"
    using m_app.IH(1) [of a "[]"] m_app.IH(2) [of "[]" b] m_app.prems by simp_all
  then show ?case using js_value_js_members_js_elements.m_app by fastforce
qed simp_all

lemma elements_ws: "js_elements x xs \<Longrightarrow> ws a \<Longrightarrow> ws b \<Longrightarrow> js_elements (a @ x @ b) xs"
proof (induction x xs arbitrary: a b rule: js_value_js_members_js_elements.inducts(3) [where ?P1.0 = "\<lambda>_ _. True" and ?P2.0 = "\<lambda>_ _. True"])
  case (e_one a' b' t v)
  then show ?case using js_value_js_members_js_elements.e_one [of "a @ a'" "b' @ b" t v] by simp
next
  case (e_app x xs y ys)
  have "js_elements (a @ x) xs" "js_elements (y @ b) ys"
    using e_app.IH(1) [of a "[]"] e_app.IH(2) [of "[]" b] e_app.prems by simp_all
  then show ?case using js_value_js_members_js_elements.e_app by fastforce
qed simp_all

section \<open>Strings and numbers\<close>

text \<open>The writer drops control characters other than newline and tab.\<close>

definition kept_char :: "char \<Rightarrow> bool" where
  "kept_char c \<longleftrightarrow> c = CHR 0x0A \<or> c = CHR 0x09 \<or> 0x20 \<le> (of_char c :: nat)"

lemma unescape_escape: "unescape (concat (map json_escape_char v)) = Some (filter kept_char v)"
  by (induction v) (auto simp: json_escape_char_def kept_char_def)

lemma number_digits:
  assumes "rest = [] \<or> (\<exists>d. rest = CHR ''.'' # digits 10 False d)" "sign = [] \<or> sign = ''-''"
  shows "is_json_number (sign @ digits 10 False n @ rest)"
proof -
  let ?t = "digits 10 False n @ rest"
  have hd: "hd (digits 10 False n) \<in> set (digits 10 False n)" by simp
  then have "is_digit (hd (digits 10 False n))" by (rule digits_all)
  then have "is_digit (hd ?t)" by simp
  then have nosign: "hd ?t \<noteq> CHR ''-''" by (auto simp: is_digit_def)
  then have t: "(if sign @ ?t \<noteq> [] \<and> hd (sign @ ?t) = CHR ''-'' then tl (sign @ ?t) else sign @ ?t) = ?t"
    using assms(2) by auto
  have nd: "\<not> is_digit CHR ''.''" by (simp add: is_digit_def)
  have tw: "takeWhile is_digit ?t = digits 10 False n" "dropWhile is_digit ?t = rest"
    using digits_all [of _ False n] assms(1) nd by (auto simp: takeWhile_append dropWhile_append)
  have zero: "hd (digits 10 False n) = CHR ''0'' \<longrightarrow> tl (digits 10 False n) = []"
  proof (cases "n = 0")
    case True
    then show ?thesis by (subst (2) digits.simps) simp
  qed (use digits_hd [of n False] in simp)
  have "rest = [] \<or> (hd rest = CHR ''.'' \<and> tl rest \<noteq> [] \<and> list_all is_digit (tl rest))"
    using assms(1) digits_all by (auto simp: list_all_iff)
  with zero show ?thesis unfolding is_json_number_def Let_def t tw by simp
qed

text \<open>The numbers of a report: finite and of a size whose text fits the 64-byte buffer.\<close>

fun printable :: "double \<Rightarrow> bool" where
  "printable (Fin q) \<longleftrightarrow> \<bar>q\<bar> < 10 ^ 50"
| "printable _ \<longleftrightarrow> False"

lemma round_half_even_bound: "0 \<le> q \<Longrightarrow> q < of_int m \<Longrightarrow> 0 \<le> round_half_even q \<and> round_half_even q \<le> m"
  by (auto simp: round_half_even_def Let_def floor_less_iff) linarith+

lemma num64_short: "length s \<le> 63 \<Longrightarrow> num64 s = s"
  by (simp add: num64_def)

lemma fixed1_number:
  assumes "printable d" shows "is_json_number (num64 (fixed1 d))"
proof -
  obtain q where q: "d = Fin q" "\<bar>q\<bar> < 10 ^ 50" using assms by (cases d) auto
  let ?t = "nat (round_half_even (\<bar>q\<bar> * 10))"
  have "\<bar>q\<bar> * 10 < of_int (10 ^ 51)" using q(2) by simp
  then have "round_half_even (\<bar>q\<bar> * 10) \<le> 10 ^ 51" using round_half_even_bound [of "\<bar>q\<bar> * 10" "10 ^ 51"] by simp
  then have "?t \<le> 10 ^ 51" by simp
  then have "?t div 10 < 10 ^ 51" by simp
  then have "length (digits 10 False (?t div 10)) \<le> 51" by (intro digits_length) simp_all
  moreover have "length (digits 10 False (?t mod 10)) \<le> 1" by (intro digits_length) simp_all
  moreover have shown: "fixed1 d = (if q < 0 then ''-'' else []) @ digits 10 False (?t div 10) @ CHR ''.'' # digits 10 False (?t mod 10)"
    by (simp add: q(1) Let_def)
  ultimately have "length (fixed1 d) \<le> 63" unfolding shown length_append by (cases "q < 0") auto
  then have "num64 (fixed1 d) = fixed1 d" by (rule num64_short)
  moreover have "is_json_number (fixed1 d)" unfolding shown by (rule number_digits) auto
  ultimately show ?thesis by simp
qed

lemma dec_number:
  assumes "\<bar>v\<bar> < 10 ^ 30" shows "is_json_number (num64 (dec v))"
proof -
  have "nat \<bar>v\<bar> < 10 ^ 30" using assms by simp
  then have "length (digits 10 False (nat \<bar>v\<bar>)) \<le> 30" by (intro digits_length) simp_all
  moreover have shown: "dec v = (if v < 0 then ''-'' else []) @ digits 10 False (nat \<bar>v\<bar>) @ []"
    by (simp add: dec_def printf_int_def pad_to_def)
  ultimately have "length (dec v) \<le> 63" unfolding shown length_append by (cases "v < 0") auto
  then have "num64 (dec v) = dec v" by (rule num64_short)
  moreover have "is_json_number (dec v)" unfolding shown by (rule number_digits) auto
  ultimately show ?thesis by simp
qed

section \<open>Objects as the writer emits them\<close>

text \<open>A member to write: its key, the text of its value, and the value it stands for.\<close>

type_synonym member = "string \<times> string \<times> json"

definition mem_text :: "member \<Rightarrow> string" where
  "mem_text m = quote # fst m @ quote # CHR '':'' # '' '' @ fst (snd m)"

definition mem_json :: "member \<Rightarrow> string \<times> json" where
  "mem_json m = (fst m, snd (snd m))"

definition mem_ok :: "member \<Rightarrow> bool" where
  "mem_ok m \<longleftrightarrow> unescape (fst m) = Some (fst m) \<and> js_value (fst (snd m)) (snd (snd m))"

fun join :: "string list \<Rightarrow> string" where
  "join [] = []"
| "join [m] = m"
| "join (m # n # ms) = m @ '', '' @ join (n # ms)"

definition commas :: "string list \<Rightarrow> string" where
  "commas ms = concat (map (\<lambda>m. m @ '', '') ms)"

lemma join_commas: "ns \<noteq> [] \<Longrightarrow> join (ms @ ns) = commas ms @ join ns"
proof (induction ms)
  case (Cons m ms)
  then show ?case by (cases "ms @ ns") (auto simp: commas_def)
qed (simp add: commas_def)

lemma commas_simps [simp]: "commas [] = []" "commas (m # ms) = m @ '', '' @ commas ms" "commas (a @ b) = commas a @ commas b"
  by (simp_all add: commas_def)

lemma members_join:
  "list_all mem_ok ms \<Longrightarrow> ms \<noteq> [] \<Longrightarrow> js_members (join (map mem_text ms)) (map mem_json ms)"
proof (induction ms rule: induct_list012)
  case (2 m)
  then show ?case using m_one [of "[]" "fst m" "fst m" "'' ''" "[]" "fst (snd m)" "snd (snd m)"]
    by (simp add: mem_ok_def mem_text_def mem_json_def)
next
  case (3 m n ms)
  have "js_members (mem_text m) [mem_json m]"
    using 3 m_one [of "[]" "fst m" "fst m" "'' ''" "[]" "fst (snd m)" "snd (snd m)"]
    by (simp add: mem_ok_def mem_text_def mem_json_def)
  moreover have "js_members ('' '' @ join (map mem_text (n # ms))) (map mem_json (n # ms))"
    using 3 members_ws [of "join (map mem_text (n # ms))" _ "'' ''" "[]"] by simp
  ultimately have "js_members (mem_text m @ CHR '','' # '' '' @ join (map mem_text (n # ms))) ([mem_json m] @ map mem_json (n # ms))"
    by (rule m_app)
  then show ?case by simp
qed simp

definition str_mem :: "string \<Rightarrow> string \<Rightarrow> member" where
  "str_mem k v = (k, quote # concat (map json_escape_char v) @ [quote], JStr (filter kept_char v))"

definition num_mem :: "string \<Rightarrow> double \<Rightarrow> member" where
  "num_mem k d = (k, num64 (fixed1 d), JNum (num64 (fixed1 d)))"

definition int_mem :: "string \<Rightarrow> int \<Rightarrow> member" where
  "int_mem k v = (k, num64 (dec v), JNum (num64 (dec v)))"

definition bool_mem :: "string \<Rightarrow> bool \<Rightarrow> member" where
  "bool_mem k b = (k, if b then ''true'' else ''false'', JBool b)"

definition sep :: "bool \<Rightarrow> string" where
  "sep tc = (if tc then '', '' else [])"

lemma sep_simps [simp]: "sep True = '', ''" "sep False = []"
  by (simp_all add: sep_def)

lemma fields_text:
  "field_str k v tc out = out @ mem_text (str_mem k v) @ sep tc"
  "field_num k d tc out = out @ mem_text (num_mem k d) @ sep tc"
  "field_int k i tc out = out @ mem_text (int_mem k i) @ sep tc"
  "field_bool k b tc out = out @ mem_text (bool_mem k b) @ sep tc"
  by (simp_all add: field_str_def field_num_def field_int_def field_bool_def field_def JsonEscapeTo_def Let_def
      mem_text_def str_mem_def num_mem_def int_mem_def bool_mem_def sep_def)

definition plain :: "string \<Rightarrow> bool" where
  "plain k \<longleftrightarrow> list_all (\<lambda>c. c \<noteq> quote \<and> c \<noteq> backslash \<and> 0x20 \<le> (of_char c :: nat)) k"

lemma plain_unescape: "plain k \<Longrightarrow> unescape k = Some k"
  by (induction k) (auto simp: plain_def)

lemma mem_ok_simps [simp]:
  "plain k \<Longrightarrow> mem_ok (str_mem k v)"
  "plain k \<Longrightarrow> printable d \<Longrightarrow> mem_ok (num_mem k d)"
  "plain k \<Longrightarrow> \<bar>i\<bar> < 10 ^ 30 \<Longrightarrow> mem_ok (int_mem k i)"
  "plain k \<Longrightarrow> mem_ok (bool_mem k b)"
  by (auto simp: mem_ok_def str_mem_def num_mem_def int_mem_def bool_mem_def plain_unescape
      intro!: v_str v_num v_true v_false unescape_escape fixed1_number dec_number)

definition only :: "bool \<Rightarrow> 'a \<Rightarrow> 'a list" where
  "only c x = (if c then [x] else [])"

lemma opt_field:
  "opt c (\<lambda>out. out @ t) out = out @ (if c then t else [])"
  by (simp add: opt_def)

lemma commas_only [simp]: "commas (map f (only c x)) = (if c then f x @ '', '' else [])"
  by (simp add: only_def)

section \<open>A row\<close>

definition row_front :: "BenchResult \<Rightarrow> member list" where
  "row_front r =
     (let st = stats r in
      [str_mem ''name'' (bname r), str_mem ''layer'' (blayer r)] @
      only (bgroup r \<noteq> []) (str_mem ''group'' (bgroup r)) @ only (bmode r \<noteq> []) (str_mem ''mode'' (bmode r)) @
      [int_mem ''payload_bytes'' (i64 (of_nat (payload_bytes r))), bool_mem ''contended'' (contended_row r), str_mem ''unit'' ''ns''] @
      only (dless (Fin 0) (rate_hz r)) (num_mem ''rate_hz'' (rate_hz r)) @
      [int_mem ''batch'' (batch r), int_mem ''samples'' (i64 (of_nat (samples st))),
       num_mem ''p50'' (Fin (p50 st)), num_mem ''p99'' (Fin (p99 st)), num_mem ''p999'' (Fin (p999 st)),
       num_mem ''max'' (Fin (smax st)), num_mem ''mean'' (Fin (smean st)), int_mem ''allocations'' (i64 (allocations r))])"

definition row_back :: "BenchResult \<Rightarrow> member list" where
  "row_back r =
     [bool_mem ''alloc_gated'' (alloc_gated r)] @
     only (has_jitter r) (num_mem ''jitter_p99'' (jitter_p99_ns r)) @
     only (has_jitter r) (num_mem ''jitter_max'' (jitter_max_ns r)) @
     only (dle (Fin 0) (achieved_fps r)) (num_mem ''achieved_fps'' (achieved_fps r)) @
     only (bnotes r \<noteq> []) (str_mem ''notes'' (bnotes r))"

definition row_members :: "BenchResult \<Rightarrow> member list" where
  "row_members r = row_front r @ row_back r"

definition row_text :: "BenchResult \<Rightarrow> string" where
  "row_text r = ''    { '' @ join (map mem_text (row_members r)) @ '' }''"

lemma row_back_text:
  "join (map mem_text (row_back r)) =
     mem_text (bool_mem ''alloc_gated'' (alloc_gated r)) @
     sep (has_jitter r \<or> dle (Fin 0) (achieved_fps r) \<or> bnotes r \<noteq> []) @
     (if has_jitter r then mem_text (num_mem ''jitter_p99'' (jitter_p99_ns r)) @ sep True else []) @
     (if has_jitter r then mem_text (num_mem ''jitter_max'' (jitter_max_ns r)) @ sep (dle (Fin 0) (achieved_fps r) \<or> bnotes r \<noteq> []) else []) @
     (if dle (Fin 0) (achieved_fps r) then mem_text (num_mem ''achieved_fps'' (achieved_fps r)) @ sep (bnotes r \<noteq> []) else []) @
     (if bnotes r \<noteq> [] then mem_text (str_mem ''notes'' (bnotes r)) @ sep False else [])"
  unfolding row_back_def only_def
  by (cases "has_jitter r"; cases "dle (Fin 0) (achieved_fps r)"; cases "bnotes r = []") simp_all

lemma write_row_text:
  "write_row r is_last out = out @ row_text r @ (if is_last then [newline] else CHR '','' # [newline])"
proof -
  have j: "join (map mem_text (row_members r)) = commas (map mem_text (row_front r)) @ join (map mem_text (row_back r))"
    unfolding row_members_def map_append by (rule join_commas) (simp add: row_back_def)
  show ?thesis
    unfolding row_text_def j row_back_text write_row_def steps_def Let_def fields_text opt_field put_def row_front_def
    by simp
qed

definition row_json :: "BenchResult \<Rightarrow> json" where
  "row_json r = JObj (map mem_json (row_members r))"

definition row_printable :: "BenchResult \<Rightarrow> bool" where
  "row_printable r \<longleftrightarrow>
     (let st = stats r in
      list_all printable [Fin (p50 st), Fin (p99 st), Fin (p999 st), Fin (smax st), Fin (smean st)] \<and>
      \<bar>batch r\<bar> < 2 ^ 31 \<and>
      (has_jitter r \<longrightarrow> printable (jitter_p99_ns r) \<and> printable (jitter_max_ns r)) \<and>
      (dless (Fin 0) (rate_hz r) \<longrightarrow> printable (rate_hz r)) \<and>
      (dle (Fin 0) (achieved_fps r) \<longrightarrow> printable (achieved_fps r)))"

lemma i64_bound: "\<bar>i64 w\<bar> < 10 ^ 30"
  using sint_ge [of w] sint_lt [of w] by (simp add: i64_def)

lemma list_all_only [simp]: "list_all P (only c x) \<longleftrightarrow> (c \<longrightarrow> P x)"
  by (simp add: only_def)

lemma row_members_ok:
  assumes "row_printable r" shows "list_all mem_ok (row_members r)"
proof -
  have p: "printable (Fin (p50 (stats r)))" "printable (Fin (p99 (stats r)))" "printable (Fin (p999 (stats r)))"
    "printable (Fin (smax (stats r)))" "printable (Fin (smean (stats r)))" "\<bar>batch r\<bar> < 10 ^ 30"
    "has_jitter r \<longrightarrow> printable (jitter_p99_ns r) \<and> printable (jitter_max_ns r)"
    "dless (Fin 0) (rate_hz r) \<longrightarrow> printable (rate_hz r)" "dle (Fin 0) (achieved_fps r) \<longrightarrow> printable (achieved_fps r)"
    using assms by (simp_all add: row_printable_def Let_def)
  have k: "list_all plain [''name'', ''layer'', ''group'', ''mode'', ''payload_bytes'', ''contended'', ''unit'', ''rate_hz'',
      ''batch'', ''samples'', ''p50'', ''p99'', ''p999'', ''max'', ''mean'', ''allocations'', ''alloc_gated'',
      ''jitter_p99'', ''jitter_max'', ''achieved_fps'', ''notes'']" by code_simp
  show ?thesis
    using p k i64_bound unfolding row_members_def row_front_def row_back_def Let_def list_all_append list.pred_inject list_all_only
    by (auto simp del: printable.simps)
qed

lemma row_value:
  assumes "row_printable r"
  shows "\<exists>t. row_text r = ''    '' @ t \<and> js_value t (row_json r)"
proof -
  have "js_members (join (map mem_text (row_members r))) (map mem_json (row_members r))"
    using row_members_ok [OF assms] by (rule members_join) (simp add: row_members_def row_back_def)
  then have "js_members ('' '' @ join (map mem_text (row_members r)) @ '' '') (map mem_json (row_members r))"
    by (rule members_ws) simp_all
  from v_obj [OF this] have "js_value (CHR ''{'' # '' '' @ join (map mem_text (row_members r)) @ '' }'') (row_json r)"
    by (simp add: row_json_def)
  then show ?thesis unfolding row_text_def by (intro exI conjI) (assumption | simp)+
qed

text \<open>The text of the rows and what it denotes.\<close>

fun rows_text :: "BenchResult list \<Rightarrow> string" where
  "rows_text [] = []"
| "rows_text [r] = row_text r @ [newline]"
| "rows_text (r # s # rs) = row_text r @ CHR '','' # [newline] @ rows_text (s # rs)"

lemma write_rows_text: "write_rows rs out = out @ rows_text rs"
proof (induction rs arbitrary: out rule: rows_text.induct)
  case (3 r s rs)
  have "write_rows (r # s # rs) out = write_rows (s # rs) (write_row r False out)" by simp
  also have "\<dots> = write_row r False out @ rows_text (s # rs)" by (rule "3.IH")
  finally show ?case by (simp add: write_row_text)
qed (simp_all add: write_row_text)

lemma rows_elements:
  "list_all row_printable rs \<Longrightarrow> rs \<noteq> [] \<Longrightarrow> js_elements (rows_text rs) (map row_json rs)"
proof (induction rs rule: rows_text.induct)
  case (2 r)
  then obtain t where "row_text r = ''    '' @ t" "js_value t (row_json r)" using row_value [of r] by auto
  then show ?case using e_one [of "''    ''" "[newline]" t "row_json r"] by simp
next
  case (3 r s rs)
  then obtain t where t: "row_text r = ''    '' @ t" "js_value t (row_json r)" using row_value [of r] by auto
  have "js_elements (row_text r) [row_json r]" using e_one [of "''    ''" "[]" t "row_json r"] t by simp
  moreover have "js_elements ([newline] @ rows_text (s # rs)) (map row_json (s # rs))"
    using 3 elements_ws [of "rows_text (s # rs)" _ "[newline]" "[]"] by simp
  ultimately show ?case using e_app by fastforce
qed simp

fun failures_text :: "string list \<Rightarrow> string" where
  "failures_text gs = join (map (\<lambda>g. quote # concat (map json_escape_char g) @ [quote]) gs)"

lemma join_Cons: "ms \<noteq> [] \<Longrightarrow> join (m # ms) = m @ '', '' @ join ms"
  by (cases ms) simp_all

lemma write_failures_text:
  "write_failures first gs out =
     out @ (if gs = [] \<or> first then [] else '', '') @ failures_text gs"
proof (induction gs arbitrary: first out)
  case (Cons g gs)
  then show ?case by (cases "gs = []") (simp_all add: JsonEscapeTo_def join_Cons)
qed simp

lemma failures_elements:
  "gs \<noteq> [] \<Longrightarrow> js_elements (failures_text gs) (map (\<lambda>g. JStr (filter kept_char g)) gs)"
proof (induction gs)
  case (Cons g gs)
  have one: "js_elements (quote # concat (map json_escape_char g) @ [quote]) [JStr (filter kept_char g)]"
    using e_one [of "[]" "[]", OF _ _ v_str [OF unescape_escape]] by simp
  show ?case
  proof (cases "gs = []")
    case False
    then have "js_elements ('' '' @ failures_text gs) (map (\<lambda>g. JStr (filter kept_char g)) gs)"
      using Cons.IH elements_ws [of "failures_text gs" _ "'' ''" "[]"] by simp
    from e_app [OF one this] show ?thesis using False by (simp add: join_Cons)
  qed (use one in simp)
qed simp

section \<open>The whole report\<close>

definition hw_members :: "HardwareContext \<Rightarrow> member list" where
  "hw_members hw =
     [str_mem ''cpu_model'' (cpu_model hw), int_mem ''nproc'' (int (nproc hw)), str_mem ''governor'' (governor hw),
      str_mem ''kernel'' (kernel hw), bool_mem ''preempt_rt'' (preempt_rt hw)] @
     only (display hw \<noteq> []) (str_mem ''display'' (display hw)) @ only (gl_renderer hw \<noteq> []) (str_mem ''gl_renderer'' (gl_renderer hw)) @
     [num_mem ''load_avg_1m'' (load_avg_1m hw), num_mem ''load_avg_5m'' (load_avg_5m hw)] @ [num_mem ''load_avg_15m'' (load_avg_15m hw)]"

definition head_members :: "string \<Rightarrow> string \<Rightarrow> bool \<Rightarrow> double \<Rightarrow> member list" where
  "head_members schema stamp smoke scale =
     [str_mem ''schema'' schema, str_mem ''generated_at_utc'' stamp, bool_mem ''smoke'' smoke] @ [num_mem ''scale'' scale]"

definition report_json :: "string \<Rightarrow> string \<Rightarrow> HardwareContext \<Rightarrow> BenchResult list \<Rightarrow> bool \<Rightarrow> double \<Rightarrow> string list \<Rightarrow> json" where
  "report_json schema stamp hw results smoke scale gate_failures =
     JObj (map mem_json (head_members schema stamp smoke scale) @
       [(''hardware'', JObj (map mem_json (hw_members hw))),
        (''alloc_gate'', JObj [(''passed'', JBool (gate_failures = [])),
           (''failures'', JArr (map (\<lambda>g. JStr (filter kept_char g)) gate_failures))]),
        (''benchmarks'', JArr (map row_json results))])"

abbreviation keyed :: "string \<Rightarrow> string \<Rightarrow> string" where
  "keyed k t \<equiv> quote # k @ quote # '': '' @ t"

lemma head_text: "join (map mem_text (head_members schema stamp smoke scale)) =
    commas (map mem_text [str_mem ''schema'' schema, str_mem ''generated_at_utc'' stamp, bool_mem ''smoke'' smoke]) @ mem_text (num_mem ''scale'' scale)"
  unfolding head_members_def map_append by (subst join_commas) simp_all

lemma report_text_shape:
  "report_text schema stamp hw results smoke scale gate_failures =
     CHR ''{'' # ([newline] @ ''  '' @ join (map mem_text (head_members schema stamp smoke scale))) @
     CHR '','' # ([newline] @ ''  '' @ keyed ''hardware'' (CHR ''{'' # ('' '' @ join (map mem_text (hw_members hw)) @ '' '') @ ''}'')) @
     CHR '','' # ([newline] @ ''  '' @ keyed ''alloc_gate'' (CHR ''{'' # ('' '' @ mem_text (bool_mem ''passed'' (gate_failures = [])) @
        CHR '','' # '' '' @ keyed ''failures'' (CHR ''['' # failures_text gate_failures @ '']'') @ '' '') @ ''}'')) @
     CHR '','' # ([newline] @ ''  '' @ keyed ''benchmarks'' (CHR ''['' # ([newline] @ rows_text results @ ''  '') @ '']'')) @
     [newline] @ ''}'' @ [newline]"
proof -
  have hw: "join (map mem_text (hw_members hw)) =
      commas (map mem_text ([str_mem ''cpu_model'' (cpu_model hw), int_mem ''nproc'' (int (nproc hw)), str_mem ''governor'' (governor hw),
      str_mem ''kernel'' (kernel hw), bool_mem ''preempt_rt'' (preempt_rt hw)] @
     only (display hw \<noteq> []) (str_mem ''display'' (display hw)) @ only (gl_renderer hw \<noteq> []) (str_mem ''gl_renderer'' (gl_renderer hw)) @
     [num_mem ''load_avg_1m'' (load_avg_1m hw), num_mem ''load_avg_5m'' (load_avg_5m hw)])) @ mem_text (num_mem ''load_avg_15m'' (load_avg_15m hw))"
    unfolding hw_members_def append_assoc [symmetric] map_append by (subst join_commas) simp_all
  show ?thesis
    unfolding hw head_text report_text_def steps_def fields_text opt_field put_def write_failures_text write_rows_text
    by simp
qed


definition report_printable :: "HardwareContext \<Rightarrow> BenchResult list \<Rightarrow> double \<Rightarrow> bool" where
  "report_printable hw results scale \<longleftrightarrow>
     printable scale \<and> printable (load_avg_1m hw) \<and> printable (load_avg_5m hw) \<and> printable (load_avg_15m hw) \<and>
     nproc hw < 2 ^ 32 \<and> list_all row_printable results"

lemma keyed_member:
  "plain k \<Longrightarrow> js_value t v \<Longrightarrow> ws a \<Longrightarrow> ws b \<Longrightarrow> js_members (a @ keyed k t @ b) [(k, v)]"
  using m_one [of a k k "'' ''" b t v] by (simp add: plain_unescape)

lemma hw_value:
  assumes "report_printable hw results scale"
  shows "js_value (CHR ''{'' # ('' '' @ join (map mem_text (hw_members hw)) @ '' '') @ ''}'') (JObj (map mem_json (hw_members hw)))"
proof -
  have k: "list_all plain [''cpu_model'', ''nproc'', ''governor'', ''kernel'', ''preempt_rt'', ''display'', ''gl_renderer'',
      ''load_avg_1m'', ''load_avg_5m'', ''load_avg_15m'']" by code_simp
  have "list_all mem_ok (hw_members hw)"
    using assms k unfolding hw_members_def report_printable_def list_all_append list.pred_inject list_all_only
    by (auto simp del: printable.simps)
  then have "js_members (join (map mem_text (hw_members hw))) (map mem_json (hw_members hw))"
    by (rule members_join) (simp add: hw_members_def)
  then show ?thesis by (intro v_obj members_ws) simp_all
qed

lemma gate_value:
  "js_value (CHR ''{'' # ('' '' @ mem_text (bool_mem ''passed'' b) @
        CHR '','' # '' '' @ keyed ''failures'' (CHR ''['' # failures_text gs @ '']'') @ '' '') @ ''}'')
     (JObj [(''passed'', JBool b), (''failures'', JArr (map (\<lambda>g. JStr (filter kept_char g)) gs))])"
proof -
  have k: "plain ''passed''" "plain ''failures''" by code_simp+
  have "js_value (CHR ''['' # failures_text gs @ '']'') (JArr (map (\<lambda>g. JStr (filter kept_char g)) gs))"
    using v_nil [of "[]"] v_arr [OF failures_elements [of gs]] by (cases "gs = []") simp_all
  from keyed_member [OF k(2) this, of "'' ''" "'' ''"]
  have f: "js_members ('' '' @ keyed ''failures'' (CHR ''['' # failures_text gs @ '']'') @ '' '')
      [(''failures'', JArr (map (\<lambda>g. JStr (filter kept_char g)) gs))]" by simp
  have "js_members (join (map mem_text [bool_mem ''passed'' b])) (map mem_json [bool_mem ''passed'' b])"
    using k(1) by (intro members_join) simp_all
  then have "js_members ('' '' @ mem_text (bool_mem ''passed'' b) @ []) [(''passed'', JBool b)]"
    by (intro members_ws) (simp_all add: mem_json_def bool_mem_def)
  from v_obj [OF m_app [OF this f]] show ?thesis by simp
qed

lemma rows_value:
  assumes "list_all row_printable results"
  shows "js_value (CHR ''['' # ([newline] @ rows_text results @ ''  '') @ '']'') (JArr (map row_json results))"
proof (cases "results = []")
  case True
  then show ?thesis using v_nil [of "[newline] @ ''  ''"] by simp
next
  case False
  have "js_elements ([newline] @ rows_text results @ ''  '') (map row_json results)"
    using rows_elements [OF assms False] by (rule elements_ws) simp_all
  then show ?thesis by (rule v_arr)
qed

definition sample_row :: BenchResult where
  "sample_row = \<lparr>bname = ''micro/store'', blayer = ''micro'', payload_bytes = 64, contended_row = False, batch = 100,
     stats = \<lparr>p50 = 12, p99 = 15, p999 = 40, smax = 90, smean = 25 / 2, samples = 1000\<rparr>, allocations = 0, alloc_gated = True,
     has_jitter = True, jitter_p99_ns = Fin 3, jitter_max_ns = Fin 8, bgroup = [], bmode = ''paced'', rate_hz = Fin 1000,
     achieved_fps = Fin (- 1), bnotes = []\<rparr>"

definition sample_hw :: HardwareContext where
  "sample_hw = CaptureHardwareContext \<lparr>cpuinfo = Some [''processor : 0'', ''model name : ARM''], scaling_governor = None,
     uname_release_version = Some (''6.1'', ''SMP PREEMPT_RT''), kernel_realtime = None, hardware_concurrency = 8,
     loadavg = None, self_status = None\<rparr>"

section \<open>Properties\<close>

text \<open>
  Property C19. The report is well-formed JSON that says what was measured: for printable numbers
  \<open>report_text\<close>, up to its final newline, denotes the object with the schema, time stamp, flags,
  hardware context, allocation gate and one object per result in order; optional fields appear
  exactly when they are set, with no missing or trailing comma in any combination; strings keep
  their quotes, backslashes, newlines and tabs and lose other control characters; and the file is
  reported as written only when all of the text was.
\<close>

theorem report_is_json:
  assumes "report_printable hw results scale"
  shows "(\<exists>t. report_text schema stamp hw results smoke scale gate_failures = t @ [newline] \<and>
      js_value t (report_json schema stamp hw results smoke scale gate_failures)) \<and>
    (fst (WriteJsonReport fo n fc schema stamp hw results smoke scale gate_failures) \<longrightarrow>
      snd (WriteJsonReport fo n fc schema stamp hw results smoke scale gate_failures) =
        Some (report_text schema stamp hw results smoke scale gate_failures))"
proof
  have k: "plain ''hardware''" "plain ''alloc_gate''" "plain ''benchmarks''"
    "list_all plain [''schema'', ''generated_at_utc'', ''smoke'', ''scale'']" by code_simp+
  have ok: "printable scale" "list_all row_printable results" using assms by (simp_all add: report_printable_def)
  let ?nl = "[newline] @ ''  ''"
  have "list_all mem_ok (head_members schema stamp smoke scale)"
    using ok(1) k(4) unfolding head_members_def list_all_append list.pred_inject by (auto simp del: printable.simps)
  then have "js_members (join (map mem_text (head_members schema stamp smoke scale))) (map mem_json (head_members schema stamp smoke scale))"
    by (rule members_join) (simp add: head_members_def)
  then have h: "js_members (?nl @ join (map mem_text (head_members schema stamp smoke scale)) @ []) (map mem_json (head_members schema stamp smoke scale))"
    by (rule members_ws) simp_all
  have w: "ws ?nl" "ws []" "ws [newline]" by simp_all
  note all = m_app [OF h m_app [OF keyed_member [OF k(1) hw_value [OF assms] w(1,2)]
      m_app [OF keyed_member [OF k(2) gate_value [of "gate_failures = []" gate_failures] w(1,2)]
        keyed_member [OF k(3) rows_value [OF ok(2)] w(1,3)]]]]
  show "\<exists>t. report_text schema stamp hw results smoke scale gate_failures = t @ [newline] \<and>
      js_value t (report_json schema stamp hw results smoke scale gate_failures)"
    by (rule exI, rule conjI [rotated], unfold report_json_def, rule v_obj, use all in simp, unfold report_text_shape, simp)
  show "fst (WriteJsonReport fo n fc schema stamp hw results smoke scale gate_failures) \<longrightarrow>
      snd (WriteJsonReport fo n fc schema stamp hw results smoke scale gate_failures) =
        Some (report_text schema stamp hw results smoke scale gate_failures)"
    by (auto simp: WriteJsonReport_def Let_def min_def split: if_splits)
qed

theorem report_is_json_witness:
  "\<exists>t. report_text ''v1'' ''now'' sample_hw [sample_row, sample_row] False (Fin 1) [''a''] = t @ [newline] \<and>
     js_value t (report_json ''v1'' ''now'' sample_hw [sample_row, sample_row] False (Fin 1) [''a''])"
proof -
  have "nproc sample_hw = 8" "load_avg_1m sample_hw = Fin (- 1)" "load_avg_5m sample_hw = Fin (- 1)"
    "load_avg_15m sample_hw = Fin (- 1)" by code_simp+
  then have "report_printable sample_hw [sample_row, sample_row] (Fin 1)"
    by (simp add: report_printable_def row_printable_def sample_row_def dle_def)
  from report_is_json [OF this] show ?thesis by blast
qed

end
