(* ===== verification/Bench_Program.thy ===== *)
theory Bench_Program
  imports Bench_Harness Message_Cells Spsc_Queue Event_Count
begin

text \<open>
  The benchmark program \<open>bench/xmbase_bench.cpp\<close>: its command line, the filter and the scaling, the
  rows (each a loop over one of the primitives, measured by the harness), the allocation gate and the
  exit code. What executing one operation does to the clock and to the allocation counters is a
  parameter of the machine, per row; the operations themselves are those of the component theories.
\<close>

section \<open>State\<close>

record Machine =
  m_rnd :: "rat \<Rightarrow> rat"
  m_cost :: "string \<Rightarrow> AllocState \<times> int \<Rightarrow> AllocState \<times> int"

text \<open>The globals, the probed thread's counters and clock, and what was printed.\<close>

record Prog =
  g_scale :: rat
  g_smoke :: bool
  g_filter :: string
  g_results :: "BenchResult list"
  g_gate_failures :: "string list"
  heap :: AllocState
  wall :: int
  stdout_text :: string

definition Enabled :: "string \<Rightarrow> Prog \<Rightarrow> bool" where
  "Enabled name g \<longleftrightarrow> g_filter g = [] \<or> contains (g_filter g) name"

text \<open>\<open>None\<close>: the product is outside \<open>int\<close>, where the conversion is undefined.\<close>

definition ScaledSamples :: "Machine \<Rightarrow> int \<Rightarrow> int \<Rightarrow> Prog \<Rightarrow> int option" where
  "ScaledSamples M n floor_samples g =
     (let q = m_rnd M (of_int n * g_scale g);
          scaled = (if q < 0 then \<lceil>q\<rceil> else \<lfloor>q\<rfloor>)
      in if scaled < - (2 ^ 31) \<or> 2 ^ 31 \<le> scaled then None
         else Some (if scaled < floor_samples then floor_samples else scaled))"

definition say :: "string \<Rightarrow> Prog \<Rightarrow> Prog" where
  "say s g = g\<lparr>stdout_text := stdout_text g @ s\<rparr>"

definition ns_column :: "int \<Rightarrow> rat \<Rightarrow> string" where
  "ns_column w q = pad_to w CHR '' '' (fixed1 (Fin q))"

definition row_line :: "BenchResult \<Rightarrow> string" where
  "row_line r =
     pad_right 40 (cstr (bname r)) @ '' p50 '' @ ns_column 9 (p50 (stats r)) @ ''  p99 '' @ ns_column 9 (p99 (stats r)) @
     ''  p99.9 '' @ ns_column 9 (p999 (stats r)) @ ''  max '' @ ns_column 10 (smax (stats r)) @ '' ns  (n='' @
     digits 10 False (samples (stats r)) @ (if 1 < batch r then '', batched'' else []) @ '', alloc='' @
     digits 10 False (unat (allocations r)) @ (if alloc_gated r then '' gated'' else []) @ '')'' @ [newline]"

definition gate_failure :: "BenchResult \<Rightarrow> string" where
  "gate_failure r = bname r @ '': '' @ digits 10 False (unat (allocations r)) @ '' allocation(s) in the measured section''"

definition Record :: "BenchResult \<Rightarrow> Prog \<Rightarrow> Prog" where
  "Record r g =
     (let g1 = (if alloc_gated r \<and> allocations r \<noteq> 0
                then g\<lparr>g_gate_failures := g_gate_failures g @ [gate_failure r]\<rparr> else g)
      in (say (row_line r) g1)\<lparr>g_results := g_results g1 @ [r]\<rparr>)"

section \<open>Rows\<close>

definition kBatch :: int where
  "kBatch = 256"

definition BenchResult_init :: BenchResult where
  "BenchResult_init =
     \<lparr>bname = [], blayer = [], payload_bytes = 0, contended_row = False, batch = 1, stats = Stats_zero, allocations = 0,
      alloc_gated = False, has_jitter = False, jitter_p99_ns = Fin 0, jitter_max_ns = Fin 0, bgroup = [], bmode = [],
      rate_hz = Fin 0, achieved_fps = Fin (- 1), bnotes = []\<rparr>"

definition gated_row :: "string \<Rightarrow> string \<Rightarrow> nat \<Rightarrow> int \<Rightarrow> BenchResult" where
  "gated_row name layer bytes ops =
     BenchResult_init\<lparr>bname := name, blayer := layer, payload_bytes := bytes, batch := ops, alloc_gated := True\<rparr>"

text \<open>One execution of the measured lambda on the local objects; \<open>None\<close> is an operation that does not
  return.\<close>

definition run_op :: "(AllocState \<times> int \<Rightarrow> AllocState \<times> int) \<Rightarrow> ('s \<Rightarrow> 's option) \<Rightarrow> 's option Bench \<Rightarrow> 's option Bench" where
  "run_op cost f st =
     (let (a, t) = cost (alloc st, clk st) in st\<lparr>alloc := a, clk := t, user := Option.bind (user st) f\<rparr>)"

text \<open>What every row function does after its early return: measure, annotate, record.\<close>

definition measure_row :: "Machine \<Rightarrow> BenchResult \<Rightarrow> int \<Rightarrow> ('s \<Rightarrow> 's option) \<Rightarrow> 's \<Rightarrow> ('s \<Rightarrow> string) \<Rightarrow> Prog \<Rightarrow> Prog option" where
  "measure_row M r n f init notes_of g =
     (case ScaledSamples M n 50 g of
        None \<Rightarrow> None
      | Some k \<Rightarrow>
          (case MeasureBatched (m_rnd M) (run_op (m_cost M (bname r)) f) (batch r) k
                  \<lparr>alloc = heap g, clk = wall g, user = Some init\<rparr> of
             None \<Rightarrow> None
           | Some (s, allocs, st) \<Rightarrow>
               (case user st of
                  None \<Rightarrow> None
                | Some x \<Rightarrow> Some (Record (r\<lparr>stats := s, allocations := allocs, bnotes := notes_of x\<rparr>)
                              (g\<lparr>heap := alloc st, wall := clk st\<rparr>)))))"

definition if_enabled :: "string \<Rightarrow> (Prog \<Rightarrow> Prog option) \<Rightarrow> Prog \<Rightarrow> Prog option" where
  "if_enabled name f g = (if \<not> Enabled name g then Some g else f g)"

text \<open>The words of a \<open>Payload<kBytes>\<close>.\<close>

definition Payload :: "nat \<Rightarrow> u64 list" where
  "Payload kBytes = replicate (kBytes div 8) 0"

definition bump0 :: "u64 list \<Rightarrow> u64 list" where
  "bump0 ws = ws[0 := ws ! 0 + 1]"

definition bytes_name :: "string \<Rightarrow> nat \<Rightarrow> string" where
  "bytes_name stem kBytes = stem @ digits 10 False kBytes @ ''B''"

definition BenchLatestStore :: "Machine \<Rightarrow> nat \<Rightarrow> Prog \<Rightarrow> Prog option" where
  "BenchLatestStore M kBytes =
     (let name = bytes_name ''micro/latest_store/'' kBytes in
      if_enabled name (measure_row M (gated_row name ''micro'' kBytes kBatch) 400
        (\<lambda>(slot, value). let v = bump0 value in Some (MessageSlot_Store (object_bytes v) slot, v))
        (MessageSlot_ctor kBytes, (Payload kBytes)[0 := 1]) (\<lambda>_. [])))"

definition BenchLatestLoad :: "Machine \<Rightarrow> nat \<Rightarrow> Prog \<Rightarrow> Prog option" where
  "BenchLatestLoad M kBytes =
     (let name = bytes_name ''micro/latest_load/'' kBytes;
          slot = MessageSlot_Store (object_bytes ((Payload kBytes)[0 := 7])) (MessageSlot_ctor kBytes) in
      if_enabled name (measure_row M (gated_row name ''micro'' kBytes kBatch) 400
        (\<lambda>(out, sink). case MessageSlot_Load slot of
           None \<Rightarrow> None
         | Some got \<Rightarrow> let o' = (case got of None \<Rightarrow> out | Some v \<Rightarrow> v) in Some (o', sink + u64_of_bytes (take 8 o')))
        (object_bytes (Payload kBytes), 0) (\<lambda>(out, sink). if sink = 0 then ''sink zero (unexpected)'' else [])))"

definition BenchQueuePushPop :: "Machine \<Rightarrow> nat \<Rightarrow> Prog \<Rightarrow> Prog option" where
  "BenchQueuePushPop M kBytes =
     (let name = bytes_name ''micro/queue_push_pop/'' kBytes;
          placed = \<lparr>capacity = 0, head = 0, tail = 0, qcells = []\<rparr> in
      if_enabled name (measure_row M (gated_row name ''micro'' kBytes kBatch) 400
        (\<lambda>(q, value, out). let v = bump0 value; (pushed, q1) = TryPush v q; (got, q2) = TryPop q1
           in Some (q2, v, (case got of None \<Rightarrow> out | Some x \<Rightarrow> x)))
        (SpscQueue_ctor (Payload kBytes) 16 True placed, Payload kBytes, Payload kBytes) (\<lambda>_. [])))"

definition BenchMutexLatestStoreLoad :: "Machine \<Rightarrow> Prog \<Rightarrow> Prog option" where
  "BenchMutexLatestStoreLoad M =
     (let name = ''micro/mutex_latest_store_load/64B'' in
      if_enabled name (measure_row M (gated_row name ''micro'' 64 kBatch) 400
        (\<lambda>(slot, value, out). let v = bump0 value; s1 = MutexMessageSlot_Store v slot
           in Some (s1, v, (case MutexMessageSlot_Load s1 of None \<Rightarrow> out | Some x \<Rightarrow> x)))
        (MutexMessageSlot_ctor (Payload 64), Payload 64, Payload 64) (\<lambda>_. [])))"

text \<open>\<open>NotifyAll\<close> by notifier 0, with no waiters: increment, wake.\<close>

definition BenchWaiterNotifyUncontended :: "Machine \<Rightarrow> Prog \<Rightarrow> Prog option" where
  "BenchWaiterNotifyUncontended M =
     (let name = ''micro/futex_notify_all_uncontended'' in
      if_enabled name (measure_row M (gated_row name ''micro'' 0 64) 200
        (\<lambda>s. Some (notifier_step 0 (notifier_step 0 (s\<lparr>notifiers := (notifiers s)(0 := NAdd)\<rparr>))))
        futex_start (\<lambda>_. [])))"

definition BenchBufferStore :: "Machine \<Rightarrow> nat \<Rightarrow> Prog \<Rightarrow> Prog option" where
  "BenchBufferStore M kDepth =
     (let name = ''micro/message_buffer_store/64B/N'' @ digits 10 False kDepth in
      if_enabled name (measure_row M (gated_row name ''micro'' 64 kBatch) 400
        (\<lambda>(hist, value). let v = bump0 value in Some (MessageBuffer_Store (object_bytes v) hist, v))
        (MessageBuffer_ctor kDepth 64, (Payload 64)[0 := 1]) (\<lambda>_. [])))"

definition filled_buffer :: MessageBuffer where
  "filled_buffer = fold MessageBuffer_Store (map (\<lambda>i. object_bytes ((Payload 64)[0 := of_nat i])) [1..<17]) (MessageBuffer_ctor 16 64)"

definition BenchBufferSnapshot :: "Machine \<Rightarrow> Prog \<Rightarrow> Prog option" where
  "BenchBufferSnapshot M =
     (let name = ''micro/message_buffer_snapshot/64B/N16/k8'' in
      if_enabled name (measure_row M (gated_row name ''micro'' 64 kBatch) 400
        (\<lambda>sink. Some (sink + of_nat (length (MessageBuffer_Snapshot filled_buffer 8))))
        (0 :: u64) (\<lambda>sink. if sink = 0 then ''sink zero (unexpected)'' else [])))"

text \<open>The writer's part. The two reader threads only read the slot until they are stopped and joined, and are left out.\<close>

definition BenchLatestStoreContended :: "Machine \<Rightarrow> nat \<Rightarrow> Prog \<Rightarrow> Prog option" where
  "BenchLatestStoreContended M kBytes =
     (let name = bytes_name ''contended/latest_store_2readers/'' kBytes; value0 = (Payload kBytes)[0 := 1] in
      if_enabled name (measure_row M ((gated_row name ''contended'' kBytes kBatch)\<lparr>contended_row := True\<rparr>) 400
        (\<lambda>(slot, value). let v = bump0 value in Some (MessageSlot_Store (object_bytes v) slot, v))
        (MessageSlot_Store (object_bytes value0) (MessageSlot_ctor kBytes), value0) (\<lambda>_. [])))"

section \<open>The program\<close>

record Options =
  out_path :: string
  o_smoke :: bool
  o_filter :: string

fun parse_args :: "string list \<Rightarrow> Options \<Rightarrow> Options option" where
  "parse_args [] o' = Some o'"
| "parse_args (a # rest) o' =
     (if a = ''--smoke'' then parse_args rest (o'\<lparr>o_smoke := True\<rparr>)
      else (case rest of
              [] \<Rightarrow> None
            | v # rest' \<Rightarrow>
                if a = ''--out'' then parse_args rest' (o'\<lparr>out_path := v\<rparr>)
                else if a = ''--filter'' then parse_args rest' (o'\<lparr>o_filter := v\<rparr>)
                else None))"

definition default_options :: Options where
  "default_options = \<lparr>out_path = ''xmbase_bench_report.json'', o_smoke = False, o_filter = []\<rparr>"

definition bench_rows :: "Machine \<Rightarrow> (Prog \<Rightarrow> Prog option) list" where
  "bench_rows M =
     [BenchLatestStore M 16, BenchLatestStore M 64, BenchLatestStore M 256, BenchLatestLoad M 64,
      BenchBufferStore M 1, BenchBufferStore M 4, BenchBufferStore M 16, BenchBufferSnapshot M,
      BenchQueuePushPop M 64, BenchQueuePushPop M 256, BenchMutexLatestStoreLoad M, BenchWaiterNotifyUncontended M,
      BenchLatestStoreContended M 64]"

definition run_rows :: "(Prog \<Rightarrow> Prog option) list \<Rightarrow> Prog \<Rightarrow> Prog option" where
  "run_rows fs g = foldl Option.bind (Some g) fs"

text \<open>How the process ends: exit code, the text on \<open>stderr\<close>, the report file, the final globals.\<close>

record Outcome =
  exit_code :: int
  stderr_text :: string
  report_file :: "(string \<times> string) option"
  final :: Prog

definition em_dash :: string where
  "em_dash = [CHR 0xE2, CHR 0x80, CHR 0x94]"

definition banner :: "HardwareContext \<Rightarrow> bool \<Rightarrow> string" where
  "banner hw smoke =
     ''xmbase_bench '' @ em_dash @ '' primitive numbers ('' @ (if smoke then ''smoke'' else ''full'') @ '')'' @ [newline] @
     ''  cpu      : '' @ cstr (cpu_model hw) @ '' (nproc '' @ digits 10 False (nproc hw) @ '', governor '' @ cstr (governor hw) @ '')'' @ [newline] @
     ''  kernel   : '' @ cstr (kernel hw) @ (if preempt_rt hw then '' PREEMPT_RT'' else []) @ [newline, newline]"

text \<open>After the rows: the report, then the gate. \<open>files path\<close> is what opening the report and writing to it
  delivers: whether it can be opened, how many bytes are written, and whether closing succeeds.\<close>

definition conclude :: "(string \<Rightarrow> bool \<times> nat \<times> bool) \<Rightarrow> string \<Rightarrow> HardwareContext \<Rightarrow> string \<Rightarrow> Prog \<Rightarrow> Outcome" where
  "conclude files stamp hw path g =
     (let (can_open, bytes, closes) = files path;
          (written, file) = WriteJsonReport can_open bytes closes ''xmbase-bench-v1'' stamp hw (g_results g) (g_smoke g)
             (Fin (g_scale g)) (g_gate_failures g);
          report = map_option (Pair path) file;
          g' = say ([newline] @ ''report: '' @ cstr path @ [newline]) g
      in if \<not> written
         then \<lparr>exit_code = 1, stderr_text = ''xmbase_bench: failed to write '' @ cstr path @ [newline], report_file = report, final = g\<rparr>
         else if g_gate_failures g' \<noteq> []
         then \<lparr>exit_code = 1,
               stderr_text = [newline] @ ''ALLOC GATE FAILED:'' @ [newline] @ concat (map (\<lambda>f. ''  '' @ cstr f @ [newline]) (g_gate_failures g')),
               report_file = report, final = g'\<rparr>
         else \<lparr>exit_code = 0, stderr_text = [], report_file = report, final = g'\<rparr>)"

definition configure :: "Machine \<Rightarrow> Options \<Rightarrow> Prog \<Rightarrow> Prog" where
  "configure M opts g =
     g\<lparr>g_smoke := o_smoke opts, g_scale := (if o_smoke opts then m_rnd M (15 / 100) else g_scale g), g_filter := o_filter opts\<rparr>"

definition bench_main :: "Machine \<Rightarrow> Host \<Rightarrow> (string \<Rightarrow> bool \<times> nat \<times> bool) \<Rightarrow> string \<Rightarrow> string \<Rightarrow> string list \<Rightarrow> Prog \<Rightarrow> Outcome option" where
  "bench_main M host files stamp argv0 args g0 =
     (case parse_args args default_options of
        None \<Rightarrow> Some \<lparr>exit_code = 2,
                  stderr_text = ''usage: '' @ argv0 @ '' [--out <report.json>] [--smoke] [--filter <substr>]'' @ [newline],
                  report_file = None, final = g0\<rparr>
      | Some opts \<Rightarrow>
          (let hw = CaptureHardwareContext host
           in map_option (conclude files stamp hw (out_path opts))
                (run_rows (bench_rows M) (say (banner hw (o_smoke opts)) (configure M opts g0)))))"

section \<open>One row\<close>

text \<open>A rounding to nearest double: monotone, and exact on the integers up to \<open>2 ^ 53\<close>.\<close>

definition sane_rounding :: "(rat \<Rightarrow> rat) \<Rightarrow> bool" where
  "sane_rounding rnd \<longleftrightarrow> mono rnd \<and> (\<forall>i :: int. \<bar>i\<bar> \<le> 2 ^ 53 \<longrightarrow> rnd (of_int i) = of_int i)"

definition scale_ok :: "Prog \<Rightarrow> bool" where
  "scale_ok g \<longleftrightarrow> 0 \<le> g_scale g \<and> g_scale g \<le> 1"

lemma rounding_between:
  assumes "sane_rounding rnd" "0 \<le> q" "q \<le> of_int n" "n \<le> 2 ^ 53"
  shows "0 \<le> rnd q" "rnd q \<le> of_int n"
proof -
  have "0 \<le> n" using assms(2,3) by (metis of_int_0_le_iff order_trans)
  then have "rnd 0 = 0" "rnd (of_int n) = of_int n" using assms(1,4) unfolding sane_rounding_def
    by (metis abs_zero of_int_0 zero_le_numeral zero_le_power, simp)
  then show "0 \<le> rnd q" "rnd q \<le> of_int n"
    using assms(1-3) unfolding sane_rounding_def by (metis monoD)+
qed

lemma scaled_samples:
  assumes "sane_rounding (m_rnd M)" "scale_ok g" "0 \<le> n" "n < 2 ^ 31"
  shows "\<exists>k. ScaledSamples M n 50 g = Some k \<and> 50 \<le> k \<and> k \<le> max 50 n"
proof -
  let ?q = "m_rnd M (of_int n * g_scale g)"
  have "of_int n * g_scale g \<le> of_int n * 1" using assms(2,3) by (intro mult_left_mono) (auto simp: scale_ok_def)
  moreover have "0 \<le> of_int n * g_scale g" "n \<le> 2 ^ 53" using assms(2-4) by (simp_all add: scale_ok_def)
  ultimately have q: "0 \<le> ?q" "?q \<le> of_int n" using rounding_between [OF assms(1)] by simp_all
  then have f: "0 \<le> \<lfloor>?q\<rfloor>" "\<lfloor>?q\<rfloor> \<le> n" by (simp, metis floor_mono floor_of_int)
  then show ?thesis using q assms(4) by (auto simp: ScaledSamples_def Let_def)
qed

lemma run_op_allocates:
  assumes "\<And>a t. fst (cost (a, t)) = (count_one ^^ k) a"
  shows "allocates k (run_op cost f)"
  using assms by (auto simp: allocates_def run_op_def Let_def case_prod_unfold)

text \<open>\<open>J i\<close> holds of the local objects after \<open>i\<close> executions.\<close>

definition stepwise :: "(nat \<Rightarrow> 's \<Rightarrow> bool) \<Rightarrow> ('s \<Rightarrow> 's option) \<Rightarrow> bool" where
  "stepwise J f \<longleftrightarrow> (\<forall>i s. J i s \<longrightarrow> (\<exists>s'. f s = Some s' \<and> J (Suc i) s'))"

lemma run_op_power:
  assumes "stepwise J f" "user st = Some s" "J i s"
  shows "\<exists>s'. user ((run_op cost f ^^ m) st) = Some s' \<and> J (i + m) s'"
proof (induction m)
  case 0
  then show ?case using assms by auto
next
  case (Suc m)
  then show ?case using assms(1) by (auto simp: stepwise_def run_op_def Let_def case_prod_unfold)
qed

lemma sample_loop_user:
  assumes "stepwise J f" "user st = Some s" "J i s"
  shows "\<exists>s'. user (snd (sample_loop rnd (run_op cost f) m n st)) = Some s' \<and> J (i + n * m) s'"
  using assms(2,3)
proof (induction n arbitrary: st s i)
  case (Suc n)
  obtain s1 where "user ((run_op cost f ^^ m) st) = Some s1" "J (i + m) s1"
    using run_op_power [OF assms(1) Suc.prems] by blast
  from Suc.IH [OF this] show ?case by (simp add: Let_def case_prod_unfold add.assoc)
qed simp

lemma measured_user:
  assumes "stepwise J f" "J 0 init" "MeasureBatched rnd (run_op cost f) b n \<lparr>alloc = h, clk = t, user = Some init\<rparr> = Some (s, a, st)"
  shows "\<exists>x. user st = Some x \<and> J (nat (b * 4) + nat n * nat b) x"
proof -
  let ?st = "\<lparr>alloc = h, clk = t, user = Some init\<rparr>"
  let ?s1 = "(run_op cost f ^^ nat (b * 4)) ?st"
  obtain s1 where s1: "user ?s1 = Some s1" "J (0 + nat (b * 4)) s1"
    using run_op_power [OF assms(1), of ?st init 0] assms(2) by auto
  then have "user (?s1\<lparr>alloc := AllocProbe_ctor (alloc ?s1)\<rparr>) = Some s1" by simp
  from sample_loop_user [OF assms(1) this s1(2), of rnd cost "nat b" "nat n"] show ?thesis
    using assms(3) by (auto simp: MeasureBatched_def Let_def case_prod_unfold split: if_splits)
qed

lemma measured_row:
  assumes "ScaledSamples M n 50 g = Some k" "50 \<le> k" "0 < batch r" "batch r * 4 < 2 ^ 31"
    and "\<And>a t. fst (m_cost M (bname r) (a, t)) = (count_one ^^ c) a" "stepwise J f" "J 0 init"
  shows "\<exists>s x h w. measure_row M r n f init notes_of g =
       Some (Record (r\<lparr>stats := s, allocations := of_nat (nat k * (nat (batch r) * c)), bnotes := notes_of x\<rparr>) (g\<lparr>heap := h, wall := w\<rparr>)) \<and>
     J (nat (batch r * 4) + nat k * nat (batch r)) x"
proof -
  let ?st = "\<lparr>alloc = heap g, clk = wall g, user = Some init\<rparr>"
  obtain s st where m: "MeasureBatched (m_rnd M) (run_op (m_cost M (bname r)) f) (batch r) k ?st =
      Some (s, of_nat (nat k * (nat (batch r) * c)), st)"
    using measured_allocs [OF run_op_allocates [OF assms(5)] assms(3,4), of k] assms(2) by fastforce
  obtain x where "user st = Some x" "J (nat (batch r * 4) + nat k * nat (batch r)) x"
    using measured_user [OF assms(6,7) m] by blast
  then show ?thesis using m assms(1) by (auto simp: measure_row_def)
qed

section \<open>All rows\<close>

text \<open>Executing the operation of row \<open>nm\<close> once allocates \<open>k nm\<close> times.\<close>

definition charges :: "Machine \<Rightarrow> (string \<Rightarrow> nat) \<Rightarrow> bool" where
  "charges M k \<longleftrightarrow> (\<forall>nm a t. fst (m_cost M nm (a, t)) = (count_one ^^ k nm) a) \<and> (\<forall>nm. k nm < 2 ^ 32)"

text \<open>What a row function does: nothing when it is filtered out, else it records one gated row of its
  name without a note, whose allocation count is zero exactly when its operation does not allocate.\<close>

definition row_does :: "(string \<Rightarrow> nat) \<Rightarrow> (Prog \<Rightarrow> Prog option) \<Rightarrow> string \<Rightarrow> bool" where
  "row_does k F nm \<longleftrightarrow> (\<forall>g. scale_ok g \<longrightarrow>
     (\<not> Enabled nm g \<longrightarrow> F g = Some g) \<and>
     (Enabled nm g \<longrightarrow> (\<exists>r h w. F g = Some (Record r (g\<lparr>heap := h, wall := w\<rparr>)) \<and> bname r = nm \<and> alloc_gated r \<and>
        bnotes r = [] \<and> (allocations r = 0 \<longleftrightarrow> k nm = 0))))"

lemma of_nat_u64_zero_iff: "n < 2 ^ 64 \<Longrightarrow> (of_nat n :: u64) = 0 \<longleftrightarrow> n = 0"
  using unat_of_nat_u64 [of n] by (simp add: word_unat_eq_iff)

lemma counted_zero_iff:
  assumes "50 \<le> k" "k \<le> 400" "0 < b" "b \<le> 256" "c < 2 ^ 32"
  shows "(of_nat (nat k * (nat b * c)) :: u64) = 0 \<longleftrightarrow> c = 0"
proof -
  have "nat k * (nat b * c) \<le> 400 * (256 * 2 ^ 32)" using assms by (intro mult_mono) auto
  then show ?thesis using assms by (subst of_nat_u64_zero_iff) auto
qed

lemma row_doesI:
  assumes M: "sane_rounding (m_rnd M)" "charges M k" and n: "0 \<le> n" "n \<le> 400"
    and r: "bname r = nm" "alloc_gated r" "0 < batch r" "batch r \<le> 256"
    and J: "stepwise J f" "J 0 init"
    and quiet: "\<And>m x. 50 * nat (batch r) \<le> m \<Longrightarrow> m \<le> 404 * 256 \<Longrightarrow> J m x \<Longrightarrow> notes_of x = []"
  shows "row_does k (if_enabled nm (measure_row M r n f init notes_of)) nm"
  unfolding row_does_def
proof (intro allI impI conjI)
  fix g assume g: "scale_ok g"
  show "if_enabled nm (measure_row M r n f init notes_of) g = Some g" if "\<not> Enabled nm g"
    using that by (simp add: if_enabled_def)
  assume e: "Enabled nm g"
  obtain s where s: "ScaledSamples M n 50 g = Some s" "50 \<le> s" "s \<le> 400" using scaled_samples [OF M(1) g n(1)] n by auto
  have cost: "\<And>a t. fst (m_cost M (bname r) (a, t)) = (count_one ^^ k nm) a" using M(2) r(1) by (simp add: charges_def)
  have b: "batch r * 4 < 2 ^ 31" using r(4) by simp
  obtain st x h w where row: "measure_row M r n f init notes_of g =
       Some (Record (r\<lparr>stats := st, allocations := of_nat (nat s * (nat (batch r) * k nm)), bnotes := notes_of x\<rparr>) (g\<lparr>heap := h, wall := w\<rparr>))"
      "J (nat (batch r * 4) + nat s * nat (batch r)) x"
    using measured_row [OF s(1,2) r(3) b cost J] by blast
  have "50 * nat (batch r) \<le> nat s * nat (batch r)" using s(2) by (intro mult_right_mono) auto
  moreover have "nat s * nat (batch r) \<le> 400 * 256" using s r by (intro mult_mono) auto
  ultimately have "notes_of x = []"
    using row(2) r(4) by (intro quiet [of "nat (batch r * 4) + nat s * nat (batch r)"]) linarith+
  moreover have "(of_nat (nat s * (nat (batch r) * k nm)) :: u64) = 0 \<longleftrightarrow> k nm = 0"
    using s r M(2) by (intro counted_zero_iff) (auto simp: charges_def)
  ultimately show "\<exists>r' h w. if_enabled nm (measure_row M r n f init notes_of) g = Some (Record r' (g\<lparr>heap := h, wall := w\<rparr>)) \<and>
      bname r' = nm \<and> alloc_gated r' \<and> bnotes r' = [] \<and> (allocations r' = 0 \<longleftrightarrow> k nm = 0)"
    using row(1) e r(1,2)
    by (intro exI [of _ "r\<lparr>stats := st, allocations := of_nat (nat s * (nat (batch r) * k nm)), bnotes := notes_of x\<rparr>"]
        exI [of _ h] exI [of _ w] conjI) (simp_all add: if_enabled_def)
qed

text \<open>A row whose operation always returns and that makes no notes.\<close>

lemma plain_row:
  assumes "sane_rounding (m_rnd M)" "charges M k" "0 \<le> n" "n \<le> 400"
    and "bname r = nm" "alloc_gated r" "0 < batch r" "batch r \<le> 256" "\<And>s. \<exists>s'. f s = Some s'"
  shows "row_does k (if_enabled nm (measure_row M r n f init (\<lambda>_. []))) nm"
  using assms(9) by (intro row_doesI [OF assms(1-8), where J = "\<lambda>_ _. True"]) (auto simp: stepwise_def)

lemma gated_row_sel [simp]:
  "bname (gated_row nm layer bytes ops) = nm" "alloc_gated (gated_row nm layer bytes ops)" "batch (gated_row nm layer bytes ops) = ops"
  by (simp_all add: gated_row_def)

text \<open>A row that adds \<open>d\<close> to its sink in every operation ends with a sink that is not zero.\<close>

lemma sink_nonzero:
  assumes "50 * nat b \<le> m" "m \<le> 404 * 256" "0 < b" "0 < d" "d \<le> 8"
  shows "(of_nat (m * d) :: u64) \<noteq> 0"
proof -
  have "m * d \<le> 404 * 256 * 8" using assms by (intro mult_mono) auto
  moreover have "0 < m" using assms(1,3) by (metis mult_pos_pos order_less_le_trans zero_less_nat_eq zero_less_numeral)
  ultimately show ?thesis using assms(4) by (subst of_nat_u64_zero_iff) auto
qed

lemma length_Payload [simp]: "length (Payload kBytes) = kBytes div 8"
  by (simp add: Payload_def)

lemma first_word: "ws \<noteq> [] \<Longrightarrow> u64_of_bytes (take 8 (object_bytes ws)) = ws ! 0"
  using word_at_object [of 0 ws] by (simp add: word_at_def)

lemma load_row:
  assumes "sane_rounding (m_rnd M)" "charges M k"
  shows "row_does k (BenchLatestLoad M 64) (bytes_name ''micro/latest_load/'' 64)"
proof -
  let ?v = "object_bytes ((Payload 64)[0 := 7])"
  have r: "slot_repr (MessageSlot_ctor 64) []" by (simp add: slot_repr_def MessageSlot_ctor_def ring_holds_fresh)
  have "MessageSlot_Load (MessageSlot_Store ?v (MessageSlot_ctor 64)) = Some (Some ?v)"
    using slot.latest_after [OF r, of "[?v]"] by (simp add: slot_fits_def MessageSlot_ctor_def)
  moreover have "u64_of_bytes (take 8 ?v) = 7" by (subst first_word) (simp_all add: Payload_def)
  moreover have nz: "(of_nat m :: u64) * 7 = 0 \<Longrightarrow> 12800 \<le> m \<Longrightarrow> m \<le> 103424 \<Longrightarrow> False" for m
    using sink_nonzero [of 256 m 7] by simp
  ultimately show ?thesis
    unfolding BenchLatestLoad_def Let_def
    by (intro row_doesI [OF assms, where J = "\<lambda>m (out, sink). sink = of_nat (m * 7)"])
      (auto simp: kBatch_def stepwise_def algebra_simps dest: nz)
qed

lemma snapshot_row:
  assumes "sane_rounding (m_rnd M)" "charges M k"
  shows "row_does k (BenchBufferSnapshot M) ''micro/message_buffer_snapshot/64B/N16/k8''"
proof -
  let ?vs = "map (\<lambda>i. object_bytes ((Payload 64)[0 := of_nat i])) [1..<17]"
  have "MessageBuffer_Snapshot filled_buffer 8 = take (min 8 (MessageBuffer_capacity (MessageBuffer_ctor 16 64))) (rev ?vs @ rev [])"
    unfolding filled_buffer_def
    by (rule buffer.snap_after [OF buffer_ctor_repr]) (auto simp: buffer_fits_def MessageBuffer_ctor_def)
  then have "length (MessageBuffer_Snapshot filled_buffer 8) = 8" by (simp add: MessageBuffer_capacity_def MessageBuffer_ctor_def)
  moreover have nz: "(of_nat m :: u64) * 8 = 0 \<Longrightarrow> 12800 \<le> m \<Longrightarrow> m \<le> 103424 \<Longrightarrow> False" for m
    using sink_nonzero [of 256 m 8] by simp
  ultimately show ?thesis
    unfolding BenchBufferSnapshot_def Let_def
    by (intro row_doesI [OF assms, where J = "\<lambda>m sink. sink = of_nat (m * 8)"])
      (auto simp: kBatch_def stepwise_def algebra_simps dest: nz)
qed

definition row_names :: "string list" where
  "row_names =
     [bytes_name ''micro/latest_store/'' 16, bytes_name ''micro/latest_store/'' 64, bytes_name ''micro/latest_store/'' 256,
      bytes_name ''micro/latest_load/'' 64, ''micro/message_buffer_store/64B/N'' @ digits 10 False 1,
      ''micro/message_buffer_store/64B/N'' @ digits 10 False 4, ''micro/message_buffer_store/64B/N'' @ digits 10 False 16,
      ''micro/message_buffer_snapshot/64B/N16/k8'', bytes_name ''micro/queue_push_pop/'' 64,
      bytes_name ''micro/queue_push_pop/'' 256, ''micro/mutex_latest_store_load/64B'', ''micro/futex_notify_all_uncontended'',
      bytes_name ''contended/latest_store_2readers/'' 64]"

lemma all_rows:
  assumes "sane_rounding (m_rnd M)" "charges M k"
  shows "list_all2 (row_does k) (bench_rows M) row_names"
proof -
  note plain = plain_row [OF assms]
  have "row_does k (BenchLatestStore M b) (bytes_name ''micro/latest_store/'' b)" for b
    unfolding BenchLatestStore_def Let_def by (intro plain) (auto simp: kBatch_def)
  moreover have "row_does k (BenchBufferStore M b) (''micro/message_buffer_store/64B/N'' @ digits 10 False b)" for b
    unfolding BenchBufferStore_def Let_def by (intro plain) (auto simp: kBatch_def)
  moreover have "row_does k (BenchQueuePushPop M b) (bytes_name ''micro/queue_push_pop/'' b)" for b
    unfolding BenchQueuePushPop_def Let_def by (intro plain) (auto simp: kBatch_def case_prod_unfold)
  moreover have "row_does k (BenchMutexLatestStoreLoad M) ''micro/mutex_latest_store_load/64B''"
    unfolding BenchMutexLatestStoreLoad_def Let_def by (intro plain) (auto simp: kBatch_def)
  moreover have "row_does k (BenchWaiterNotifyUncontended M) ''micro/futex_notify_all_uncontended''"
    unfolding BenchWaiterNotifyUncontended_def Let_def by (intro plain) auto
  moreover have "row_does k (BenchLatestStoreContended M b) (bytes_name ''contended/latest_store_2readers/'' b)" for b
    unfolding BenchLatestStoreContended_def Let_def by (intro plain) (auto simp: kBatch_def)
  ultimately show ?thesis using load_row [OF assms] snapshot_row [OF assms] by (simp add: bench_rows_def row_names_def)
qed

text \<open>What the rows have added: \<open>new\<close>.\<close>

definition rows_ran :: "(string \<Rightarrow> nat) \<Rightarrow> string list \<Rightarrow> Prog \<Rightarrow> BenchResult list \<Rightarrow> Prog \<Rightarrow> bool" where
  "rows_ran k nms g new g' \<longleftrightarrow> g_results g' = g_results g @ new \<and>
     g_gate_failures g' = g_gate_failures g @ map gate_failure (filter (\<lambda>r. allocations r \<noteq> 0) new) \<and>
     g_smoke g' = g_smoke g \<and> g_scale g' = g_scale g \<and> g_filter g' = g_filter g \<and>
     map bname new = filter (\<lambda>nm. Enabled nm g) nms \<and>
     (\<forall>r \<in> set new. alloc_gated r \<and> bnotes r = [] \<and> (allocations r = 0 \<longleftrightarrow> k (bname r) = 0))"

lemma Record_sel [simp]:
  "g_results (Record r g) = g_results g @ [r]" "g_smoke (Record r g) = g_smoke g" "g_scale (Record r g) = g_scale g"
  "g_filter (Record r g) = g_filter g"
  "g_gate_failures (Record r g) = (if alloc_gated r \<and> allocations r \<noteq> 0 then g_gate_failures g @ [gate_failure r] else g_gate_failures g)"
  by (simp_all add: Record_def say_def Let_def)

lemma run_rows_Cons: "run_rows (F # Fs) g = Option.bind (F g) (run_rows Fs)"
proof -
  have "foldl Option.bind None Fs = (None :: Prog option)" for Fs by (induction Fs) auto
  then show ?thesis by (cases "F g") (simp_all add: run_rows_def)
qed

lemma rows_run:
  assumes "list_all2 (row_does k) Fs nms" "scale_ok g"
  shows "\<exists>new g'. run_rows Fs g = Some g' \<and> rows_ran k nms g new g'"
  using assms
proof (induction arbitrary: g rule: list_all2_induct)
  case Nil
  then show ?case by (auto simp: run_rows_def rows_ran_def intro!: exI [of _ "[]"])
next
  case (Cons F Fs nm nms)
  show ?case
  proof (cases "Enabled nm g")
    case False
    then have "F g = Some g" using Cons by (simp add: row_does_def)
    then show ?thesis using Cons.IH [OF Cons.prems] False by (auto simp: run_rows_Cons rows_ran_def)
  next
    case True
    then obtain r h w where r: "F g = Some (Record r (g\<lparr>heap := h, wall := w\<rparr>))" "bname r = nm" "alloc_gated r" "bnotes r = []"
        "allocations r = 0 \<longleftrightarrow> k nm = 0"
      using Cons.hyps(1) Cons.prems unfolding row_does_def by blast
    let ?g1 = "Record r (g\<lparr>heap := h, wall := w\<rparr>)"
    have "scale_ok ?g1" using Cons.prems by (simp add: scale_ok_def)
    from Cons.IH [OF this] obtain new g' where n: "run_rows Fs ?g1 = Some g'" "rows_ran k nms ?g1 new g'" by blast
    moreover have "Enabled x ?g1 = Enabled x g" for x by (simp add: Enabled_def)
    ultimately have "rows_ran k (nm # nms) g (r # new) g'" using r True by (auto simp: rows_ran_def)
    then show ?thesis using n(1) r(1) by (auto simp: run_rows_Cons)
  qed
qed

section \<open>Properties\<close>

definition fresh_prog :: "Prog \<Rightarrow> bool" where
  "fresh_prog g \<longleftrightarrow> g_scale g = 1 \<and> g_results g = [] \<and> g_gate_failures g = []"

lemma configured_scale: "sane_rounding (m_rnd M) \<Longrightarrow> fresh_prog g \<Longrightarrow> scale_ok (say t (configure M opts g))"
  using rounding_between [of "m_rnd M" "15 / 100" 1] by (auto simp: scale_ok_def fresh_prog_def configure_def say_def)

lemma conclude_code:
  assumes "files path = (can_open, bytes, closes)"
    and "text' = report_text ''xmbase-bench-v1'' stamp hw (g_results g) (g_smoke g) (Fin (g_scale g)) (g_gate_failures g)"
    and "out = conclude files stamp hw path g"
  shows "exit_code out \<in> {0, 1}"
    "exit_code out = 0 \<longleftrightarrow> can_open \<and> closes \<and> length text' \<le> bytes \<and> g_gate_failures g = []"
    "exit_code out = 0 \<Longrightarrow> report_file out = Some (path, text')" "g_results (final out) = g_results g"
  using assms(1,2) unfolding assms(3)
  by (cases can_open; cases "closes \<and> length text' \<le> bytes"; cases "g_gate_failures g = []";
      auto simp: conclude_def WriteJsonReport_def say_def Let_def min_def)+

text \<open>
  Property C20. The benchmark program gates as it says. A malformed command line ends it with code 2, nothing run and
  nothing written. Otherwise it returns: it records exactly the rows whose names contain the filter, in
  order, all of them gated and none with the note that would mean the primitive under test delivered
  nothing; and it exits with 0 if and only if the whole report was written to the chosen path and no
  operation of a recorded row allocates, else with 1.
\<close>

theorem bench_gate_decides_exit:
  assumes "sane_rounding (m_rnd M)" "charges M k" "fresh_prog g0"
  shows "\<exists>out. bench_main M host files stamp argv0 args g0 = Some out \<and>
    (case parse_args args default_options of
       None \<Rightarrow> exit_code out = 2 \<and> report_file out = None \<and> g_results (final out) = []
     | Some opts \<Rightarrow>
         map bname (g_results (final out)) = filter (\<lambda>nm. o_filter opts = [] \<or> contains (o_filter opts) nm) row_names \<and>
         (\<forall>r \<in> set (g_results (final out)). alloc_gated r \<and> bnotes r = []) \<and>
         exit_code out \<in> {0, 1} \<and>
         (exit_code out = 0 \<longleftrightarrow>
            (case files (out_path opts) of (can_open, bytes, closes) \<Rightarrow>
               can_open \<and> closes \<and>
               length (report_text ''xmbase-bench-v1'' stamp (CaptureHardwareContext host) (g_results (final out)) (o_smoke opts)
                 (Fin (if o_smoke opts then m_rnd M (15 / 100) else 1)) []) \<le> bytes) \<and>
            (\<forall>r \<in> set (g_results (final out)). k (bname r) = 0)) \<and>
         (exit_code out = 0 \<longrightarrow> report_file out = Some (out_path opts,
            report_text ''xmbase-bench-v1'' stamp (CaptureHardwareContext host) (g_results (final out)) (o_smoke opts)
              (Fin (if o_smoke opts then m_rnd M (15 / 100) else 1)) [])))"
proof (cases "parse_args args default_options")
  case None
  then show ?thesis using assms(3) by (simp add: bench_main_def fresh_prog_def)
next
  case (Some opts)
  let ?hw = "CaptureHardwareContext host"
  let ?g1 = "say (banner ?hw (o_smoke opts)) (configure M opts g0)"
  obtain new g where g: "run_rows (bench_rows M) ?g1 = Some g" "rows_ran k row_names ?g1 new g"
    using rows_run [OF all_rows [OF assms(1,2)] configured_scale [OF assms(1,3)]] by blast
  define out where "out = conclude files stamp ?hw (out_path opts) g"
  obtain can_open bytes closes where f: "files (out_path opts) = (can_open, bytes, closes)" by (cases "files (out_path opts)")
  note c = conclude_code [OF f refl out_def]
  have r: "g_results g = new" "g_smoke g = o_smoke opts" "g_scale g = (if o_smoke opts then m_rnd M (15 / 100) else 1)"
      "map bname new = filter (\<lambda>nm. o_filter opts = [] \<or> contains (o_filter opts) nm) row_names"
      "\<forall>r \<in> set new. alloc_gated r \<and> bnotes r = [] \<and> (allocations r = 0 \<longleftrightarrow> k (bname r) = 0)"
      "g_gate_failures g = map gate_failure (filter (\<lambda>r. allocations r \<noteq> 0) new)"
    using g(2) assms(3) by (simp_all add: rows_ran_def say_def configure_def fresh_prog_def Enabled_def)
  have gate: "g_gate_failures g = [] \<longleftrightarrow> (\<forall>r \<in> set new. k (bname r) = 0)" using r(5,6) by (auto simp: filter_empty_conv)
  have "bench_main M host files stamp argv0 args g0 = Some out" by (simp add: bench_main_def Some g(1) out_def)
  moreover have "g_results (final out) = new" using c(4) r(1) by simp
  ultimately show ?thesis using c(1-3) r(1-5) gate by (intro exI [of _ out]) (auto simp: Some f)
qed

definition idle_machine :: Machine where
  "idle_machine = \<lparr>m_rnd = (\<lambda>q. q), m_cost = (\<lambda>nm (a, t). (count_one a, t + 1))\<rparr>"

definition quiet_host :: Host where
  "quiet_host = \<lparr>cpuinfo = None, scaling_governor = None, uname_release_version = None, kernel_realtime = None,
     hardware_concurrency = 4, loadavg = None, self_status = None\<rparr>"

definition start_prog :: Prog where
  "start_prog = \<lparr>g_scale = 1, g_smoke = False, g_filter = [], g_results = [], g_gate_failures = [],
     heap = \<lparr>g_alloc_counting = False, g_alloc_count = 0\<rparr>, wall = 0, stdout_text = []\<rparr>"

theorem bench_gate_decides_exit_witness:
  "\<exists>out. bench_main idle_machine quiet_host (\<lambda>_. (True, 4096, True)) ''now'' ''xmbase_bench'' [''--smoke'', ''--filter'', ''queue''] start_prog = Some out \<and>
    map bname (g_results (final out)) = [''micro/queue_push_pop/64B'', ''micro/queue_push_pop/256B''] \<and> exit_code out = 1"
proof -
  have s: "sane_rounding (m_rnd idle_machine)" by (simp add: sane_rounding_def idle_machine_def mono_def)
  have k: "charges idle_machine (\<lambda>_. 1)" by (simp add: charges_def idle_machine_def)
  have f: "fresh_prog start_prog" by (simp add: fresh_prog_def start_prog_def)
  have p: "parse_args [''--smoke'', ''--filter'', ''queue''] default_options =
      Some \<lparr>out_path = ''xmbase_bench_report.json'', o_smoke = True, o_filter = ''queue''\<rparr>" by (simp add: default_options_def)
  have n: "filter (\<lambda>nm. contains ''queue'' nm) row_names = [''micro/queue_push_pop/64B'', ''micro/queue_push_pop/256B'']" by code_simp
  show ?thesis
    using bench_gate_decides_exit [OF s k f, of quiet_host "\<lambda>_. (True, 4096, True)" "''now''" "''xmbase_bench''"
        "[''--smoke'', ''--filter'', ''queue'']"]
    unfolding p by (auto simp: n)
qed

end
