(* ===== verification/Device_Health.thy ===== *)
theory Device_Health
  imports Mini_Backend
begin

text \<open>
  The device-driver pattern of \<open>examples/device_health_example.cpp\<close>: \<open>FakeImuDriver\<close> with its
  freshness gauge, its fault counter and the hysteresis that turns sample ages into health
  transitions, on top of the telemetry front end. The conversion of an age to milliseconds (its value
  and its bit pattern) and the clock reads are arguments.
\<close>

section \<open>The driver\<close>

record Driver =
  dsrc :: EventSource
  age_slot :: nat
  fault_slot :: nat
  last_ns :: int
  reported :: HealthState
  candidate :: HealthState
  held :: int

definition kHoldTicks :: int where
  "kHoldTicks = 3"

definition FakeImuDriver_ctor :: "bool \<Rightarrow> 'w Proc \<Rightarrow> Driver \<times> 'w Proc" where
  "FakeImuDriver_ctor l p =
     (let (s, p1) = GetEventSource l ''imu.front'' p;
          (g, p2) = GetGauge l ''imu.front.age_ms'' p1;
          (c, p3) = GetCounter l ''imu.front.faults'' p2
      in (\<lparr>dsrc = s, age_slot = g, fault_slot = c, last_ns = 0, reported = kOk, candidate = kOk, held = 0\<rparr>, p3))"

definition OnSample :: "int \<Rightarrow> Driver \<Rightarrow> Driver" where
  "OnSample now d = d\<lparr>last_ns := now\<rparr>"

definition raw_state :: "int \<Rightarrow> HealthState" where
  "raw_state age = (if 200000000 < age then kDisconnected else if 50000000 < age then kDegraded else kOk)"

text \<open>The hysteresis alone: the state to report, if any. \<open>None\<close>: \<open>++held\<close> overflows \<open>int\<close>.\<close>

definition hold :: "HealthState \<Rightarrow> Driver \<Rightarrow> (bool \<times> Driver) option" where
  "hold raw d =
     (if raw = candidate d then
        if 2 ^ 31 \<le> held d + 1 then None
        else let d1 = d\<lparr>held := held d + 1\<rparr> in
             if kHoldTicks \<le> held d1 \<and> raw \<noteq> reported d1 then Some (True, d1\<lparr>reported := raw\<rparr>) else Some (False, d1)
      else Some (False, d\<lparr>candidate := raw, held := 0\<rparr>))"

text \<open>One supervisor tick: \<open>now\<close>, \<open>t1\<close>, \<open>t2\<close> are its clock reads (the age, the report, the event).\<close>

definition Supervise :: "bool \<Rightarrow> fadder \<Rightarrow> (int \<Rightarrow> double \<times> u64) \<Rightarrow> int \<times> int \<times> int \<Rightarrow> Driver \<Rightarrow> 'w Proc \<Rightarrow> (Driver \<times> 'w Proc) option" where
  "Supervise l fadd to_ms clock d p =
     (let (now, t1, t2) = clock;
          age = now - last_ns d;
          (age_ms, age_bits) = to_ms age;
          p1 = Gauge_Set (age_slot d) age_ms p;
          raw = raw_state age
      in case hold raw d of
           None \<Rightarrow> None
         | Some (False, d1) \<Rightarrow> Some (d1, p1)
         | Some (True, d1) \<Rightarrow>
             let p2 = ReportHealth l t1 (Some ''imu.front'') raw (Some (if raw = kOk then ''recovered'' else ''stale sample stream'')) p1
             in Some (d1,
                  if raw = kDisconnected
                  then EmitEvent l t2 (source_id (dsrc d1)) (source_name (dsrc d1)) kError
                         (''no samples for {:.0f} ms '' @ [CHR 0xE2, CHR 0x80, CHR 0x94] @ '' treating as disconnected'')
                         [ADouble age_bits] (Counter_Add fadd (fault_slot d1) (Fin 1) p2)
                  else p2))"

text \<open>A run: ticks, each possibly preceded by a sample.\<close>

fun supervise_all :: "bool \<Rightarrow> fadder \<Rightarrow> (int \<Rightarrow> double \<times> u64) \<Rightarrow> (bool \<times> int \<times> int \<times> int \<times> int) list \<Rightarrow> Driver \<Rightarrow> 'w Proc \<Rightarrow> (Driver \<times> 'w Proc) option" where
  "supervise_all l fadd to_ms [] d p = Some (d, p)"
| "supervise_all l fadd to_ms ((feeding, t, clock) # ticks) d p =
     (case Supervise l fadd to_ms clock (if feeding then OnSample t d else d) p of
        None \<Rightarrow> None
      | Some (d1, p1) \<Rightarrow> supervise_all l fadd to_ms ticks d1 p1)"

text \<open>The loop \<open>run\<close> of \<open>main\<close>, over the clock readings of its passes (the loop test, the sample, the supervision), and \<open>main\<close>:
  healthy, with the cable pulled, recovering. A phase is the time at which it starts and its readings.\<close>

type_synonym pass = "int \<times> int \<times> int \<times> int \<times> int"

fun run_phase :: "bool \<Rightarrow> fadder \<Rightarrow> (int \<Rightarrow> double \<times> u64) \<Rightarrow> bool \<Rightarrow> int \<Rightarrow> pass list \<Rightarrow> Driver \<Rightarrow> 'w Proc \<Rightarrow> (Driver \<times> 'w Proc) option" where
  "run_phase l fadd to_ms feeding until [] d p = Some (d, p)"
| "run_phase l fadd to_ms feeding until ((c, t, clock) # passes) d p =
     (if c < until then
        (case Supervise l fadd to_ms clock (if feeding then OnSample t d else d) p of
           None \<Rightarrow> None
         | Some (d1, p1) \<Rightarrow> run_phase l fadd to_ms feeding until passes d1 p1)
      else Some (d, p))"

definition device_main :: "nat \<Rightarrow> bool \<Rightarrow> fadder \<Rightarrow> (int \<Rightarrow> double \<times> u64) \<Rightarrow> int \<times> int \<Rightarrow> int \<times> pass list \<Rightarrow> int \<times> pass list \<Rightarrow> int \<Rightarrow> int \<times> pass list \<Rightarrow>
    'w Proc \<Rightarrow> (int \<times> 'w Proc) option" where
  "device_main lvl l fadd to_ms clk healthy pulled t recovery p0 =
     (let p1 = XM_LOG lvl l (fst clk) kInfo ''device health demo: healthy -> cable pull -> recovery'' [] p0;
          (d1, p2) = FakeImuDriver_ctor l p1
      in case run_phase l fadd to_ms True (fst healthy + 200000000) (snd healthy) d1 p2 of
           None \<Rightarrow> None
         | Some (d2, p3) \<Rightarrow>
             (case run_phase l fadd to_ms False (fst pulled + 600000000) (snd pulled) d2 p3 of
                None \<Rightarrow> None
              | Some (d3, p4) \<Rightarrow>
                  (case run_phase l fadd to_ms True (fst recovery + 200000000) (snd recovery) (OnSample t d3) p4 of
                     None \<Rightarrow> None
                   | Some (d4, p5) \<Rightarrow>
                       Some (0, XM_LOG lvl l (snd clk) kInfo
                         (''done '' @ [CHR 0xE2, CHR 0x80, CHR 0x94] @ '' transitions were reported once each, no flapping'') [] p5))))"

text \<open>What a tick sees: the raw states of a run.\<close>

fun raws :: "(bool \<times> int \<times> int \<times> int \<times> int) list \<Rightarrow> int \<Rightarrow> HealthState list" where
  "raws [] prev = []"
| "raws ((feeding, t, now, t1, t2) # ticks) prev =
     (let l' = (if feeding then t else prev) in raw_state (now - l') # raws ticks l')"

section \<open>Hysteresis\<close>

text \<open>Reference: of a history, newest first, the newest state that was seen \<open>kHoldTicks + 1\<close> times in a
  row; the driver starts as if it had seen \<open>kOk\<close> once and reported it.\<close>

definition run_length :: "HealthState list \<Rightarrow> nat" where
  "run_length hs = length (takeWhile (\<lambda>x. x = hd hs) hs)"

fun last_stable :: "HealthState list \<Rightarrow> HealthState" where
  "last_stable [] = kOk"
| "last_stable (x # xs) = (if 4 \<le> run_length (x # xs) then x else last_stable xs)"

text \<open>The transitions a sequence of raw states should report.\<close>

fun transitions :: "HealthState list \<Rightarrow> HealthState list \<Rightarrow> HealthState list" where
  "transitions hist [] = []"
| "transitions hist (r # rs) =
     (if last_stable (r # hist) \<noteq> last_stable hist then [last_stable (r # hist)] else []) @ transitions (r # hist) rs"

definition follows :: "HealthState list \<Rightarrow> Driver \<Rightarrow> bool" where
  "follows hist d \<longleftrightarrow> hist \<noteq> [] \<and> candidate d = hd hist \<and> held d = int (run_length hist) - 1 \<and> reported d = last_stable hist"

lemma run_length_simps:
  "run_length [x] = 1" "run_length (x # y # ys) = (if x = y then Suc (run_length (y # ys)) else 1)"
  by (auto simp: run_length_def)

lemma run_length_le: "run_length hs \<le> length hs"
  by (simp add: run_length_def length_takeWhile_le)

lemma last_stable_run: "4 \<le> run_length hist \<Longrightarrow> hist \<noteq> [] \<Longrightarrow> last_stable hist = hd hist"
  by (cases hist) auto

lemma hold_follows:
  assumes "follows hist d" "length hist < 2 ^ 31"
  shows "\<exists>d1. hold r d = Some (last_stable (r # hist) \<noteq> last_stable hist, d1) \<and> follows (r # hist) d1 \<and>
    last_ns d1 = last_ns d \<and> dsrc d1 = dsrc d \<and> age_slot d1 = age_slot d \<and> fault_slot d1 = fault_slot d \<and>
    (last_stable (r # hist) \<noteq> last_stable hist \<longrightarrow> last_stable (r # hist) = r)"
proof -
  obtain h hs where hist: "hist = h # hs" using assms(1) by (cases hist) (auto simp: follows_def)
  have len: "run_length hist < 2 ^ 31" using assms(2) run_length_le [of hist] by simp
  show ?thesis
  proof (cases "r = h")
    case True
    then have "run_length (r # hist) = Suc (run_length hist)" by (simp add: hist run_length_simps)
    then show ?thesis using assms(1) len True by (auto simp: follows_def hold_def hist kHoldTicks_def Let_def)
  next
    case False
    then have "run_length (r # hist) = 1" by (simp add: hist run_length_simps)
    then show ?thesis using assms(1) False by (auto simp: follows_def hold_def hist)
  qed
qed

section \<open>On the example backend\<close>

definition imu_line :: "HealthState \<Rightarrow> string" where
  "imu_line r =
     ''[mini] health imu.front -> '' @ digits 10 False (health_code r) @ '' ('' @
     (if r = kOk then ''recovered'' else ''stale sample stream'') @ '')'' @ [newline]"

text \<open>One tick: what is printed and counted.\<close>

lemma tick:
  fixes now t1 t2 d
  defines "raw \<equiv> raw_state (now - last_ns d)"
  assumes "g_binding p = Some (MiniBackend_Make ms)" "follows hist d" "length hist < 2 ^ 31"
  shows "\<exists>d1 p1. Supervise l fadd to_ms (now, t1, t2) d p = Some (d1, p1) \<and> follows (raw # hist) d1 \<and>
    last_ns d1 = last_ns d \<and> fault_slot d1 = fault_slot d \<and> g_binding p1 = Some (MiniBackend_Make ms) \<and>
    health_lines (world p1) = health_lines (world p) @ (if last_stable (raw # hist) \<noteq> last_stable hist then [imu_line raw] else []) \<and>
    cvalue (counters (world p1) (fault_slot d)) =
      (if last_stable (raw # hist) \<noteq> last_stable hist \<and> raw = kDisconnected
       then fadd (cvalue (counters (world p) (fault_slot d))) (Fin 1) else cvalue (counters (world p) (fault_slot d)))"
proof -
  obtain d1 where h: "hold raw d = Some (last_stable (raw # hist) \<noteq> last_stable hist, d1)" "follows (raw # hist) d1"
      "last_ns d1 = last_ns d" "fault_slot d1 = fault_slot d"
    using hold_follows [OF assms(3,4), of raw] by blast
  show ?thesis
  proof (cases "last_stable (raw # hist) \<noteq> last_stable hist")
    case False
    with h assms(2) show ?thesis
      by (simp add: Supervise_def raw_def [symmetric] Let_def case_prod_unfold Gauge_Set_def health_lines_def)
  next
    case True
    with h assms(2) show ?thesis
      by (auto simp: Supervise_def raw_def [symmetric] Let_def case_prod_unfold Gauge_Set_def Counter_Add_def CounterSlot_Add_def
          ReportHealth_def EmitEvent_def MiniBackend_Make_def health_lines_def imu_line_def c_str_def cstr_def)
  qed
qed

lemma ticks:
  assumes "g_binding p = Some (MiniBackend_Make ms)" "follows hist d" "length hist + length tks \<le> 2 ^ 31"
  shows "\<exists>d1 p1. supervise_all l fadd to_ms tks d p = Some (d1, p1) \<and> follows (rev (raws tks (last_ns d)) @ hist) d1 \<and>
    g_binding p1 = Some (MiniBackend_Make ms) \<and>
    (\<forall>more. raws (tks @ more) (last_ns d) = raws tks (last_ns d) @ raws more (last_ns d1)) \<and>
    health_lines (world p1) = health_lines (world p) @ map imu_line (transitions hist (raws tks (last_ns d))) \<and>
    cvalue (counters (world p1) (fault_slot d)) =
      foldl fadd (cvalue (counters (world p) (fault_slot d))) (map (\<lambda>_. Fin 1) (filter (\<lambda>r. r = kDisconnected) (transitions hist (raws tks (last_ns d)))))"
  using assms
proof (induction tks arbitrary: d p hist)
  case Nil
  then show ?case by simp
next
  case (Cons tk tks)
  obtain feeding t now t1 t2 where tk: "tk = (feeding, t, now, t1, t2)" by (cases tk) auto
  let ?d = "if feeding then OnSample t d else d"
  have d: "follows hist ?d" "fault_slot ?d = fault_slot d" "last_ns ?d = (if feeding then t else last_ns d)"
    using Cons.prems(2) by (auto simp: OnSample_def follows_def)
  let ?r = "raw_state (now - last_ns ?d)"
  have len: "length hist < 2 ^ 31" using Cons.prems(3) by simp
  obtain d1 p1 where 1: "Supervise l fadd to_ms (now, t1, t2) ?d p = Some (d1, p1)" "follows (?r # hist) d1" "last_ns d1 = last_ns ?d"
      "fault_slot d1 = fault_slot d" "g_binding p1 = Some (MiniBackend_Make ms)"
      "health_lines (world p1) = health_lines (world p) @ (if last_stable (?r # hist) \<noteq> last_stable hist then [imu_line ?r] else [])"
      "cvalue (counters (world p1) (fault_slot d)) =
        (if last_stable (?r # hist) \<noteq> last_stable hist \<and> ?r = kDisconnected
         then fadd (cvalue (counters (world p) (fault_slot d))) (Fin 1) else cvalue (counters (world p) (fault_slot d)))"
    using tick [OF Cons.prems(1) d(1) len, of l fadd to_ms now t1 t2] unfolding d(2) by blast
  obtain d2 p2 where 2: "supervise_all l fadd to_ms tks d1 p1 = Some (d2, p2)"
      "follows (rev (raws tks (last_ns d1)) @ ?r # hist) d2" "g_binding p2 = Some (MiniBackend_Make ms)"
      "\<forall>more. raws (tks @ more) (last_ns d1) = raws tks (last_ns d1) @ raws more (last_ns d2)"
      "health_lines (world p2) = health_lines (world p1) @ map imu_line (transitions (?r # hist) (raws tks (last_ns d1)))"
      "cvalue (counters (world p2) (fault_slot d1)) =
        foldl fadd (cvalue (counters (world p1) (fault_slot d1)))
          (map (\<lambda>_. Fin 1) (filter (\<lambda>r. r = kDisconnected) (transitions (?r # hist) (raws tks (last_ns d1)))))"
    using Cons.IH [OF 1(5,2)] Cons.prems(3) by auto
  have rs: "raws (tk # xs) (last_ns d) = ?r # raws xs (last_ns d1)" for xs using d(3) 1(3) by (simp add: tk Let_def)
  have st: "last_stable (?r # hist) \<noteq> last_stable hist \<Longrightarrow> last_stable (?r # hist) = ?r"
    using hold_follows [OF d(1) len, of ?r] by blast
  show ?case
    unfolding rs append_Cons using 1 2 st by (auto simp: tk)
qed

lemma ctor_follows:
  assumes "FakeImuDriver_ctor l p = (d, p1)"
  shows "follows [kOk] d" "last_ns d = 0"
  using assms by (auto simp: FakeImuDriver_ctor_def Let_def case_prod_unfold follows_def run_length_def)

lemma ctor_binding:
  assumes "g_binding p = Some b" "FakeImuDriver_ctor l p = (d, p1)"
  shows "g_binding p1 = Some b"
  using assms by (auto simp: FakeImuDriver_ctor_def GetEventSource_def GetGauge_def GetCounter_def with_binding_def Let_def case_prod_unfold)

lemma supervise_all_append:
  "supervise_all l fadd to_ms (xs @ ys) d p =
     (case supervise_all l fadd to_ms xs d p of None \<Rightarrow> None | Some (d1, p1) \<Rightarrow> supervise_all l fadd to_ms ys d1 p1)"
  by (induction l fadd to_ms xs d p rule: supervise_all.induct) (auto split: option.splits)

lemma length_raws [simp]: "length (raws tks t) = length tks"
  by (induction tks t rule: raws.induct) (auto simp: Let_def)

lemma transitions_distinct_adj: "distinct_adj (last_stable hist # transitions hist rs)"
proof (induction rs arbitrary: hist)
  case (Cons r rs)
  then show ?case using Cons [of "r # hist"] by (auto simp: distinct_adj_Cons split: if_splits)
qed simp

section \<open>Properties\<close>

text \<open>
  Property C30. The health monitor does not flap: over any run of fewer than \<open>2 ^ 31\<close> ticks the state it has
  reported is the newest one that was seen \<open>kHoldTicks + 1\<close> times in a row; what it prints are exactly the
  changes of that state, each once and no two equal in succession; and the fault counter has advanced by
  one for every change to \<open>kDisconnected\<close>.
\<close>

theorem health_hysteresis:
  assumes "g_binding p = Some (MiniBackend_Make ms)" "FakeImuDriver_ctor l p = (d, p1)" "length tks < 2 ^ 31"
    and "rs = raws tks 0"
  shows "\<exists>d' p'. supervise_all l fadd to_ms tks d p1 = Some (d', p') \<and>
    reported d' = last_stable (rev rs @ [kOk]) \<and>
    health_lines (world p') = health_lines (world p1) @ map imu_line (transitions [kOk] rs) \<and>
    distinct_adj (kOk # transitions [kOk] rs) \<and>
    cvalue (counters (world p') (fault_slot d)) =
      foldl fadd (cvalue (counters (world p1) (fault_slot d))) (map (\<lambda>_. Fin 1) (filter (\<lambda>r. r = kDisconnected) (transitions [kOk] rs)))"
proof -
  have "length [kOk] + length tks \<le> 2 ^ 31" using assms(3) by simp
  from ticks [OF ctor_binding [OF assms(1,2)] ctor_follows(1) [OF assms(2)] this, of l fadd to_ms]
  show ?thesis
    using transitions_distinct_adj [of "[kOk]" rs] by (auto simp: ctor_follows(2) [OF assms(2)] assms(4) follows_def run_length_def)
qed

definition pulled_cable :: "(bool \<times> int \<times> int \<times> int \<times> int) list" where
  "pulled_cable = map (\<lambda>t. (t < 1000000000, t, t, t, t)) (map (\<lambda>i. 10000000 * int i) [97..<125])"

theorem health_hysteresis_witness:
  "\<exists>d p1 d' p'. FakeImuDriver_ctor True mini_process = (d, p1) \<and> supervise_all True exact_add (\<lambda>_. (Fin 0, 0)) pulled_cable d p1 = Some (d', p') \<and>
    health_lines (world p') = health_lines (world p1) @ map imu_line [kDegraded, kDisconnected]"
proof -
  obtain d p1 where c: "FakeImuDriver_ctor True mini_process = (d, p1)" by fastforce
  have m: "g_binding mini_process = Some (MiniBackend_Make (\<lambda>ns. digits 10 False (nat ns)))" by (simp add: mini_process_def)
  have t: "length pulled_cable < 2 ^ 31" by (simp add: pulled_cable_def)
  have r: "transitions [kOk] (raws pulled_cable 0) = [kDegraded, kDisconnected]" by code_simp
  show ?thesis using health_hysteresis [OF m c t refl, of exact_add "\<lambda>_. (Fin 0, 0)"] c unfolding r by blast
qed

text \<open>
  Property C31. A driver that stays healthy long enough overflows: the hold counter is incremented on every tick in
  the same state and never clamped, so after \<open>2 ^ 31\<close> ticks with fresh samples the increment leaves
  \<open>int\<close>, which is undefined.
\<close>

theorem steady_driver_overflows:
  assumes "g_binding p = Some (MiniBackend_Make ms)" "FakeImuDriver_ctor l p = (d, p1)" "length tks = 2 ^ 31"
    and "\<forall>r \<in> set (raws tks 0). r = kOk"
  shows "supervise_all l fadd to_ms tks d p1 = None"
proof -
  have ne: "tks \<noteq> []" using assms(3) by auto
  obtain ts f t now t1 t2 where tks: "tks = ts @ [(f, t, now, t1, t2)]" by (metis append_butlast_last_id ne prod_cases5)
  have len: "length [kOk] + length ts \<le> 2 ^ 31" using assms(3) tks by simp
  obtain d1 p2 where 1: "supervise_all l fadd to_ms ts d p1 = Some (d1, p2)" "follows (rev (raws ts 0) @ [kOk]) d1"
      "raws tks 0 = raws ts 0 @ raws [(f, t, now, t1, t2)] (last_ns d1)"
    unfolding tks using ticks [OF ctor_binding [OF assms(1,2)] ctor_follows(1) [OF assms(2)] len, of l fadd to_ms] ctor_follows(2) [OF assms(2)] by auto
  let ?hist = "rev (raws ts 0) @ [kOk]" and ?d = "if f then OnSample t d1 else d1"
  have "\<forall>r \<in> set ?hist. r = kOk" using assms(4) 1(3) by auto
  moreover from this have "hd ?hist = kOk" by (metis hd_in_set list.distinct(1) append_is_Nil_conv)
  ultimately have "run_length ?hist = length ?hist" by (simp only: run_length_def takeWhile_eq_all_conv [THEN iffD2])
  then have h: "held ?d = 2 ^ 31 - 1" "candidate ?d = kOk"
    using 1(2) \<open>hd ?hist = kOk\<close> assms(3) tks by (simp_all add: follows_def OnSample_def)
  have "raw_state (now - last_ns ?d) = kOk" using assms(4) 1(3) by (auto simp: OnSample_def split: if_splits)
  with h have "Supervise l fadd to_ms (now, t1, t2) ?d p2 = None" by (simp add: Supervise_def hold_def case_prod_unfold Let_def)
  then show ?thesis by (simp add: tks supervise_all_append 1(1))
qed

lemma fresh_ticks: "raws (replicate n (True, 0, 0, 0, 0)) t = replicate n kOk"
  by (induction n arbitrary: t) (simp_all add: raw_state_def)

theorem steady_driver_overflows_witness:
  "supervise_all True exact_add (\<lambda>_. (Fin 0, 0)) (replicate (2 ^ 31) (True, 0, 0, 0, 0))
     (fst (FakeImuDriver_ctor True mini_process)) (snd (FakeImuDriver_ctor True mini_process)) = None"
proof (rule steady_driver_overflows)
  show "g_binding mini_process = Some (MiniBackend_Make (\<lambda>ns. digits 10 False (nat ns)))" by (simp add: mini_process_def)
  show "\<forall>r \<in> set (raws (replicate (2 ^ 31) (True, 0, 0, 0, 0)) 0). r = kOk" unfolding fresh_ticks by (simp only: set_replicate_conv_if) simp
qed (simp_all only: length_replicate prod.collapse)

section \<open>The program\<close>

text \<open>The ticks of a phase.\<close>

definition phase_ticks :: "bool \<Rightarrow> int \<Rightarrow> pass list \<Rightarrow> (bool \<times> int \<times> int \<times> int \<times> int) list" where
  "phase_ticks feeding until passes = map (\<lambda>(c, t, clock). (feeding, t, clock)) (takeWhile (\<lambda>(c, _). c < until) passes)"

lemma run_phase_ticks: "run_phase l fadd to_ms feeding until passes d p = supervise_all l fadd to_ms (phase_ticks feeding until passes) d p"
  by (induction l fadd to_ms feeding until passes d p rule: run_phase.induct) (auto simp: phase_ticks_def split: option.splits)

lemma raws_fed: "tks \<noteq> [] \<Longrightarrow> fst (hd tks) \<Longrightarrow> raws tks x = raws tks y"
  by (cases tks) auto

lemma transitions_append: "transitions hist (xs @ ys) = transitions hist xs @ transitions (rev xs @ hist) ys"
  by (induction xs arbitrary: hist) simp_all

lemma last_stable_Cons: "last_stable (x # hist) = x \<or> last_stable (x # hist) = last_stable hist"
  by simp

lemma last_stable_replicate: "last_stable (replicate n x @ hist) = x \<or> last_stable (replicate n x @ hist) = last_stable hist"
  by (induction n) auto

lemma transitions_replicate:
  "transitions hist (replicate n x) = (if last_stable (replicate n x @ hist) = last_stable hist then [] else [x])"
proof (induction n arbitrary: hist)
  case (Suc n)
  have r: "replicate (Suc n) x @ hist = replicate n x @ x # hist" by (simp add: replicate_app_Cons_same)
  show ?case using Suc [of "x # hist"] last_stable_replicate [of n x "x # hist"] last_stable_Cons [of x hist]
    unfolding r by (auto simp del: last_stable.simps)
qed simp

lemma held_is_stable: assumes "4 \<le> n" shows "last_stable (replicate n x @ hist) = x"
proof -
  obtain m where m: "n = Suc m" using assms by (cases n) auto
  have "takeWhile (\<lambda>y. y = x) (replicate k x @ hist) = replicate k x @ takeWhile (\<lambda>y. y = x) hist" for k by (induction k) simp_all
  then have "n \<le> run_length (replicate n x @ hist)" by (simp add: run_length_def m)
  then show ?thesis using last_stable_run [of "replicate n x @ hist"] assms by (simp add: m)
qed

lemma pull_transitions:
  assumes "4 \<le> b" "4 \<le> c" "4 \<le> e"
  shows "transitions [kOk] (replicate a kOk @ replicate b kDegraded @ replicate c kDisconnected @ replicate e kOk) = [kDegraded, kDisconnected, kOk]"
proof -
  have "last_stable (replicate a kOk @ [kOk]) = kOk" using last_stable_replicate [of a kOk "[kOk]"] by (auto simp: run_length_def)
  moreover have "last_stable [kOk] = kOk" by simp
  ultimately show ?thesis using assms by (simp add: transitions_append transitions_replicate held_is_stable del: last_stable.simps)
qed

text \<open>
  The program's last line: when the supervision sees the device healthy, then stale, then silent and then healthy again, each of the last
  three for more than \<open>kHoldTicks\<close> ticks, every transition is reported exactly once, in order, and one fault is counted.
\<close>

theorem device_demo_reports:
  assumes "g_binding p = Some (MiniBackend_Make ms)"
    and "k1 = phase_ticks True (s1 + 200000000) ps1" "k2 = phase_ticks False (s2 + 600000000) ps2" "k3 = phase_ticks True (s3 + 200000000) ps3"
    and "raws (k1 @ k2 @ k3) 0 = replicate a kOk @ replicate b kDegraded @ replicate c kDisconnected @ replicate e kOk"
    and "4 \<le> b" "4 \<le> c" "4 \<le> e" "k3 \<noteq> []" "length (k1 @ k2 @ k3) < 2 ^ 31"
  shows "\<exists>p'. device_main lvl l fadd to_ms clk (s1, ps1) (s2, ps2) t (s3, ps3) p = Some (0, p') \<and>
    health_lines (world p') = health_lines (world p) @ map imu_line [kDegraded, kDisconnected, kOk]"
proof -
  define p1 where "p1 = XM_LOG lvl l (fst clk) kInfo ''device health demo: healthy -> cable pull -> recovery'' [] p"
  have p1: "g_binding p1 = Some (MiniBackend_Make ms)" "health_lines (world p1) = health_lines (world p)"
    using assms(1) by (auto simp: p1_def XM_LOG_def EmitEvent_def MiniBackend_Make_def health_lines_def)
  obtain d p2 where c: "FakeImuDriver_ctor l p1 = (d, p2)" by fastforce
  have p2: "health_lines (world p2) = health_lines (world p1)"
    using c p1(1) by (auto simp: FakeImuDriver_ctor_def GetEventSource_def GetGauge_def GetCounter_def with_binding_def MiniBackend_Make_def
        health_lines_def Let_def split_beta)
  have l12: "length [kOk] + length (k1 @ k2) \<le> 2 ^ 31" using assms(10) by simp
  obtain d3 p4 where r: "supervise_all l fadd to_ms (k1 @ k2) d p2 = Some (d3, p4)" "follows (rev (raws (k1 @ k2) 0) @ [kOk]) d3"
      "\<forall>more. raws ((k1 @ k2) @ more) 0 = raws (k1 @ k2) 0 @ raws more (last_ns d3)"
      "health_lines (world p4) = health_lines (world p2) @ map imu_line (transitions [kOk] (raws (k1 @ k2) 0))" "g_binding p4 = Some (MiniBackend_Make ms)"
    using ticks [OF ctor_binding [OF p1(1) c] ctor_follows(1) [OF c] l12, of l fadd to_ms] ctor_follows(2) [OF c] by auto
  have f: "follows (rev (raws (k1 @ k2) 0) @ [kOk]) (OnSample t d3)" using r(2) by (simp add: follows_def OnSample_def)
  have l3: "length (rev (raws (k1 @ k2) 0) @ [kOk]) + length k3 \<le> 2 ^ 31" using assms(10) by simp
  obtain d4 p5 where q: "supervise_all l fadd to_ms k3 (OnSample t d3) p4 = Some (d4, p5)" "g_binding p5 = Some (MiniBackend_Make ms)"
      "health_lines (world p5) = health_lines (world p4) @ map imu_line (transitions (rev (raws (k1 @ k2) 0) @ [kOk]) (raws k3 (last_ns (OnSample t d3))))"
    using ticks [OF r(5) f l3, of l fadd to_ms] by auto
  have "fst (hd k3)" using assms(4,9) by (auto simp: phase_ticks_def hd_map split_beta)
  then have "raws k3 (last_ns (OnSample t d3)) = raws k3 (last_ns d3)" by (rule raws_fed [OF assms(9)])
  then have all: "raws (k1 @ k2) 0 @ raws k3 (last_ns (OnSample t d3)) = raws (k1 @ k2 @ k3) 0" using r(3) by (metis append_assoc)
  define p6 where "p6 = XM_LOG lvl l (snd clk) kInfo (''done '' @ [CHR 0xE2, CHR 0x80, CHR 0x94] @ '' transitions were reported once each, no flapping'') [] p5"
  have p6: "health_lines (world p6) = health_lines (world p5)"
    using q(2) by (auto simp: p6_def XM_LOG_def EmitEvent_def MiniBackend_Make_def health_lines_def)
  have "device_main lvl l fadd to_ms clk (s1, ps1) (s2, ps2) t (s3, ps3) p = Some (0, p6)"
    using r(1) q(1) unfolding supervise_all_append
    by (auto simp: device_main_def p1_def [symmetric] c run_phase_ticks assms(2-4) [symmetric] p6_def split: option.splits)
  moreover have tr: "transitions [kOk] (raws (k1 @ k2) 0) @ transitions (rev (raws (k1 @ k2) 0) @ [kOk]) (raws k3 (last_ns (OnSample t d3))) =
      [kDegraded, kDisconnected, kOk]"
    using pull_transitions [OF assms(6-8), of a] unfolding assms(5) [symmetric] all [symmetric] transitions_append .
  have "health_lines (world p6) = health_lines (world p) @ map imu_line (transitions [kOk] (raws (k1 @ k2) 0) @
      transitions (rev (raws (k1 @ k2) 0) @ [kOk]) (raws k3 (last_ns (OnSample t d3))))" using p6 q(3) r(4) p2 p1(2) by simp
  then have "health_lines (world p6) = health_lines (world p) @ map imu_line [kDegraded, kDisconnected, kOk]" unfolding tr .
  ultimately show ?thesis by blast
qed

end
