(* ===== verification/Sensor_Demos.thy ===== *)
theory Sensor_Demos
  imports Seqlock_Conc
begin

text \<open>
  The sensor examples over the seqlock ring: \<open>concurrency_message_slot_example.cpp\<close>,
  \<open>concurrency_message_buffer_example.cpp\<close> and \<open>concurrency_region_storage_example.cpp\<close>. Each has a
  producer that stores numbered, checksummed samples and a consumer that reads while the producer
  runs, counts torn samples and gaps, and turns the counts into its exit code. Producer and consumer
  interleave one shared access at a time, on the system of \<open>Seqlock_Conc\<close>. The bit patterns of the
  computed doubles are an argument. The flag \<open>running\<close> of the threaded examples only ends the producer: here the
  producer may stop at any sample, and may go on after the consumer has finished.
\<close>

section \<open>Producer and consumer\<close>

text \<open>A demo: the \<open>n\<close>-th sample, how many are produced (if bounded), the verb of the consumer, what it
  does with an outcome, whether it goes on, and what it does when it sees that the producer has ended.\<close>

record 'c demo =
  d_make :: "nat \<Rightarrow> u8 list"
  d_last :: "nat option"
  d_verb :: verb
  d_digest :: "outcome \<Rightarrow> 'c \<Rightarrow> 'c"
  d_more :: "'c \<Rightarrow> bool"
  d_exited :: "'c \<Rightarrow> 'c"

record 'c feed =
  fsys :: sys
  produced :: nat
  asking :: bool
  consumer :: 'c

definition may_produce :: "'c demo \<Rightarrow> 'c feed \<Rightarrow> bool" where
  "may_produce D s \<longleftrightarrow> (case d_last D of None \<Rightarrow> True | Some m \<Rightarrow> produced s < m)"

inductive feed_step :: "'c demo \<Rightarrow> 'c feed \<Rightarrow> 'c feed \<Rightarrow> bool" for D :: "'c demo" where
  f_produce: "wpc_of (fsys s) = WIdle \<Longrightarrow> may_produce D s \<Longrightarrow>
    feed_step D s (s\<lparr>fsys := (fsys s)\<lparr>wpc_of := WCount (d_make D (Suc (produced s))), stores := Suc (stores (fsys s))\<rparr>,
      produced := Suc (produced s)\<rparr>)"
| f_write: "wpc_of (fsys s) \<noteq> WIdle \<Longrightarrow> feed_step D s (s\<lparr>fsys := writer_step (fsys s)\<rparr>)"
| f_ask: "\<not> asking s \<Longrightarrow> d_more D (consumer s) \<Longrightarrow> feed_step D s (s\<lparr>fsys := invoke 0 (d_verb D) (fsys s), asking := True\<rparr>)"
| f_look: "asking s \<Longrightarrow> \<not> ready (pc (readers (fsys s) 0)) \<Longrightarrow> feed_step D s (s\<lparr>fsys := read_step 0 (fsys s)\<rparr>)"
| f_digest: "asking s \<Longrightarrow> pc (readers (fsys s) 0) = RDone out \<Longrightarrow>
    feed_step D s (s\<lparr>asking := False, consumer := d_digest D out (consumer s)\<rparr>)"
| f_exited: "\<not> asking s \<Longrightarrow> d_last D = Some (produced s) \<Longrightarrow> wpc_of (fsys s) = WIdle \<Longrightarrow>
    feed_step D s (s\<lparr>consumer := d_exited D (consumer s)\<rparr>)"

inductive_cases feed_stepE: "feed_step D s t"

definition feed_init :: "'c demo \<Rightarrow> nat \<Rightarrow> nat \<Rightarrow> 'c \<Rightarrow> 'c feed \<Rightarrow> bool" where
  "feed_init D n sz c0 s \<longleftrightarrow> s = \<lparr>fsys = init_sys n sz, produced = 0, asking = False, consumer = c0\<rparr>"

section \<open>What the consumer can see\<close>

fun in_flight :: "wpc \<Rightarrow> u8 list list" where
  "in_flight (WCount v) = [v]"
| "in_flight (WSeq v idx) = [v]"
| "in_flight (WOdd v idx q) = [v]"
| "in_flight (WIndex v idx q) = [v]"
| "in_flight (WWord v idx q k) = [v]"
| "in_flight (WPub v idx) = [v]"
| "in_flight p = []"

fun storing_pc :: "wpc \<Rightarrow> bool" where
  "storing_pc WDead = False"
| "storing_pc WRepCount = False"
| "storing_pc (WRepSeq c) = False"
| "storing_pc (WRepZero c) = False"
| "storing_pc p = True"

definition made :: "'c demo \<Rightarrow> nat \<Rightarrow> u8 list list" where
  "made D n = map (d_make D) [1..<Suc n]"

lemma length_made [simp]: "length (made D n) = n"
  by (simp add: made_def)

lemma made_Suc: "made D (Suc n) = made D n @ [d_make D (Suc n)]"
  by (simp add: made_def)

lemma nth_made: "i < n \<Longrightarrow> made D n ! i = d_make D (Suc i)"
  by (simp add: made_def nth_map_upt del: upt_Suc)

definition feed_inv :: "'c demo \<Rightarrow> nat \<Rightarrow> nat \<Rightarrow> 'c feed \<Rightarrow> bool" where
  "feed_inv D n sz s \<longleftrightarrow> reach initial step (fsys s) \<and> repairs (fsys s) = 0 \<and> storing_pc (wpc_of (fsys s)) \<and>
     stores (fsys s) = produced s \<and> hist (fsys s) @ in_flight (wpc_of (fsys s)) = made D (produced s) \<and>
     sizeofT (ring (fsys s)) = sz \<and> depthN (ring (fsys s)) = n \<and>
     (asking s \<longrightarrow> verb_of (readers (fsys s) 0) = d_verb D \<and> pc (readers (fsys s) 0) \<noteq> RIdle) \<and>
     (\<not> asking s \<longrightarrow> ready (pc (readers (fsys s) 0)))"

lemma writer_step_feed:
  assumes "storing_pc (wpc_of s)" "wpc_of s \<noteq> WIdle"
  shows "storing_pc (wpc_of (writer_step s))" "hist (writer_step s) @ in_flight (wpc_of (writer_step s)) = hist s @ in_flight (wpc_of s)"
    "repairs (writer_step s) = repairs s" "stores (writer_step s) = stores s" "readers (writer_step s) = readers s"
    "sizeofT (ring (writer_step s)) = sizeofT (ring s)" "depthN (ring (writer_step s)) = depthN (ring s)"
  using assms by (cases "wpc_of s"; simp add: writer_steps Let_def ring_simps)+

lemma read_step_feed:
  assumes "verb_of (readers s i) = v" "\<not> ready (pc (readers s i))"
  shows "verb_of (readers (read_step i s) i) = v" "pc (readers (read_step i s) i) \<noteq> RIdle"
  using assms
  by (auto simp: read_step_def Let_def reader_step_def read_cursor_def read_seq_def read_check_def retry_def accept_def
      split: rpc.splits verb.splits)

lemma feed_step_inv:
  assumes "feed_step D s t" "feed_inv D n sz s" "\<And>k. length (d_make D k) = sz"
  shows "feed_inv D n sz t"
  using assms(1)
proof (cases rule: feed_step.cases)
  case f_produce
  have "length (d_make D (Suc (produced s))) = sizeofT (ring (fsys s))" using assms(2,3) by (simp add: feed_inv_def)
  then have "step (fsys s) (fsys t)" using step.begin_store [OF f_produce(2)] f_produce(1) by simp
  then show ?thesis using f_produce assms(2) by (auto simp: feed_inv_def made_Suc intro: reach_step)
next
  case f_write
  then have "step (fsys s) (fsys t)" using assms(2) by (auto simp: feed_inv_def intro: step.writer)
  then show ?thesis using f_write assms(2) writer_step_feed [of "fsys s"] by (auto simp: feed_inv_def intro: reach_step)
next
  case f_ask
  then have "step (fsys s) (fsys t)" using assms(2) by (auto simp: feed_inv_def intro: step.call)
  then show ?thesis using f_ask assms(2) by (auto simp: feed_inv_def invoke_def call_reader_def intro: reach_step)
next
  case f_look
  then have "step (fsys s) (fsys t)" by (auto intro: step.read)
  then show ?thesis using f_look assms(2) read_step_feed [of "fsys s" 0]
    by (auto simp: feed_inv_def read_step_def Let_def intro: reach_step)
qed (use assms(2) in \<open>auto simp: feed_inv_def\<close>)

lemma feed_init_inv: "feed_init D n sz c0 s \<Longrightarrow> 0 < n \<Longrightarrow> feed_inv D n sz s"
  by (auto simp: feed_init_def feed_inv_def init_sys_def made_def fresh_ring_def SeqlockRing_ctor_def initial_def intro!: reach_init)

text \<open>A demo whose samples have the size of the cells.\<close>

locale sized_demo =
  fixes D :: "'c demo" and n sz :: nat and c0 :: 'c
  assumes cells: "0 < n" and sized: "length (d_make D k) = sz"
begin

lemma feed_reach: "reach (feed_init D n sz c0) (feed_step D) s \<Longrightarrow> feed_inv D n sz s"
  by (induction rule: reach.induct) (auto intro: feed_init_inv feed_step_inv cells sized)

text \<open>What a finished read holds: samples that were made, in order, as new as what was there at the call.\<close>

lemma value_made:
  assumes "feed_inv D n sz s" "produced s < 2 ^ 63" "pc (readers (fsys s) 0) = RDone (OValue v)"
  shows "\<exists>k. 0 < k \<and> k \<le> length (hist (fsys s)) \<and> gfrom (fsys s) 0 \<le> k \<and> k \<le> produced s \<and> v = d_make D k"
proof -
  let ?c = "unat (cur (readers (fsys s) 0))"
  have r: "reach initial step (fsys s)" "gclean (fsys s) 0"
    using assms(1) reach_clean [of "fsys s" 0] by (auto simp: feed_inv_def)
  have "0 < ?c" "?c \<le> length (hist (fsys s))" "gfrom (fsys s) 0 \<le> ?c" "v = hist (fsys s) ! (?c - 1)"
    using reach_rd_inv [OF r(1), of 0] assms r(2) by (auto simp: rd_inv_def fits_def done_inv_def Let_def feed_inv_def)
  moreover have h: "hist (fsys s) @ in_flight (wpc_of (fsys s)) = made D (produced s)" using assms(1) by (simp add: feed_inv_def)
  moreover from h have "length (hist (fsys s)) \<le> produced s" by (metis length_append length_made le_add1)
  moreover have "hist (fsys s) ! (?c - 1) = made D (produced s) ! (?c - 1)" using calculation by (auto simp: h [symmetric] nth_append)
  ultimately show ?thesis using nth_made [of "?c - 1" "produced s" D] by (intro exI [of _ ?c]) auto
qed

lemma snapshot_made:
  assumes "feed_inv D n sz s" "produced s < 2 ^ 63" "pc (readers (fsys s) 0) = RDone (OSnap vs)" "d_verb D = VSnapshot k" "asking s"
  shows "\<exists>c. c \<le> produced s \<and> gfrom (fsys s) 0 \<le> c \<and> length vs \<le> c \<and> (\<forall>j < length vs. vs ! j = d_make D (c - j)) \<and>
    length vs \<le> min k (min c n) \<and> (length vs < min k (min c n) \<longrightarrow> c - 1 - length vs + n < produced s)"
proof -
  let ?c = "unat (cur (readers (fsys s) 0))"
  have r: "reach initial step (fsys s)" "gclean (fsys s) 0" "repairs (fsys s) = 0"
    and v: "verb_of (readers (fsys s) 0) = VSnapshot k" and n: "depthN (ring (fsys s)) = n"
    using assms(1,4,5) reach_clean [of "fsys s" 0] by (auto simp: feed_inv_def)
  have c: "?c \<le> length (hist (fsys s))" "gfrom (fsys s) 0 \<le> ?c" "length vs \<le> ?c"
      "\<forall>j < length vs. vs ! j = hist (fsys s) ! (?c - 1 - j)"
      "length vs \<le> min k (min ?c n)" "length vs < min k (min ?c n) \<longrightarrow> ?c - 1 - length vs + n < produced s"
    using reach_rd_inv [OF r(1), of 0] assms(1-3) r(2,3) v n
    by (auto simp: rd_inv_def fits_def done_inv_def Let_def feed_inv_def descending_def budget_def lapped_def)
  have h: "hist (fsys s) @ in_flight (wpc_of (fsys s)) = made D (produced s)" using assms(1) by (simp add: feed_inv_def)
  then have l: "length (hist (fsys s)) \<le> produced s" by (metis length_append length_made le_add1)
  have "hist (fsys s) ! (?c - 1 - j) = d_make D (?c - j)" if "j < length vs" for j
  proof -
    have "?c - 1 - j < length (hist (fsys s))" using that c(1,3) by linarith
    then have "hist (fsys s) ! (?c - 1 - j) = made D (produced s) ! (?c - 1 - j)" by (simp add: h [symmetric] nth_append)
    moreover have "?c - 1 - j < produced s" "Suc (?c - 1 - j) = ?c - j" using that c(1,3) l by linarith+
    ultimately show ?thesis using nth_made [of "?c - 1 - j" "produced s" D] by simp
  qed
  then show ?thesis using c l by (intro exI [of _ ?c]) auto
qed

end

section \<open>Latest-value example\<close>

text \<open>\<open>ImuState\<close>: the number, three computed and three constant doubles, the checksum.\<close>

definition ImuState_Make :: "(nat \<Rightarrow> nat \<Rightarrow> u64) \<Rightarrow> nat \<Rightarrow> u8 list" where
  "ImuState_Make gyro n =
     object_bytes [of_nat n, gyro 0 n, gyro 1 n, gyro 2 n, 0x3FF0000000000000, 0x4000000000000000, 0x4008000000000000, of_nat n * 7919]"

definition ImuState_Torn :: "u8 list \<Rightarrow> bool" where
  "ImuState_Torn s \<longleftrightarrow> word_at 7 s \<noteq> word_at 0 s * 7919"

record SlotConsumer =
  cycles :: nat
  last_seq :: u64
  torn_reads :: nat

definition slot_digest :: "outcome \<Rightarrow> SlotConsumer \<Rightarrow> SlotConsumer" where
  "slot_digest out c =
     (let c1 = (case out of
                  OValue s \<Rightarrow> c\<lparr>torn_reads := (if ImuState_Torn s then torn_reads c + 1 else torn_reads c), last_seq := word_at 0 s\<rparr>
                | _ \<Rightarrow> c)
      in c1\<lparr>cycles := cycles c1 + 1\<rparr>)"

definition slot_example :: "(nat \<Rightarrow> nat \<Rightarrow> u64) \<Rightarrow> SlotConsumer demo" where
  "slot_example gyro = \<lparr>d_make = ImuState_Make gyro, d_last = None, d_verb = VLoad, d_digest = slot_digest,
     d_more = (\<lambda>c. cycles c < 200000), d_exited = (\<lambda>c. c)\<rparr>"

definition slot_consumer0 :: SlotConsumer where
  "slot_consumer0 = \<lparr>cycles = 0, last_seq = 0, torn_reads = 0\<rparr>"

definition slot_exit :: "SlotConsumer \<Rightarrow> int" where
  "slot_exit c = (if torn_reads c = 0 then 0 else 1)"

section \<open>History-window example\<close>

definition ImuSample_Make :: "(nat \<Rightarrow> u64) \<Rightarrow> nat \<Rightarrow> u8 list" where
  "ImuSample_Make gyro t = object_bytes [of_nat t, gyro t, of_nat t * 2654435761]"

definition ImuSample_Torn :: "u8 list \<Rightarrow> bool" where
  "ImuSample_Torn s \<longleftrightarrow> word_at 2 s \<noteq> word_at 0 s * 2654435761"

record FusionConsumer =
  windows :: nat
  torn_samples :: nat
  gaps :: nat
  shortened :: nat

definition gap_count :: "u8 list list \<Rightarrow> nat" where
  "gap_count vs = length (filter (\<lambda>i. 0 < i \<and> word_at 0 (vs ! (i - 1)) \<noteq> word_at 0 (vs ! i) + 1) [0..<length vs])"

definition fusion_digest :: "outcome \<Rightarrow> FusionConsumer \<Rightarrow> FusionConsumer" where
  "fusion_digest out c =
     (case out of
        OSnap vs \<Rightarrow>
          if vs = [] then c
          else c\<lparr>torn_samples := torn_samples c + length (filter ImuSample_Torn vs), gaps := gaps c + gap_count vs,
                 shortened := (if length vs < 64 then shortened c + 1 else shortened c), windows := windows c + 1\<rparr>
      | _ \<Rightarrow> c)"

definition buffer_example :: "(nat \<Rightarrow> u64) \<Rightarrow> FusionConsumer demo" where
  "buffer_example gyro = \<lparr>d_make = ImuSample_Make gyro, d_last = None, d_verb = VSnapshot 64, d_digest = fusion_digest,
     d_more = (\<lambda>c. windows c < 100000), d_exited = (\<lambda>c. c)\<rparr>"

definition fusion_consumer0 :: FusionConsumer where
  "fusion_consumer0 = \<lparr>windows = 0, torn_samples = 0, gaps = 0, shortened = 0\<rparr>"

definition buffer_exit :: "FusionConsumer \<Rightarrow> int" where
  "buffer_exit c = (if torn_samples c = 0 \<and> gaps c = 0 then 0 else 1)"

section \<open>Region example\<close>

text \<open>The parent of the fork: it reads until it has seen the child's exit, then once more.\<close>

record RegionParent =
  r_torn :: nat
  live_windows :: nat
  child_gone :: bool
  final_window :: "u8 list list option"

definition region_digest :: "outcome \<Rightarrow> RegionParent \<Rightarrow> RegionParent" where
  "region_digest out c =
     (case out of
        OSnap vs \<Rightarrow>
          if child_gone c then c\<lparr>final_window := Some vs\<rparr>
          else c\<lparr>r_torn := r_torn c + length (filter ImuSample_Torn vs), live_windows := (if vs \<noteq> [] then live_windows c + 1 else live_windows c)\<rparr>
      | _ \<Rightarrow> c)"

text \<open>The program from the fork on, which succeeds: the three constructions over the mapped region are one ring, initialized
  once and shared; the child runs to its end.\<close>

definition region_example :: "(nat \<Rightarrow> u64) \<Rightarrow> RegionParent demo" where
  "region_example gyro = \<lparr>d_make = ImuSample_Make gyro, d_last = Some 100000, d_verb = VSnapshot 64, d_digest = region_digest,
     d_more = (\<lambda>c. final_window c = None), d_exited = (\<lambda>c. c\<lparr>child_gone := True\<rparr>)\<rparr>"

definition region_parent0 :: RegionParent where
  "region_parent0 = \<lparr>r_torn = 0, live_windows = 0, child_gone = False, final_window = None\<rparr>"

definition region_exit :: "RegionParent \<Rightarrow> int" where
  "region_exit c =
     (case final_window c of
        Some (s # vs) \<Rightarrow> if r_torn c = 0 \<and> length (s # vs) = 64 \<and> word_at 0 s = 100000 then 0 else 1
      | _ \<Rightarrow> 1)"

section \<open>The samples\<close>

lemma imu_state:
  "length (ImuState_Make gyro n) = 64" "word_at 0 (ImuState_Make gyro n) = of_nat n" "\<not> ImuState_Torn (ImuState_Make gyro n)"
proof -
  let ?ws = "[of_nat n, gyro 0 n, gyro 1 n, gyro 2 n, 0x3FF0000000000000, 0x4000000000000000, 0x4008000000000000, of_nat n * 7919] :: u64 list"
  have l: "length ?ws = 8" by simp
  then show "length (ImuState_Make gyro n) = 64" by (simp only: ImuState_Make_def length_object_bytes)
  have "word_at 0 (ImuState_Make gyro n) = ?ws ! 0" "word_at 7 (ImuState_Make gyro n) = ?ws ! 7"
    unfolding ImuState_Make_def using l by (simp_all only: word_at_object)
  moreover have "?ws ! 7 = of_nat n * 7919" by simp
  ultimately show "word_at 0 (ImuState_Make gyro n) = of_nat n" "\<not> ImuState_Torn (ImuState_Make gyro n)"
    by (simp_all add: ImuState_Torn_def)
qed

lemma imu_sample:
  "length (ImuSample_Make gyro t) = 24" "word_at 0 (ImuSample_Make gyro t) = of_nat t" "\<not> ImuSample_Torn (ImuSample_Make gyro t)"
proof -
  let ?ws = "[of_nat t, gyro t, of_nat t * 2654435761] :: u64 list"
  show "length (ImuSample_Make gyro t) = 24" by (simp add: ImuSample_Make_def)
  have "word_at 0 (ImuSample_Make gyro t) = ?ws ! 0" "word_at 2 (ImuSample_Make gyro t) = ?ws ! 2"
    unfolding ImuSample_Make_def by (subst word_at_object; simp)+
  then show "word_at 0 (ImuSample_Make gyro t) = of_nat t" "\<not> ImuSample_Torn (ImuSample_Make gyro t)"
    by (simp_all add: ImuSample_Torn_def)
qed

lemma window_clean:
  assumes "length vs \<le> c" "\<forall>j < length vs. vs ! j = ImuSample_Make gyro (c - j)"
  shows "filter ImuSample_Torn vs = []" "gap_count vs = 0"
proof -
  show "filter ImuSample_Torn vs = []" using assms(2) imu_sample(3) by (auto simp: filter_empty_conv in_set_conv_nth)
  have "word_at 0 (vs ! (i - 1)) = word_at 0 (vs ! i) + 1" if "0 < i" "i < length vs" for i
  proof -
    have "c - (i - 1) = Suc (c - i)" using that assms(1) by linarith
    then show ?thesis using that assms(2) imu_sample(2) by simp
  qed
  then have "\<not> (0 < i \<and> word_at 0 (vs ! (i - 1)) \<noteq> word_at 0 (vs ! i) + 1)" if "i < length vs" for i using that by blast
  then show "gap_count vs = 0" by (simp add: gap_count_def filter_empty_conv)
qed

interpretation slot_feed: sized_demo "slot_example gyro" 1 64 slot_consumer0 for gyro
  by unfold_locales (simp_all add: slot_example_def imu_state)

interpretation buffer_feed: sized_demo "buffer_example gyro" 256 24 fusion_consumer0 for gyro
  by unfold_locales (simp_all add: buffer_example_def imu_sample)

interpretation region_feed: sized_demo "region_example gyro" 64 24 region_parent0 for gyro
  by unfold_locales (simp_all add: region_example_def imu_sample)

section \<open>The consumers\<close>

text \<open>Reads that are under way or done were called when at least as much was published as the consumer
  had already seen.\<close>

definition slot_inv :: "SlotConsumer feed \<Rightarrow> bool" where
  "slot_inv s \<longleftrightarrow> torn_reads (consumer s) = 0 \<and> unat (last_seq (consumer s)) \<le> length (hist (fsys s)) \<and>
     (asking s \<longrightarrow> unat (last_seq (consumer s)) \<le> gfrom (fsys s) 0)"

lemma hist_grows: "storing_pc (wpc_of s) \<Longrightarrow> length (hist s) \<le> length (hist (writer_step s))" "gfrom (writer_step s) = gfrom s"
  by (cases "wpc_of s"; simp add: writer_steps Let_def)+

lemma read_keeps_hist [simp]: "hist (read_step i s) = hist s" "gfrom (read_step i s) = gfrom s"
  by (simp_all add: read_step_def Let_def)

lemma invoke_sel [simp]: "hist (invoke i v s) = hist s" "gfrom (invoke i v s) i = length (hist s)"
  by (simp_all add: invoke_def)

lemma slot_step:
  assumes "feed_step (slot_example gyro) s t" "feed_inv (slot_example gyro) 1 64 s" "slot_inv s" "produced t < 2 ^ 63"
  shows "slot_inv t \<and> last_seq (consumer s) \<le> last_seq (consumer t)"
  using assms(1)
proof (cases rule: feed_step.cases)
  case f_write
  then show ?thesis using assms(2,3) hist_grows [of "fsys s"] by (auto simp: slot_inv_def feed_inv_def)
next
  case (f_digest out)
  have n: "produced s < 2 ^ 63" using f_digest(1) assms(4) by simp
  show ?thesis
  proof (cases out)
    case (OValue v)
    then obtain k where k: "k \<le> length (hist (fsys s))" "gfrom (fsys s) 0 \<le> k" "k \<le> produced s" "v = ImuState_Make gyro k"
      using slot_feed.value_made [OF assms(2) n] f_digest(3) by (auto simp: slot_example_def)
    have "unat (of_nat k :: u64) = k" using k(3) n by (intro unat_of_nat_u64) simp
    then show ?thesis
      using k f_digest assms(3) OValue imu_state by (auto simp: slot_inv_def slot_example_def slot_digest_def word_le_nat_alt Let_def)
  qed (use f_digest assms(3) in \<open>auto simp: slot_inv_def slot_example_def slot_digest_def Let_def\<close>)
qed (use assms(3) in \<open>auto simp: slot_inv_def slot_example_def\<close>)

lemma feed_produced: "feed_step D s t \<Longrightarrow> produced s \<le> produced t"
  by (cases rule: feed_step.cases) auto

interpretation slot_run: inductive_invariant "feed_init (slot_example gyro) 1 64 slot_consumer0" "feed_step (slot_example gyro)"
    "\<lambda>s. produced s < 2 ^ 63" "\<lambda>s. feed_inv (slot_example gyro) 1 64 s \<and> slot_inv s" for gyro
proof (unfold_locales, goal_cases)
  case (1 s)
  then show ?case using feed_init_inv [of "slot_example gyro" 1 64 slot_consumer0 s]
    by (auto simp: feed_init_def slot_inv_def slot_consumer0_def init_sys_def)
next
  case (2 s t)
  then show ?case using feed_produced [of "slot_example gyro" s t] by auto
next
  case (3 s t)
  then show ?case using slot_step [of gyro s t] feed_step_inv [of "slot_example gyro" s t 1 64] slot_feed.sized by auto
qed

definition fusion_inv :: "FusionConsumer feed \<Rightarrow> bool" where
  "fusion_inv s \<longleftrightarrow> torn_samples (consumer s) = 0 \<and> gaps (consumer s) = 0"

lemma fusion_step:
  assumes "feed_step (buffer_example gyro) s t" "feed_inv (buffer_example gyro) 256 24 s" "fusion_inv s" "produced t < 2 ^ 63"
  shows "fusion_inv t"
  using assms(1)
proof (cases rule: feed_step.cases)
  case (f_digest out)
  have n: "produced s < 2 ^ 63" using f_digest(1) assms(4) by simp
  show ?thesis
  proof (cases out)
    case (OSnap vs)
    then obtain c where "length vs \<le> c" "\<forall>j < length vs. vs ! j = ImuSample_Make gyro (c - j)"
      using buffer_feed.snapshot_made [OF assms(2) n _ _ f_digest(2), of vs 64] f_digest(3) by (auto simp: buffer_example_def)
    from window_clean [OF this] show ?thesis
      using f_digest assms(3) OSnap by (auto simp: fusion_inv_def buffer_example_def fusion_digest_def)
  qed (use f_digest assms(3) in \<open>auto simp: fusion_inv_def buffer_example_def fusion_digest_def\<close>)
qed (use assms(3) in \<open>auto simp: fusion_inv_def buffer_example_def\<close>)

interpretation fusion_run: inductive_invariant "feed_init (buffer_example gyro) 256 24 fusion_consumer0" "feed_step (buffer_example gyro)"
    "\<lambda>s. produced s < 2 ^ 63" "\<lambda>s. feed_inv (buffer_example gyro) 256 24 s \<and> fusion_inv s" for gyro
proof (unfold_locales, goal_cases)
  case (1 s)
  then show ?case using feed_init_inv [of "buffer_example gyro" 256 24 fusion_consumer0 s]
    by (auto simp: feed_init_def fusion_inv_def fusion_consumer0_def)
next
  case (2 s t)
  then show ?case using feed_produced [of "buffer_example gyro" s t] by auto
next
  case (3 s t)
  then show ?case using fusion_step [of gyro s t] feed_step_inv [of "buffer_example gyro" s t 256 24] buffer_feed.sized by auto
qed

text \<open>Once the parent has seen the child's exit, everything is published and nothing moves any more.\<close>

definition region_inv :: "(nat \<Rightarrow> u64) \<Rightarrow> RegionParent feed \<Rightarrow> bool" where
  "region_inv gyro s \<longleftrightarrow> r_torn (consumer s) = 0 \<and> produced s \<le> 100000 \<and>
     (child_gone (consumer s) \<longrightarrow> produced s = 100000 \<and> wpc_of (fsys s) = WIdle \<and> (asking s \<longrightarrow> gfrom (fsys s) 0 = 100000)) \<and>
     (\<forall>vs. final_window (consumer s) = Some vs \<longrightarrow> child_gone (consumer s) \<and> vs = map (ImuSample_Make gyro) (rev [99937..<100001]))"

lemma idle_hist: "feed_inv D n sz s \<Longrightarrow> wpc_of (fsys s) = WIdle \<Longrightarrow> length (hist (fsys s)) = produced s"
  by (metis append_Nil2 feed_inv_def in_flight.simps(7) length_made)

lemma final_window_full:
  assumes "feed_inv (region_example gyro) 64 24 s" "region_inv gyro s" "asking s" "child_gone (consumer s)"
    and "pc (readers (fsys s) 0) = RDone (OSnap vs)"
  shows "vs = map (ImuSample_Make gyro) (rev [99937..<100001])"
proof -
  have p: "produced s = 100000" "wpc_of (fsys s) = WIdle" "gfrom (fsys s) 0 = 100000" using assms(2-4) by (auto simp: region_inv_def)
  have "produced s < 2 ^ 63" "d_verb (region_example gyro) = VSnapshot 64" by (simp_all add: p region_example_def)
  from region_feed.snapshot_made [OF assms(1) this(1) assms(5) this(2) assms(3), unfolded p]
  obtain c where c: "c \<le> 100000" "100000 \<le> c" "\<forall>j < length vs. vs ! j = d_make (region_example gyro) (c - j)"
      "length vs \<le> min 64 (min c 64)" "length vs < min 64 (min c 64) \<longrightarrow> c - 1 - length vs + 64 < 100000"
    by blast
  from c(1,2) have c1: "c = 100000" by linarith
  then have "length vs = 64" using c(4,5) by (cases "length vs < 64") auto
  with c1 have c': "c = 100000" "length vs = 64" by simp_all
  have m: "\<forall>j < length vs. vs ! j = ImuSample_Make gyro (c - j)" using c(3) by (simp add: region_example_def)
  show ?thesis
  proof (rule nth_equalityI)
    fix j assume j: "j < length vs"
    have "rev [99937..<100001] ! j = (100000 - j :: nat)" using j c'(2) by (simp add: rev_nth del: upt_rec_numeral)
    then show "vs ! j = map (ImuSample_Make gyro) (rev [99937..<100001]) ! j" using j m c' by (simp del: upt_rec_numeral)
  qed (simp add: c' del: upt_rec_numeral)
qed

lemma region_step:
  assumes "feed_step (region_example gyro) s t" "feed_inv (region_example gyro) 64 24 s" "region_inv gyro s"
  shows "region_inv gyro t"
  using assms(1)
proof (cases rule: feed_step.cases)
  case (f_digest out)
  have n: "produced s < 2 ^ 63" using assms(3) by (simp add: region_inv_def)
  show ?thesis
  proof (cases out)
    case (OSnap vs)
    show ?thesis
    proof (cases "child_gone (consumer s)")
      case True
      then show ?thesis using final_window_full [OF assms(2,3) f_digest(2) True, of vs] f_digest assms(3) OSnap
        by (auto simp: region_inv_def region_example_def region_digest_def)
    next
      case False
      obtain c where "length vs \<le> c" "\<forall>j < length vs. vs ! j = ImuSample_Make gyro (c - j)"
        using region_feed.snapshot_made [OF assms(2) n _ _ f_digest(2), of vs 64] f_digest(3) OSnap by (auto simp: region_example_def)
      from window_clean(1) [OF this] show ?thesis
        using f_digest assms(3) OSnap False by (auto simp: region_inv_def region_example_def region_digest_def)
    qed
  qed (use f_digest assms(3) in \<open>auto simp: region_inv_def region_example_def region_digest_def\<close>)
next
  case f_ask
  then show ?thesis using assms(3) idle_hist [OF assms(2)] by (auto simp: region_inv_def region_example_def invoke_def)
next
  case f_look
  then show ?thesis using assms(3) by (auto simp: region_inv_def region_example_def read_step_def Let_def)
next
  case f_exited
  then show ?thesis using assms(3) by (auto simp: region_inv_def region_example_def)
next
  case f_produce
  then show ?thesis using assms(3) by (auto simp: region_inv_def region_example_def may_produce_def)
next
  case f_write
  then show ?thesis using assms(3) by (auto simp: region_inv_def region_example_def)
qed

interpretation region_run: inductive_invariant "feed_init (region_example gyro) 64 24 region_parent0" "feed_step (region_example gyro)"
    "\<lambda>s. True" "\<lambda>s. feed_inv (region_example gyro) 64 24 s \<and> region_inv gyro s" for gyro
proof (unfold_locales, goal_cases)
  case (1 s)
  then show ?case using feed_init_inv [of "region_example gyro" 64 24 region_parent0 s]
    by (auto simp: feed_init_def region_inv_def region_parent0_def)
next
  case (3 s t)
  then show ?case using region_step [of gyro s t] feed_step_inv [of "region_example gyro" s t 64 24] region_feed.sized by auto
qed simp

section \<open>Progress\<close>

text \<open>A store that has begun is finished, and a snapshot returns, with nothing else moving.\<close>

lemma store_out:
  "reach I (feed_step D) s \<Longrightarrow> storing v (wpc_of (fsys s)) \<Longrightarrow>
    \<exists>t. reach I (feed_step D) t \<and> wpc_of (fsys t) = WIdle \<and> produced t = produced s \<and> asking t = asking s \<and> consumer t = consumer s"
proof (induction "writes_left (wpc_of (fsys s))" arbitrary: s rule: less_induct)
  case less
  let ?t = "s\<lparr>fsys := writer_step (fsys s)\<rparr>"
  have "wpc_of (fsys s) \<noteq> WIdle" using less.prems(2) by auto
  then have r: "reach I (feed_step D) ?t" using less.prems(1) by (auto intro: reach_step feed_step.f_write)
  have l: "writes_left (wpc_of (fsys ?t)) < writes_left (wpc_of (fsys s))" using storing_step(1) [OF less.prems(2)] by simp
  from storing_step(2) [OF less.prems(2)] show ?case
  proof
    assume "storing v (wpc_of (writer_step (fsys s))) \<and> hist (writer_step (fsys s)) = hist (fsys s)"
    then show ?thesis using less.hyps [OF l r] by simp
  next
    assume "wpc_of (writer_step (fsys s)) = WIdle \<and> hist (writer_step (fsys s)) = hist (fsys s) @ [v]"
    then show ?thesis using r by (intro exI [of _ ?t]) simp
  qed
qed

lemma look_out:
  "reach I (feed_step D) s \<Longrightarrow> asking s \<Longrightarrow> snapping k (kWords (sizeofT (ring (fsys s)))) (readers (fsys s) 0) \<Longrightarrow>
    \<exists>t vs. reach I (feed_step D) t \<and> asking t \<and> pc (readers (fsys t) 0) = RDone (OSnap vs) \<and> consumer t = consumer s \<and>
      produced t = produced s \<and> gfrom (fsys t) 0 = gfrom (fsys s) 0"
proof (induction "reads_left k (depthN (ring (fsys s))) (kWords (sizeofT (ring (fsys s)))) (readers (fsys s) 0)"
    arbitrary: s rule: less_induct)
  case less
  show ?case
  proof (cases "ready (pc (readers (fsys s) 0))")
    case True
    then have "\<exists>vs. pc (readers (fsys s) 0) = RDone (OSnap vs)"
      using less.prems(3) by (cases "pc (readers (fsys s) 0)") (auto simp: snapping_def split: outcome.splits)
    then show ?thesis using less.prems(1,2) by blast
  next
    case False
    let ?t = "s\<lparr>fsys := read_step 0 (fsys s)\<rparr>"
    have "reach I (feed_step D) ?t" using less.prems(1,2) False by (auto intro: reach_step feed_step.f_look)
    moreover have "ring (fsys ?t) = ring (fsys s)" using read_step_frame [of "fsys s" 0] by (simp add: rframe_def)
    moreover have "readers (fsys ?t) 0 = reader_step (ring (fsys s)) (readers (fsys s) 0)" by (simp add: read_step_reader)
    ultimately show ?thesis using less.hyps [of ?t] less.prems(2) snapping_step [OF less.prems(3) False] by simp
  qed
qed

lemma feed_produces:
  "(\<And>l. d_last D = Some l \<Longrightarrow> m \<le> l) \<Longrightarrow> \<exists>s. reach (feed_init D n sz c0) (feed_step D) s \<and> wpc_of (fsys s) = WIdle \<and>
     \<not> asking s \<and> produced s = m \<and> consumer s = c0"
proof (induction m)
  case 0
  let ?s = "\<lparr>fsys = init_sys n sz, produced = 0, asking = False, consumer = c0\<rparr>"
  have "reach (feed_init D n sz c0) (feed_step D) ?s" by (rule reach_init) (simp add: feed_init_def)
  then show ?case by (intro exI [of _ ?s]) (simp add: init_sys_def)
next
  case (Suc m)
  have "m \<le> l" if "d_last D = Some l" for l using Suc.prems [OF that] by simp
  with Suc.IH obtain s where s: "reach (feed_init D n sz c0) (feed_step D) s" "wpc_of (fsys s) = WIdle" "\<not> asking s"
      "produced s = m" "consumer s = c0" by blast
  have "may_produce D s" using s(4) Suc.prems by (auto simp: may_produce_def Suc_le_eq split: option.split)
  note t = reach_step [OF s(1) feed_step.f_produce [OF s(2) this]]
  from store_out [OF t, of "d_make D (Suc (produced s))"] s show ?case by auto
qed

lemma feed_snapshot:
  assumes "reach I (feed_step D) s" "\<not> asking s" "d_more D (consumer s)" "d_verb D = VSnapshot k"
  shows "\<exists>t vs. reach I (feed_step D) t \<and> asking t \<and> pc (readers (fsys t) 0) = RDone (OSnap vs) \<and> consumer t = consumer s \<and>
    produced t = produced s \<and> gfrom (fsys t) 0 = length (hist (fsys s))"
proof -
  let ?t = "s\<lparr>fsys := invoke 0 (d_verb D) (fsys s), asking := True\<rparr>"
  have r: "reach I (feed_step D) ?t" using assms by (blast intro: reach_step feed_step.f_ask)
  have "snapping k (kWords (sizeofT (ring (fsys ?t)))) (readers (fsys ?t) 0)"
    using assms(4) by (simp add: invoke_def call_reader_def snapping_def)
  from look_out [OF r _ this] show ?thesis by simp
qed

lemma region_finishes:
  "\<exists>s vs. reach (feed_init (region_example gyro) 64 24 region_parent0) (feed_step (region_example gyro)) s \<and>
     final_window (consumer s) = Some vs"
proof -
  let ?D = "region_example gyro"
  obtain s where s: "reach (feed_init ?D 64 24 region_parent0) (feed_step ?D) s" "wpc_of (fsys s) = WIdle" "\<not> asking s"
      "produced s = 100000" "consumer s = region_parent0"
    using feed_produces [of ?D 100000 64 24 region_parent0] by (auto simp: region_example_def)
  let ?s = "s\<lparr>consumer := d_exited ?D (consumer s)\<rparr>"
  have "d_last ?D = Some (produced s)" using s(4) by (simp add: region_example_def)
  note r = reach_step [OF s(1) feed_step.f_exited [OF s(3) this s(2)]]
  have c: "consumer ?s = region_parent0\<lparr>child_gone := True\<rparr>" using s(5) by (simp add: region_example_def)
  have "\<not> asking ?s" "d_more ?D (consumer ?s)" "d_verb ?D = VSnapshot 64"
    using s(3) c by (simp_all add: region_example_def region_parent0_def)
  from feed_snapshot [OF r this] obtain t vs where t: "reach (feed_init ?D 64 24 region_parent0) (feed_step ?D) t" "asking t"
      "pc (readers (fsys t) 0) = RDone (OSnap vs)" "consumer t = consumer ?s" by blast
  let ?t = "t\<lparr>asking := False, consumer := d_digest ?D (OSnap vs) (consumer t)\<rparr>"
  have "final_window (consumer ?t) = Some vs" using t(4) c by (simp add: region_example_def region_digest_def)
  with reach_step [OF t(1) feed_step.f_digest [OF t(2,3)]] show ?thesis by blast
qed

lemma fusion_reads:
  "\<exists>s. reach (feed_init (buffer_example gyro) 256 24 fusion_consumer0) (feed_step (buffer_example gyro)) s \<and>
     produced s = 1 \<and> windows (consumer s) = 1"
proof -
  let ?D = "buffer_example gyro"
  obtain s where s: "reach (feed_init ?D 256 24 fusion_consumer0) (feed_step ?D) s" "wpc_of (fsys s) = WIdle" "\<not> asking s"
      "produced s = 1" "consumer s = fusion_consumer0"
    using feed_produces [of ?D 1 256 24 fusion_consumer0] by (auto simp: buffer_example_def)
  have h: "length (hist (fsys s)) = 1" using idle_hist [OF buffer_feed.feed_reach [OF s(1)] s(2)] s(4) by simp
  have v: "d_more ?D (consumer s)" "d_verb ?D = VSnapshot 64" using s(5) by (simp_all add: buffer_example_def fusion_consumer0_def)
  from feed_snapshot [OF s(1,3) v] obtain t vs where t: "reach (feed_init ?D 256 24 fusion_consumer0) (feed_step ?D) t" "asking t"
      "pc (readers (fsys t) 0) = RDone (OSnap vs)" "consumer t = consumer s" "produced t = 1" "gfrom (fsys t) 0 = 1"
    using s(4) h by auto
  have n: "produced t < 2 ^ 63" using t(5) by simp
  from buffer_feed.snapshot_made [OF buffer_feed.feed_reach [OF t(1)] n t(3) v(2) t(2)] t(5,6)
  have "vs \<noteq> []" by auto
  then have "windows (d_digest ?D (OSnap vs) (consumer t)) = 1"
    using t(4) s(5) by (simp add: buffer_example_def fusion_digest_def fusion_consumer0_def)
  with reach_step [OF t(1) feed_step.f_digest [OF t(2,3)]] t(5) show ?thesis
    by (intro exI [of _ "t\<lparr>asking := False, consumer := d_digest ?D (OSnap vs) (consumer t)\<rparr>"]) simp
qed

section \<open>Properties\<close>

text \<open>The latest-value example: however the estimator's store and the control loop's load
  interleave, no load is torn, the number last seen never goes back, and the program exits with 0.\<close>

theorem latest_sample_monotone:
  assumes "reach (feed_init (slot_example gyro) 1 64 slot_consumer0) (feed_step (slot_example gyro)) s" "produced s < 2 ^ 63"
  shows "torn_reads (consumer s) = 0 \<and> slot_exit (consumer s) = 0 \<and>
    (\<forall>t. feed_step (slot_example gyro) s t \<longrightarrow> produced t < 2 ^ 63 \<longrightarrow> last_seq (consumer s) \<le> last_seq (consumer t))"
proof -
  have i: "feed_inv (slot_example gyro) 1 64 s" "slot_inv s" using slot_run.reach_inv [OF assms] by simp_all
  then show ?thesis using slot_step [of gyro s] by (auto simp: slot_inv_def slot_exit_def)
qed

theorem latest_sample_monotone_witness:
  "\<exists>s. reach (feed_init (slot_example (\<lambda>_ _. 0)) 1 64 slot_consumer0) (feed_step (slot_example (\<lambda>_ _. 0))) s \<and>
     produced s = 2 \<and> torn_reads (consumer s) = 0 \<and> slot_exit (consumer s) = 0"
proof -
  obtain s where s: "reach (feed_init (slot_example (\<lambda>_ _. 0)) 1 64 slot_consumer0) (feed_step (slot_example (\<lambda>_ _. 0))) s" "produced s = 2"
    using feed_produces [of "slot_example (\<lambda>_ _. 0)" 2 1 64 slot_consumer0] by (auto simp: slot_example_def)
  then have "produced s < 2 ^ 63" by simp
  from latest_sample_monotone [OF s(1) this] s show ?thesis by blast
qed

text \<open>The history-window example: every window the fusion consumer reads while the driver
  stores is free of torn samples and of gaps, so the program exits with 0.\<close>

theorem fusion_windows_clean:
  assumes "reach (feed_init (buffer_example gyro) 256 24 fusion_consumer0) (feed_step (buffer_example gyro)) s" "produced s < 2 ^ 63"
  shows "torn_samples (consumer s) = 0 \<and> gaps (consumer s) = 0 \<and> buffer_exit (consumer s) = 0"
  using fusion_run.reach_inv [OF assms] by (simp add: fusion_inv_def buffer_exit_def)

theorem fusion_windows_clean_witness:
  "\<exists>s. reach (feed_init (buffer_example (\<lambda>_. 0)) 256 24 fusion_consumer0) (feed_step (buffer_example (\<lambda>_. 0))) s \<and>
     windows (consumer s) = 1 \<and> gaps (consumer s) = 0 \<and> buffer_exit (consumer s) = 0"
proof -
  obtain s where s: "reach (feed_init (buffer_example (\<lambda>_. 0)) 256 24 fusion_consumer0) (feed_step (buffer_example (\<lambda>_. 0))) s"
    "produced s = 1" "windows (consumer s) = 1" using fusion_reads [of "\<lambda>_. 0"] by blast
  then have "produced s < 2 ^ 63" by simp
  from fusion_windows_clean [OF s(1) this] s show ?thesis by blast
qed

text \<open>Property C29. The cross-process example: no window the parent reads beside the running child is torn,
  and the window it reads after the child's exit holds exactly the last 64 of the 100000 samples, newest first, so the
  parent exits with 0.\<close>

theorem region_window_survives:
  assumes "reach (feed_init (region_example gyro) 64 24 region_parent0) (feed_step (region_example gyro)) s"
    and "final_window (consumer s) = Some vs"
  shows "vs = map (ImuSample_Make gyro) (rev [99937..<100001]) \<and> r_torn (consumer s) = 0 \<and> region_exit (consumer s) = 0"
proof -
  have i: "r_torn (consumer s) = 0" "vs = map (ImuSample_Make gyro) (rev [99937..<100001])"
    using region_run.reach_inv [OF assms(1) TrueI] assms(2) by (simp_all add: region_inv_def del: upt_rec_numeral)
  have "rev [99937..<100001] = 100000 # rev [99937..<100000 :: nat]" using upt_Suc_append [of 99937 100000] by simp
  then have "vs = ImuSample_Make gyro 100000 # map (ImuSample_Make gyro) (rev [99937..<100000])" using i(2) by simp
  then show ?thesis using i assms(2) imu_sample(2) [of gyro 100000] by (simp add: region_exit_def del: upt_rec_numeral)
qed

theorem region_window_survives_witness:
  "\<exists>s vs. reach (feed_init (region_example (\<lambda>_. 0)) 64 24 region_parent0) (feed_step (region_example (\<lambda>_. 0))) s \<and>
     final_window (consumer s) = Some vs \<and> length vs = 64 \<and> region_exit (consumer s) = 0"
proof -
  obtain s vs where "reach (feed_init (region_example (\<lambda>_. 0)) 64 24 region_parent0) (feed_step (region_example (\<lambda>_. 0))) s"
    "final_window (consumer s) = Some vs" using region_finishes [of "\<lambda>_. 0"] by blast
  with region_window_survives [OF this] show ?thesis by (auto simp del: upt_rec_numeral)
qed

end
