(* ===== verification/Worker_Inbox.thy ===== *)
theory Worker_Inbox
  imports Spsc_Conc "HOL-Library.Sublist"
begin

text \<open>
  \<open>examples/concurrency_worker_inbox_example.cpp\<close>: the bounded worker inbox, a composition of \<open>SpscQueue\<close>
  and \<open>EventCount\<close>. The main thread pushes numbered commands, counts what the queue accepts and rejects and
  notifies after each accepted one; the worker drains, tests the shutdown flag and parks with a bound. Both
  interleave one shared access at a time; queue accesses are those of \<open>Spsc_Conc\<close>, the parking loop is
  \<open>WaitUntil\<close> of \<open>event_count.hpp\<close> with the example's predicate in place. The number of commands, 100000 in the
  source, is the argument \<open>n\<close>.
\<close>

section \<open>The program\<close>

record Command =
  kind :: u32
  arg :: u64

abbreviation cmd :: "nat \<Rightarrow> Command" where
  "cmd k \<equiv> \<lparr>kind = 1, arg = of_nat k\<rparr>"

text \<open>Program points. \<open>MAdd\<close> and \<open>MWake\<close> are the two halves of \<open>NotifyAll\<close>; their argument tells the last one,
  after the shutdown store, from those of the loop.\<close>

datatype mpc = MFor | MPush | MAdd bool | MWake bool | MShut | MJoin | MDone

datatype wkpc =
    WkPop | WkShut | WkGen | WkHead u32 | WkTail u32 u64 | WkFlag u32 | WkClock u32 | WkPark u32 | WkSleep u32 | WkFinal | WkExit

record Inbox =
  chan :: "Command duo"
  word :: u32
  shutdown :: bool
  main_pc :: mpc
  worker_pc :: wkpc
  loop_i :: nat
  sent_n :: nat
  rejected_n :: nat
  handled_n :: nat
  \<comment> \<open>ghost: increments of the word, and their number at the worker's last generation load\<close>
  adds :: nat
  seen_adds :: nat

definition inbox_main_step :: "nat \<Rightarrow> Inbox \<Rightarrow> Inbox" where
  "inbox_main_step n s =
     (case main_pc s of
        MFor \<Rightarrow>
          if loop_i s < n
          then s\<lparr>chan := duo_act (BeginPush (cmd (loop_i s))) (chan s), main_pc := MPush\<rparr>
          else s\<lparr>main_pc := MShut\<rparr>
      | MPush \<Rightarrow>
          (case prod (chan s) of
             PDone b \<Rightarrow>
               if b then s\<lparr>sent_n := sent_n s + 1, main_pc := MAdd False\<rparr>
               else s\<lparr>rejected_n := rejected_n s + 1, loop_i := loop_i s + 1, main_pc := MFor\<rparr>
           | _ \<Rightarrow> s\<lparr>chan := duo_act PStep (chan s)\<rparr>)
      | MAdd stop \<Rightarrow> s\<lparr>word := word s + 1, adds := adds s + 1, main_pc := MWake stop\<rparr>
      | MWake stop \<Rightarrow>
          (let s1 = s\<lparr>worker_pc := (case worker_pc s of WkSleep g \<Rightarrow> WkGen | p \<Rightarrow> p)\<rparr>
           in if stop then s1\<lparr>main_pc := MJoin\<rparr> else s1\<lparr>main_pc := MFor, loop_i := loop_i s + 1\<rparr>)
      | MShut \<Rightarrow> s\<lparr>shutdown := True, main_pc := MAdd True\<rparr>
      | MJoin \<Rightarrow> if worker_pc s = WkExit then s\<lparr>main_pc := MDone\<rparr> else s
      | MDone \<Rightarrow> s)"

text \<open>Back to the top of the worker's loop: the first \<open>TryPop\<close> of a drain.\<close>

definition drain :: "Inbox \<Rightarrow> Inbox" where
  "drain s = s\<lparr>chan := duo_act BeginPop (chan s), worker_pc := WkPop\<rparr>"

text \<open>\<open>expired\<close> is what the clock comparison of \<open>WaitUntil\<close> answers. A sleeper may return at any time.\<close>

definition inbox_worker_step :: "bool \<Rightarrow> Inbox \<Rightarrow> Inbox" where
  "inbox_worker_step expired s =
     (let q = queue (chan s) in
      case worker_pc s of
        WkPop \<Rightarrow>
          (case cons (chan s) of
             CIdle \<Rightarrow> drain s
           | CDone r \<Rightarrow>
               (case r of
                  Some c \<Rightarrow> drain (s\<lparr>handled_n := handled_n s + 1\<rparr>)
                | None \<Rightarrow> s\<lparr>worker_pc := WkShut\<rparr>)
           | _ \<Rightarrow> s\<lparr>chan := duo_act CStep (chan s)\<rparr>)
      | WkShut \<Rightarrow> s\<lparr>worker_pc := (if shutdown s then WkExit else WkGen)\<rparr>
      | WkGen \<Rightarrow> s\<lparr>worker_pc := WkHead (word s), seen_adds := adds s\<rparr>
      | WkHead g \<Rightarrow> s\<lparr>worker_pc := WkTail g (head q)\<rparr>
      | WkTail g h \<Rightarrow> if (if h \<le> tail q then tail q - h else 0) \<noteq> 0 then drain s else s\<lparr>worker_pc := WkFlag g\<rparr>
      | WkFlag g \<Rightarrow> if shutdown s then drain s else s\<lparr>worker_pc := WkClock g\<rparr>
      | WkClock g \<Rightarrow> s\<lparr>worker_pc := (if expired then WkFinal else WkPark g)\<rparr>
      | WkPark g \<Rightarrow> s\<lparr>worker_pc := (if word s = g then WkSleep g else WkGen)\<rparr>
      | WkSleep g \<Rightarrow> s\<lparr>worker_pc := WkGen\<rparr>
      | WkFinal \<Rightarrow> drain s
      | WkExit \<Rightarrow> s)"

inductive inbox_step :: "nat \<Rightarrow> Inbox \<Rightarrow> Inbox \<Rightarrow> bool" for n :: nat where
  main_moves: "inbox_step n s (inbox_main_step n s)"
| worker_moves: "inbox_step n s (inbox_worker_step expired s)"

inductive_cases inbox_stepE: "inbox_step n s t"

definition inbox_start :: "Command \<Rightarrow> Command Spsc \<Rightarrow> Inbox" where
  "inbox_start dflt placed =
     \<lparr>chan = duo_start dflt 64 placed, word = 0, shutdown = False, main_pc = MFor, worker_pc = WkPop,
      loop_i = 0, sent_n = 0, rejected_n = 0, handled_n = 0, adds = 0, seen_adds = 0\<rparr>"

definition inbox_init :: "Inbox \<Rightarrow> bool" where
  "inbox_init s \<longleftrightarrow> (\<exists>dflt placed. s = inbox_start dflt placed)"

definition inbox_exit :: "nat \<Rightarrow> Inbox \<Rightarrow> int" where
  "inbox_exit n s = (if sent_n s + rejected_n s = n then 0 else 1)"

section \<open>The queue inside\<close>

lemma duo_act_capacity [simp]: "capacity (queue (duo_act a d)) = capacity (queue d)"
  by (cases a; cases "prod d"; cases "cons d") (simp_all add: producer_step.simps consumer_step.simps Let_def)

lemma inbox_chan_step: "inbox_step n s t \<Longrightarrow> \<exists>as. chan t = duo_run as (chan s)"
proof (erule inbox_stepE)
  show "t = inbox_main_step n s \<Longrightarrow> \<exists>as. chan t = duo_run as (chan s)"
    by (cases "main_pc s"; cases "prod (chan s)")
      (auto simp: inbox_main_step_def duo_run_def Let_def simp del: duo_act.simps
        intro: exI [of _ "[]"] exI [of _ "[BeginPush (cmd (loop_i s))]"] exI [of _ "[PStep]"])
  show "\<And>expired. t = inbox_worker_step expired s \<Longrightarrow> \<exists>as. chan t = duo_run as (chan s)"
    by (cases "worker_pc s"; cases "cons (chan s)")
      (auto simp: inbox_worker_step_def drain_def duo_run_def Let_def simp del: duo_act.simps split: option.splits
        intro: exI [of _ "[]"] exI [of _ "[BeginPop]"] exI [of _ "[CStep]"])
qed

definition chan_inv :: "Inbox \<Rightarrow> bool" where
  "chan_inv s \<longleftrightarrow> reach duo_init duo_step (chan s) \<and> capacity (queue (chan s)) = 64"

lemma duo_run_capacity: "capacity (queue (duo_run as d)) = capacity (queue d)"
  unfolding duo_run_def by (induction as arbitrary: d) (simp_all del: duo_act.simps)

lemma chan_inv_duo: "chan_inv s \<Longrightarrow> duo_inv (chan s)"
  by (rule duo.reach_inv) (simp_all add: chan_inv_def duo_fits_def index_ok_def)

section \<open>Invariants\<close>

text \<open>How far the main thread's loop has come: the commands below \<open>tried\<close> have been offered.\<close>

definition tried :: "Inbox \<Rightarrow> nat" where
  "tried s = (if main_pc s = MPush \<and> prod (chan s) = PDone True \<or> main_pc s \<in> {MAdd False, MWake False} then loop_i s + 1 else loop_i s)"

fun pushing :: "Command ppc \<Rightarrow> Command option" where
  "pushing (PCap v) = Some v"
| "pushing (PTail v c) = Some v"
| "pushing (PHead v c t) = Some v"
| "pushing (PCell v c t) = Some v"
| "pushing (PPub v c t) = Some v"
| "pushing p = None"

definition main_inv :: "nat \<Rightarrow> Inbox \<Rightarrow> bool" where
  "main_inv n s \<longleftrightarrow> sent_n s + rejected_n s = (if main_pc s \<in> {MAdd False, MWake False} then loop_i s + 1 else loop_i s) \<and>
     length (pushed (chan s)) = sent_n s + (if main_pc s = MPush \<and> prod (chan s) = PDone True then 1 else 0) \<and>
     subseq (pushed (chan s)) (map cmd [0..<tried s]) \<and>
     (main_pc s \<noteq> MPush \<longrightarrow> p_free (chan s)) \<and>
     (main_pc s = MPush \<longrightarrow> prod (chan s) = PDone True \<or> prod (chan s) = PDone False \<or> pushing (prod (chan s)) = Some (cmd (loop_i s))) \<and>
     (case main_pc s of MFor \<Rightarrow> loop_i s \<le> n | MPush \<Rightarrow> loop_i s < n | MAdd False \<Rightarrow> loop_i s < n | MWake False \<Rightarrow> loop_i s < n
        | _ \<Rightarrow> loop_i s = n) \<and>
     (shutdown s \<longleftrightarrow> main_pc s \<in> {MAdd True, MWake True, MJoin, MDone}) \<and>
     adds s + (if main_pc s = MAdd False then 1 else 0) = sent_n s + (if main_pc s \<in> {MWake True, MJoin, MDone} then 1 else 0)"

definition owing :: "Inbox \<Rightarrow> bool" where
  "owing s \<longleftrightarrow> main_pc s = MPush \<and> prod (chan s) = PDone True \<or> main_pc s \<in> {MAdd True, MAdd False}"

definition waking :: "Inbox \<Rightarrow> bool" where
  "waking s \<longleftrightarrow> main_pc s \<in> {MWake True, MWake False}"

abbreviation unread :: "Inbox \<Rightarrow> bool" where
  "unread s \<equiv> length (popped (chan s)) < length (pushed (chan s))"

definition work_inv :: "Inbox \<Rightarrow> bool" where
  "work_inv s \<longleftrightarrow> word s = of_nat (adds s) \<and> seen_adds s \<le> adds s \<and>
     length (popped (chan s)) = handled_n s + (case cons (chan s) of CDone (Some c) \<Rightarrow> 1 | _ \<Rightarrow> 0) \<and>
     (worker_pc s \<noteq> WkPop \<longrightarrow> cons (chan s) = CDone None) \<and>
     (case worker_pc s of
        WkHead g \<Rightarrow> g = of_nat (seen_adds s)
      | WkTail g h \<Rightarrow> g = of_nat (seen_adds s) \<and> h = head (queue (chan s))
      | WkFlag g \<Rightarrow> g = of_nat (seen_adds s) \<and> (unread s \<longrightarrow> owing s \<or> seen_adds s < adds s)
      | WkClock g \<Rightarrow> g = of_nat (seen_adds s) \<and> (unread s \<or> shutdown s \<longrightarrow> owing s \<or> seen_adds s < adds s)
      | WkPark g \<Rightarrow> g = of_nat (seen_adds s) \<and> (unread s \<or> shutdown s \<longrightarrow> owing s \<or> seen_adds s < adds s)
      | WkSleep g \<Rightarrow> unread s \<or> shutdown s \<longrightarrow> owing s \<or> waking s
      | _ \<Rightarrow> True)"

text \<open>Each thread leaves the other's side of the queue alone.\<close>

lemma consumer_side [simp]:
  "prod (duo_act BeginPop d) = prod d" "pushed (duo_act BeginPop d) = pushed d" "popped (duo_act BeginPop d) = popped d"
  "queue (duo_act BeginPop d) = queue d"
  "prod (duo_act CStep d) = prod d" "pushed (duo_act CStep d) = pushed d" "p_free (duo_act BeginPop d) = p_free d"
  "p_free (duo_act CStep d) = p_free d"
  by (cases "cons d"; simp add: consumer_step.simps Let_def p_free_def)+

lemma producer_side [simp]:
  "cons (duo_act (BeginPush v) d) = cons d" "popped (duo_act (BeginPush v) d) = popped d"
  "pushed (duo_act (BeginPush v) d) = pushed d" "queue (duo_act (BeginPush v) d) = queue d"
  "cons (duo_act PStep d) = cons d" "popped (duo_act PStep d) = popped d" "head (queue (duo_act PStep d)) = head (queue d)"
  by (cases "prod d"; simp add: producer_step.simps Let_def)+

lemma begin_push: "p_free d \<Longrightarrow> prod (duo_act (BeginPush v) d) = PCap v"
  by simp

lemma begin_pop: "cons d = CIdle \<or> cons d = CDone r \<Longrightarrow> cons (duo_act BeginPop d) = CCap"
  by (auto simp: c_free_def)

lemma push_step:
  assumes "pushing (prod d) = Some v"
  shows "prod (duo_act PStep d) = PDone True \<and> pushed (duo_act PStep d) = pushed d @ [v] \<or>
    pushed (duo_act PStep d) = pushed d \<and> (prod (duo_act PStep d) = PDone False \<or> pushing (prod (duo_act PStep d)) = Some v)"
  using assms by (cases "prod d") (auto simp: producer_step.simps Let_def)

lemma pop_step:
  "cons d \<noteq> CIdle \<Longrightarrow> \<nexists>r. cons d = CDone r \<Longrightarrow>
    length (popped (duo_act CStep d)) = length (popped d) + (case cons (duo_act CStep d) of CDone (Some c) \<Rightarrow> 1 | _ \<Rightarrow> 0)"
  by (cases "cons d") (auto simp: consumer_step.simps Let_def)

declare duo_act.simps [simp del]

lemma subseq_snoc: "subseq xs ys \<Longrightarrow> subseq (xs @ [x]) (ys @ [x])" "subseq xs ys \<Longrightarrow> subseq xs (ys @ [y])"
  by (simp_all add: subseq_rev_drop_many)

lemma worker_frame [simp]:
  "main_pc (inbox_worker_step x s) = main_pc s" "sent_n (inbox_worker_step x s) = sent_n s" "rejected_n (inbox_worker_step x s) = rejected_n s"
  "loop_i (inbox_worker_step x s) = loop_i s" "shutdown (inbox_worker_step x s) = shutdown s" "adds (inbox_worker_step x s) = adds s" "word (inbox_worker_step x s) = word s"
  "prod (chan (inbox_worker_step x s)) = prod (chan s)" "pushed (chan (inbox_worker_step x s)) = pushed (chan s)"
  "p_free (chan (inbox_worker_step x s)) = p_free (chan s)"
  by (simp_all add: inbox_worker_step_def drain_def Let_def split: wkpc.split cpc.split option.split)

lemma main_inv_worker: "main_inv n s \<Longrightarrow> main_inv n (inbox_worker_step expired s)"
  unfolding main_inv_def tried_def worker_frame by assumption

lemma main_inv_main:
  assumes "main_inv n s" shows "main_inv n (inbox_main_step n s)"
proof (cases "main_pc s")
  case MPush
  show ?thesis
  proof (cases "\<exists>b. prod (chan s) = PDone b")
    case True
    then obtain b where b: "prod (chan s) = PDone b" by blast
    show ?thesis using assms MPush b by (cases b) (simp_all add: main_inv_def inbox_main_step_def tried_def p_free_def subseq_snoc)
  next
    case False
    then have p: "pushing (prod (chan s)) = Some (cmd (loop_i s))" using assms MPush by (auto simp: main_inv_def)
    have t: "inbox_main_step n s = s\<lparr>chan := duo_act PStep (chan s)\<rparr>"
      using MPush False by (simp add: inbox_main_step_def split: ppc.split)
    show ?thesis
      using push_step [OF p] assms MPush False unfolding t
      by (elim disjE conjE) (auto simp: main_inv_def tried_def subseq_snoc)
  qed
next
  case (MWake stop)
  then show ?thesis using assms by (cases stop) (auto simp: main_inv_def inbox_main_step_def tried_def Let_def)
next
  case (MAdd stop)
  then show ?thesis using assms by (cases stop) (auto simp: main_inv_def inbox_main_step_def tried_def)
next
  case MFor
  then show ?thesis using assms begin_push [of "chan s" "cmd (loop_i s)"]
    by (cases "loop_i s < n") (auto simp: main_inv_def inbox_main_step_def tried_def)
qed (use assms in \<open>auto simp: main_inv_def inbox_main_step_def tried_def\<close>)

lemma work_inv_main:
  assumes "work_inv s" "main_inv n s" shows "work_inv (inbox_main_step n s)"
proof (cases "main_pc s")
  case MPush
  show ?thesis
  proof (cases "\<exists>b. prod (chan s) = PDone b")
    case True
    then obtain b where b: "prod (chan s) = PDone b" by blast
    show ?thesis using assms(1) MPush b
      by (cases b; cases "worker_pc s") (simp_all add: work_inv_def inbox_main_step_def owing_def waking_def)
  next
    case False
    then have p: "pushing (prod (chan s)) = Some (cmd (loop_i s))" using assms(2) MPush by (auto simp: main_inv_def)
    have t: "inbox_main_step n s = s\<lparr>chan := duo_act PStep (chan s)\<rparr>"
      using MPush False by (simp add: inbox_main_step_def split: ppc.split)
    show ?thesis
      using push_step [OF p] assms(1) MPush False unfolding t
      by (elim disjE conjE; cases "worker_pc s") (auto simp: work_inv_def owing_def waking_def)
  qed
next
  case (MWake stop)
  then show ?thesis using assms by (cases stop; cases "worker_pc s") (auto simp: work_inv_def inbox_main_step_def owing_def waking_def Let_def)
next
  case (MAdd stop)
  then show ?thesis using assms by (cases stop; cases "worker_pc s") (auto simp: work_inv_def inbox_main_step_def owing_def waking_def)
next
  case MFor
  then show ?thesis using assms by (cases "worker_pc s") (auto simp: work_inv_def inbox_main_step_def owing_def waking_def)
next
  case MShut
  then show ?thesis using assms by (cases "worker_pc s") (auto simp: work_inv_def inbox_main_step_def owing_def waking_def)
next
  case MJoin
  then show ?thesis using assms by (cases "worker_pc s") (auto simp: work_inv_def inbox_main_step_def owing_def waking_def)
next
  case MDone
  then show ?thesis using assms by (simp add: inbox_main_step_def)
qed

text \<open>A size read as zero by the worker means that everything pushed has been popped.\<close>

lemma size_zero:
  assumes "duo_inv (chan s)" "main_inv n s" "n < 2 ^ 32 - 1"
    and "(if head (queue (chan s)) \<le> tail (queue (chan s)) then tail (queue (chan s)) - head (queue (chan s)) else 0) = 0"
  shows "\<not> unread s"
proof -
  let ?P = "length (pushed (chan s))" and ?k = "length (popped (chan s))"
  have r: "tail (queue (chan s)) = of_nat ?P" "head (queue (chan s)) = of_nat ?k" "?k \<le> ?P"
    using assms(1) by (auto simp: duo_inv_def spsc_repr_def)
  have "?P \<le> n + 1" using assms(2) by (auto simp: main_inv_def split: mpc.splits bool.splits if_splits)
  then have b: "?P < 2 ^ 64" "?k < 2 ^ 64" using assms(3) r(3) by simp_all
  then have "head (queue (chan s)) \<le> tail (queue (chan s))"
    using r by (simp add: word_le_nat_alt unat_of_nat_u64)
  then have "of_nat ?P = (of_nat ?k :: u64)" using assms(4) r(1,2) by simp
  then have "?P = ?k" using b by (metis unat_of_nat_u64)
  then show ?thesis by simp
qed

lemma adds_bound: "main_inv n s \<Longrightarrow> adds s \<le> n + 1"
  by (auto simp: main_inv_def split: mpc.splits bool.splits if_splits)

lemma drain_inv:
  assumes "work_inv s" "cons (chan s) = CIdle \<or> cons (chan s) = CDone r" "length (popped (chan s)) = h"
  shows "work_inv (drain (s\<lparr>handled_n := h\<rparr>))"
  using assms begin_pop [of "chan s" r] by (simp add: drain_def work_inv_def)

lemma work_inv_worker:
  assumes I: "work_inv s" "main_inv n s" "duo_inv (chan s)" "n < 2 ^ 32 - 1"
  shows "work_inv (inbox_worker_step expired s)"
proof -
  have d: "drain s = drain (s\<lparr>handled_n := handled_n s\<rparr>)" by simp
  have idle: "work_inv (drain s)" if "worker_pc s \<noteq> WkPop"
    using that I(1) drain_inv [OF I(1), of None "handled_n s"] by (simp add: work_inv_def)
  have a: "adds s < 2 ^ 32" using adds_bound [OF I(2)] I(4) by simp
  show ?thesis
  proof (cases "worker_pc s")
    case WkPop
    show ?thesis
    proof (cases "cons (chan s)")
      case CIdle
      then show ?thesis using WkPop drain_inv [OF I(1), of None "handled_n s"] I(1) by (simp add: inbox_worker_step_def work_inv_def)
    next
      case (CDone v)
      then show ?thesis using WkPop drain_inv [OF I(1), of v "handled_n s + 1"] I(1)
        by (cases v) (simp_all add: inbox_worker_step_def work_inv_def)
    qed (use WkPop I(1) pop_step [of "chan s"] in \<open>simp_all add: inbox_worker_step_def work_inv_def\<close>)
  next
    case (WkTail g h)
    then show ?thesis using I(1) idle size_zero [OF I(3,2,4)] by (auto simp: inbox_worker_step_def work_inv_def Let_def)
  next
    case (WkPark g)
    have "adds s = seen_adds s" if "(of_nat (adds s) :: u32) = of_nat (seen_adds s)"
      using that a I(1) by (simp add: work_inv_def word_unat_eq_iff unsigned_of_nat take_bit_nat_eq_self)
    then show ?thesis using WkPark I(1) by (auto simp: inbox_worker_step_def work_inv_def owing_def waking_def)
  next
    case (WkFlag g)
    then show ?thesis using I(1) idle by (auto simp: inbox_worker_step_def work_inv_def owing_def)
  next
    case WkFinal
    then show ?thesis using idle by (simp add: inbox_worker_step_def)
  qed (use I(1) in \<open>auto simp: inbox_worker_step_def work_inv_def owing_def waking_def\<close>)
qed

interpretation inbox: inductive_invariant inbox_init "inbox_step n" "\<lambda>s. n < 2 ^ 32 - 1" "\<lambda>s. chan_inv s \<and> main_inv n s \<and> work_inv s" for n
proof (unfold_locales, goal_cases)
  case (1 s)
  then obtain dflt placed where s: "s = inbox_start dflt placed" by (auto simp: inbox_init_def)
  have "chan_inv s" unfolding s chan_inv_def inbox_start_def
    using duo_start_reach [of dflt 64 placed] by (simp add: duo_start_def SpscQueue_ctor_def effective_depth_def)
  then show ?case by (simp add: s inbox_start_def main_inv_def work_inv_def tried_def duo_start_def p_free_def)
next
  case (3 s t)
  then have c: "chan_inv t" using inbox_chan_step [OF 3(1)] by (auto simp: chan_inv_def duo_run_capacity intro: duo_run_reach)
  from 3(1) show ?case
  proof (cases rule: inbox_step.cases)
    case main_moves
    then show ?thesis using 3(2) c main_inv_main work_inv_main by blast
  next
    case worker_moves
    then show ?thesis using 3(2,3) c main_inv_worker work_inv_worker chan_inv_duo by blast
  qed
qed

section \<open>Runs\<close>

lemma reach_moves:
  assumes "reach inbox_init (inbox_step n) s"
  shows "reach inbox_init (inbox_step n) (inbox_main_step n s)" "reach inbox_init (inbox_step n) (inbox_worker_step x s)"
  using reach_step [OF assms main_moves] reach_step [OF assms worker_moves] by blast+

lemma main_runs: "reach inbox_init (inbox_step n) s \<Longrightarrow> reach inbox_init (inbox_step n) ((inbox_main_step n ^^ k) s)"
  by (induction k) (simp_all add: reach_moves)

text \<open>The worker has found the queue empty and is about to test the flag; meanwhile the main thread has
  offered \<open>m\<close> commands.\<close>

definition racing :: "nat \<Rightarrow> nat \<Rightarrow> Inbox \<Rightarrow> bool" where
  "racing n m s \<longleftrightarrow> reach inbox_init (inbox_step n) s \<and> main_pc s = MFor \<and> worker_pc s = WkShut \<and> loop_i s = m \<and>
     sent_n s = min m 64 \<and> handled_n s = 0 \<and> p_free (chan s) \<and> capacity (queue (chan s)) = 64 \<and> head (queue (chan s)) = 0 \<and>
     tail (queue (chan s)) = of_nat (min m 64)"

lemma offer:
  assumes "racing n m s" "m < n" shows "\<exists>t. racing n (Suc m) t"
proof (cases "m < 64")
  case True
  have "\<not> 64 \<le> (of_nat m :: u64)" using True by (simp add: word_le_nat_alt unat_of_nat_u64)
  moreover have "(of_nat m :: u64) + 1 = of_nat (Suc m)" by simp
  ultimately have "racing n (Suc m) ((inbox_main_step n ^^ 9) s)"
    using assms True main_runs [of n s 9]
    by (simp add: racing_def numeral_eq_Suc inbox_main_step_def duo_act.simps producer_step.simps Let_def p_free_def del: of_nat_Suc split: ppc.splits)
  then show ?thesis by blast
next
  case False
  have "(64 :: u64) \<le> of_nat 64" by simp
  then have "racing n (Suc m) ((inbox_main_step n ^^ 5) s)"
    using assms False main_runs [of n s 5]
    by (simp add: racing_def numeral_eq_Suc inbox_main_step_def duo_act.simps producer_step.simps Let_def p_free_def split: ppc.splits)
  then show ?thesis by blast
qed

lemma start_race: "\<exists>s. racing n 0 s"
proof -
  let ?s = "inbox_start (cmd 0) \<lparr>capacity = 0, head = 0, tail = 0, qcells = []\<rparr>" and ?w = "inbox_worker_step False"
  have "reach inbox_init (inbox_step n) ?s" by (rule reach_init) (auto simp: inbox_init_def)
  then have "reach inbox_init (inbox_step n) (?w (?w (?w (?w (?w ?s)))))" by (intro reach_moves)
  then have "racing n 0 (?w (?w (?w (?w (?w ?s)))))"
    by (simp add: racing_def inbox_start_def duo_start_def SpscQueue_ctor_def effective_depth_def inbox_worker_step_def drain_def
        duo_act.simps consumer_step.simps Let_def c_free_def p_free_def)
  then show ?thesis by blast
qed

lemma race_on: "m \<le> n \<Longrightarrow> \<exists>s. racing n m s"
  by (induction m) (auto intro: start_race dest: offer)

section \<open>Properties\<close>

text \<open>Property C33. No lost wakeup across queue and eventcount: whenever the worker sleeps although a command
  is unread or shutdown has been requested, the main thread has not yet finished the \<open>NotifyAll\<close> it owes for
  it; so once it has, the worker is awake.\<close>

theorem inbox_no_lost_wakeup:
  assumes "reach inbox_init (inbox_step n) s" "n < 2 ^ 32 - 1" "worker_pc s = WkSleep g"
    and "popped (chan s) \<noteq> pushed (chan s) \<or> shutdown s"
  shows "main_pc s = MPush \<and> prod (chan s) = PDone True \<or> main_pc s \<in> {MAdd True, MAdd False, MWake True, MWake False}"
proof -
  have i: "chan_inv s" "work_inv s" using inbox.reach_inv [OF assms(1,2)] by simp_all
  have "take (length (popped (chan s))) (pushed (chan s)) = popped (chan s)" "length (popped (chan s)) \<le> length (pushed (chan s))"
    using chan_inv_duo [OF i(1)] by (auto simp: duo_inv_def spsc_repr_def)
  then have "unread s \<or> shutdown s" using assms(4) by (metis le_neq_implies_less take_all_iff le_refl)
  then show ?thesis using i(2) assms(3) by (auto simp: work_inv_def owing_def waking_def)
qed

lemma asleep_with_work:
  "\<exists>s g. reach inbox_init (inbox_step 1) s \<and> worker_pc s = WkSleep g \<and> popped (chan s) \<noteq> pushed (chan s)"
proof -
  obtain s where s: "racing 1 0 s" using start_race by blast
  have r: "reach inbox_init (inbox_step 1) s" using s by (simp add: racing_def)
  have i: "\<not> shutdown s" "pushed (chan s) = []" using inbox.reach_inv [OF r] s by (auto simp: main_inv_def racing_def)
  let ?w = "inbox_worker_step False" let ?t = "?w (?w (?w (?w (?w (?w (?w s))))))"
  have t: "?t = s\<lparr>worker_pc := WkSleep (word s), seen_adds := adds s\<rparr>"
    using s i by (simp add: racing_def inbox_worker_step_def Let_def)
  let ?m = "inbox_main_step 1" let ?u = "?m (?m (?m (?m (?m (?m ?t)))))"
  have r': "reach inbox_init (inbox_step 1) ?u" using r by (intro reach_moves)
  have "worker_pc ?u = WkSleep (word s)" "length (pushed (chan ?u)) = 1" "popped (chan ?u) = popped (chan s)"
    unfolding t using s i
    by (simp_all add: racing_def inbox_main_step_def duo_act.simps producer_step.simps Let_def p_free_def split: ppc.splits)
  moreover have "popped (chan s) = []" using chan_inv_duo [of s] inbox.reach_inv [OF r] i(2) by (simp add: duo_inv_def)
  ultimately show ?thesis using r' by (metis length_0_conv zero_neq_one)
qed

theorem inbox_no_lost_wakeup_witness:
  "\<exists>s g. reach inbox_init (inbox_step 1) s \<and> worker_pc s = WkSleep g \<and> popped (chan s) \<noteq> pushed (chan s) \<and>
     (main_pc s = MPush \<and> prod (chan s) = PDone True \<or> main_pc s \<in> {MAdd True, MAdd False, MWake True, MWake False})"
proof -
  obtain s g where s: "reach inbox_init (inbox_step 1) s" "worker_pc s = WkSleep g" "popped (chan s) \<noteq> pushed (chan s)"
    using asleep_with_work by blast
  have n: "(1::nat) < 2 ^ 32 - 1" by simp
  from inbox_no_lost_wakeup [OF s(1) n s(2) disjI1 [OF s(3)]] s show ?thesis by blast
qed

text \<open>Property C34. Bounded and counted: the commands the queue accepted are, in order, among those offered, what
  the worker handled is a prefix of them, at most 64 are ever waiting, and when the program ends every offer was
  counted as sent or rejected and it exits with 0.\<close>

theorem inbox_accounts:
  assumes "reach inbox_init (inbox_step n) s" "n < 2 ^ 32 - 1"
  shows "subseq (pushed (chan s)) (map cmd [0..<n]) \<and> prefix (popped (chan s)) (pushed (chan s)) \<and>
    length (pushed (chan s)) \<le> length (popped (chan s)) + 64 \<and>
    (main_pc s = MDone \<longrightarrow> sent_n s + rejected_n s = n \<and> inbox_exit n s = 0 \<and> length (pushed (chan s)) = sent_n s)"
proof -
  have i: "chan_inv s" "main_inv n s" using inbox.reach_inv [OF assms] by simp_all
  have d: "take (length (popped (chan s))) (pushed (chan s)) = popped (chan s)"
      "length (pushed (chan s)) \<le> length (popped (chan s)) + 64"
    using chan_inv_duo [OF i(1)] i(1) by (auto simp: duo_inv_def spsc_repr_def chan_inv_def)
  have "tried s \<le> n" using i(2) by (auto simp: main_inv_def tried_def split: mpc.splits bool.splits)
  then have "prefix (map cmd [0..<tried s]) (map cmd [0..<n])" by (metis le_add_diff_inverse map_append prefixI upt_add_eq_append zero_le)
  then have "subseq (pushed (chan s)) (map cmd [0..<n])"
    using i(2) by (auto simp: main_inv_def intro: subseq_order.trans)
  moreover have "prefix (popped (chan s)) (pushed (chan s))" using d(1) by (metis take_is_prefix)
  ultimately show ?thesis using d(2) i(2) by (auto simp: main_inv_def inbox_exit_def)
qed

theorem inbox_accounts_witness:
  "\<exists>s. reach inbox_init (inbox_step 5) s \<and> sent_n s = 3 \<and> subseq (pushed (chan s)) (map cmd [0..<5])"
proof -
  obtain s where "racing 5 3 s" using race_on [of 3 5] by auto
  then have s: "reach inbox_init (inbox_step 5) s" "sent_n s = 3" by (simp_all add: racing_def)
  have "(5::nat) < 2 ^ 32 - 1" by simp
  from inbox_accounts [OF s(1) this] s show ?thesis by blast
qed

text \<open>Property C35. Accepted commands can be left unhandled: the worker tests the shutdown flag after a drain that
  may be long past, so there is a run of the program that ends with 64 commands sent, 99936 rejected and none
  handled_n, and still exits with 0.\<close>

theorem inbox_abandons_commands:
  "\<exists>s. reach inbox_init (inbox_step 100000) s \<and> main_pc s = MDone \<and> worker_pc s = WkExit \<and> sent_n s = 64 \<and>
     rejected_n s = 99936 \<and> handled_n s = 0 \<and> inbox_exit 100000 s = 0"
proof -
  let ?m = "inbox_main_step 100000"
  obtain s where s: "racing 100000 100000 s" using race_on [of 100000 100000] by blast
  have r: "reach inbox_init (inbox_step 100000) s" using s by (simp add: racing_def)
  let ?t = "?m (inbox_worker_step False (?m (?m (?m (?m s)))))"
  have "reach inbox_init (inbox_step 100000) ?t" using r by (intro reach_moves)
  moreover have "sent_n s + rejected_n s = 100000" using inbox.reach_inv [OF r] s by (simp add: main_inv_def racing_def)
  moreover have "main_pc ?t = MDone \<and> worker_pc ?t = WkExit \<and> sent_n ?t = sent_n s \<and> rejected_n ?t = rejected_n s \<and> handled_n ?t = handled_n s"
    using s by (simp add: racing_def inbox_main_step_def inbox_worker_step_def Let_def)
  ultimately show ?thesis using s by (intro exI [of _ ?t]) (simp add: racing_def inbox_exit_def)
qed

end
