(* ===== verification/Trace_Pool.thy ===== *)
theory Trace_Pool
  imports Trace_Context
begin

text \<open>
  \<open>examples/worker_pool_context_example.cpp\<close>: trace contexts on the reused threads of a worker pool. The main thread
  opens one trace and span per iteration, submits four tiles whose envelope carries the current context, waits for their
  results and links them to a joining span; the pool's threads guard each task with the context of its envelope. Every
  access under the pool's or the iteration's mutex is one step, and so is each task's own part between them. Ids come from the
  thread's generator, seeded by \<open>rd\<close>; the clock readings of a step are arbitrary. The four log events of the
  program are not recorded: they change neither contexts nor spans.
\<close>

section \<open>The program\<close>

record Task =
  envelope :: "u8 list"
  tile :: nat
  t_iter :: nat

text \<open>A pool thread: waiting, with a task taken, inside the task's guard and span (with what their destructors restore),
  after its result was pushed, or returned from \<open>Run\<close>.\<close>

datatype worker = Waiting | Taken Task | Inside Task Context Span | Pushed Task Context Span | Returned

datatype main_point = Iterate nat | Submitting nat nat | Joining nat | Linked nat | Stopping | Ended

record Pool =
  tasks :: "Task list"
  stopping :: bool
  pool_threads :: "nat \<Rightarrow> Thread"
  pool_workers :: "nat \<Rightarrow> worker"
  main_thread :: Thread
  main_at :: main_point
  guard_saved :: Context
  iteration_span :: Span
  join_span :: Span
  results :: "u8 list list"
  \<comment> \<open>ghost: the spans handed to the binding with their iteration, and the context inside each iteration's span\<close>
  spans :: "(nat \<times> SpanRecord) list"
  inside :: "nat \<Rightarrow> Context"

definition kTiles :: nat where
  "kTiles = 4"

definition Submit :: "Task \<Rightarrow> Pool \<Rightarrow> Pool" where
  "Submit t s = s\<lparr>tasks := tasks s @ [t]\<rparr>"

text \<open>The body of the loop over iterations, up to the first submission; one submission; the joining span; the wait for the
  results with the links; the end of the scope, in which the destructors run in reverse order.\<close>

definition begin_iteration :: "u32 \<times> u32 \<Rightarrow> int \<Rightarrow> nat \<Rightarrow> Pool \<Rightarrow> Pool" where
  "begin_iteration rd now k s =
     (let (ctx, th1) = NewTrace rd (main_thread s);
          (saved, th2) = ContextGuard_enter ctx th1;
          (sp, th3) = Span_ctor rd ''demo.pool.iteration'' now th2
      in s\<lparr>main_thread := th3, guard_saved := saved, iteration_span := sp, results := [], main_at := Submitting k 0,
            inside := (inside s)(k := current th3)\<rparr>)"

definition submit_or_join :: "u32 \<times> u32 \<Rightarrow> int \<Rightarrow> nat \<Rightarrow> nat \<Rightarrow> Pool \<Rightarrow> Pool" where
  "submit_or_join rd now k t s =
     (if t < kTiles
      then (Submit \<lparr>envelope = Inject (CurrentContext (main_thread s)), tile = t, t_iter = k\<rparr> s)\<lparr>main_at := Submitting k (t + 1)\<rparr>
      else let (sp, th) = Span_ctor rd ''demo.pool.join'' now (main_thread s)
           in s\<lparr>main_thread := th, join_span := sp, main_at := Joining k\<rparr>)"

definition link_results :: "nat \<Rightarrow> Pool \<Rightarrow> Pool" where
  "link_results k s =
     (if length (results s) = kTiles
      then s\<lparr>join_span := fold (\<lambda>r. AddLink (Extract (Some r))) (results s) (join_span s), main_at := Linked k\<rparr>
      else s)"

definition end_iteration :: "int \<Rightarrow> int \<Rightarrow> nat \<Rightarrow> Pool \<Rightarrow> Pool" where
  "end_iteration now1 now2 k s =
     (let (r1, th1) = Span_dtor True now1 (join_span s) (main_thread s);
          (r2, th2) = Span_dtor True now2 (iteration_span s) th1;
          th3 = ContextGuard_exit (guard_saved s) th2
      in s\<lparr>main_thread := th3, spans := spans s @ map (Pair k) (r1 @ r2), main_at := (if k < 2 then Iterate (k + 1) else Stopping)\<rparr>)"

text \<open>The destructor of the pool: the flag, then the joins.\<close>

definition pool_main_step :: "u32 \<times> u32 \<Rightarrow> nat \<Rightarrow> int \<Rightarrow> int \<Rightarrow> Pool \<Rightarrow> Pool" where
  "pool_main_step rd n now1 now2 s =
     (case main_at s of
        Iterate k \<Rightarrow> begin_iteration rd now1 k s
      | Submitting k t \<Rightarrow> submit_or_join rd now1 k t s
      | Joining k \<Rightarrow> link_results k s
      | Linked k \<Rightarrow> end_iteration now1 now2 k s
      | Stopping \<Rightarrow>
          if \<not> stopping s then s\<lparr>stopping := True\<rparr>
          else if \<forall>i < n. pool_workers s i = Returned then s\<lparr>main_at := Ended\<rparr> else s
      | Ended \<Rightarrow> s)"

text \<open>\<open>Run\<close> and the submitted lambda, on thread \<open>i\<close>.\<close>

definition set_worker :: "nat \<Rightarrow> worker \<Rightarrow> Pool \<Rightarrow> Pool" where
  "set_worker i w s = s\<lparr>pool_workers := (pool_workers s)(i := w)\<rparr>"

definition set_thread :: "nat \<Rightarrow> Thread \<Rightarrow> Pool \<Rightarrow> Pool" where
  "set_thread i th s = s\<lparr>pool_threads := (pool_threads s)(i := th)\<rparr>"

definition pool_step :: "u32 \<times> u32 \<Rightarrow> nat \<Rightarrow> int \<Rightarrow> Pool \<Rightarrow> Pool" where
  "pool_step rd i now s =
     (case pool_workers s i of
        Waiting \<Rightarrow>
          (case tasks s of
             t # ts \<Rightarrow> set_worker i (Taken t) (s\<lparr>tasks := ts\<rparr>)
           | [] \<Rightarrow> if stopping s then set_worker i Returned s else s)
      | Taken t \<Rightarrow>
          (let (saved, th1) = ContextGuard_enter (Extract (Some (envelope t))) (pool_threads s i);
               (sp, th2) = Span_ctor rd ''demo.pool.tile'' now th1
           in set_worker i (Inside t saved sp) (set_thread i th2 s))
      | Inside t saved sp \<Rightarrow>
          set_worker i (Pushed t saved sp) (s\<lparr>results := results s @ [Inject (CurrentContext (pool_threads s i))]\<rparr>)
      | Pushed t saved sp \<Rightarrow>
          (let (r, th1) = Span_dtor True now sp (pool_threads s i); th2 = ContextGuard_exit saved th1
           in set_worker i Waiting (set_thread i th2 (s\<lparr>spans := spans s @ map (Pair (t_iter t)) r\<rparr>)))
      | Returned \<Rightarrow> s)"

inductive demo_step :: "(nat \<Rightarrow> u32 \<times> u32) \<Rightarrow> nat \<Rightarrow> Pool \<Rightarrow> Pool \<Rightarrow> bool" for rd :: "nat \<Rightarrow> u32 \<times> u32" and n :: nat where
  main_goes: "demo_step rd n s (pool_main_step (rd n) n now1 now2 s)"
| thread_goes: "i < n \<Longrightarrow> demo_step rd n s (pool_step (rd i) i now s)"

inductive_cases demo_stepE: "demo_step rd n s t"

definition fresh_thread :: Thread where
  "fresh_thread = \<lparr>current = zero_context, gen_state = None\<rparr>"

definition pool_init :: "Pool \<Rightarrow> bool" where
  "pool_init s \<longleftrightarrow> tasks s = [] \<and> \<not> stopping s \<and> pool_threads s = (\<lambda>_. fresh_thread) \<and> pool_workers s = (\<lambda>_. Waiting) \<and>
     main_thread s = fresh_thread \<and> main_at s = Iterate 1 \<and> spans s = []"

section \<open>Invariant\<close>

lemma Extract_Inject [simp]: "Extract (Some (Inject c)) = c"
  using context_envelope [of c "[]"] by simp

lemma Span_ctor_valid:
  assumes "Context_valid (current th)" "Span_ctor rd name now th = (sp, th')"
  shows "sp_name sp = name" "sp_saved sp = current th" "sp_parent sp = span (current th)" "sp_links sp = []"
    "trace (current th') = trace (current th)"
  using assms(2) Span_Begin_valid [OF assms(1), of rd] by (auto simp: Span_ctor_def split_beta Let_def)

text \<open>The iteration under way or, between iterations, the last one.\<close>

definition now_iter :: "Pool \<Rightarrow> nat" where
  "now_iter s = (case main_at s of Iterate k \<Rightarrow> k - 1 | Submitting k t \<Rightarrow> k | Joining k \<Rightarrow> k | Linked k \<Rightarrow> k | _ \<Rightarrow> 2)"

definition opened_in :: "Pool \<Rightarrow> nat \<Rightarrow> string \<Rightarrow> Span \<Rightarrow> bool" where
  "opened_in s k name sp \<longleftrightarrow> sp_name sp = name \<and> sp_parent sp = span (inside s k) \<and> sp_saved sp = inside s k"

definition task_ok :: "Pool \<Rightarrow> Task \<Rightarrow> bool" where
  "task_ok s t \<longleftrightarrow> t_iter t = now_iter s \<and> envelope t = Inject (inside s (t_iter t)) \<and> Context_valid (inside s (t_iter t))"

fun worker_ok :: "Pool \<Rightarrow> Context \<Rightarrow> worker \<Rightarrow> bool" where
  "worker_ok s c Waiting \<longleftrightarrow> c = zero_context"
| "worker_ok s c (Taken t) \<longleftrightarrow> c = zero_context \<and> task_ok s t"
| "worker_ok s c (Inside t saved sp) \<longleftrightarrow> saved = zero_context \<and> task_ok s t \<and> opened_in s (t_iter t) ''demo.pool.tile'' sp \<and>
     trace c = trace (inside s (t_iter t))"
| "worker_ok s c (Pushed t saved sp) \<longleftrightarrow> saved = zero_context \<and> t_iter t \<le> now_iter s \<and> opened_in s (t_iter t) ''demo.pool.tile'' sp \<and>
     trace c = trace (inside s (t_iter t))"
| "worker_ok s c Returned \<longleftrightarrow> c = zero_context"

fun busy :: "worker \<Rightarrow> bool" where
  "busy (Taken t) = True"
| "busy (Inside t saved sp) = True"
| "busy w = False"

definition busy_count :: "nat \<Rightarrow> (nat \<Rightarrow> worker) \<Rightarrow> nat" where
  "busy_count n f = (\<Sum>i<n. of_bool (busy (f i)))"

definition outstanding :: "nat \<Rightarrow> Pool \<Rightarrow> nat" where
  "outstanding n s = length (tasks s) + busy_count n (pool_workers s)"

definition iteration_live :: "nat \<Rightarrow> Pool \<Rightarrow> bool" where
  "iteration_live k s \<longleftrightarrow> 0 < k \<and> k \<le> 2 \<and> sp_name (iteration_span s) = ''demo.pool.iteration'' \<and> Context_valid (inside s k) \<and> guard_saved s = zero_context \<and>
     trace (current (main_thread s)) = trace (inside s k) \<and> (\<forall>r \<in> set (results s). \<exists>c. r = Inject c \<and> trace c = trace (inside s k))"

definition main_ok :: "nat \<Rightarrow> Pool \<Rightarrow> bool" where
  "main_ok n s \<longleftrightarrow>
     (case main_at s of
        Iterate k \<Rightarrow> 0 < k \<and> k \<le> 2 \<and> outstanding n s = 0 \<and> current (main_thread s) = zero_context
      | Submitting k t \<Rightarrow> iteration_live k s \<and> t \<le> kTiles \<and> outstanding n s + length (results s) = t \<and> current (main_thread s) = inside s k
      | Joining k \<Rightarrow> iteration_live k s \<and> outstanding n s + length (results s) = kTiles \<and> opened_in s k ''demo.pool.join'' (join_span s) \<and>
          sp_links (join_span s) = []
      | Linked k \<Rightarrow> iteration_live k s \<and> outstanding n s = 0 \<and> length (results s) = kTiles \<and> opened_in s k ''demo.pool.join'' (join_span s) \<and>
          sp_links (join_span s) = map (\<lambda>r. Extract (Some r)) (results s)
      | _ \<Rightarrow> outstanding n s = 0 \<and> current (main_thread s) = zero_context)"

definition record_ok :: "Pool \<Rightarrow> nat \<Rightarrow> SpanRecord \<Rightarrow> bool" where
  "record_ok s k r \<longleftrightarrow> k \<le> now_iter s \<and>
     (rec_name r = ''demo.pool.tile'' \<longrightarrow> rec_parent r = span (inside s k) \<and> trace (rec_ctx r) = trace (inside s k)) \<and>
     (rec_name r = ''demo.pool.join'' \<longrightarrow> rec_parent r = span (inside s k) \<and> trace (rec_ctx r) = trace (inside s k) \<and>
        length (rec_links r) = kTiles \<and> (\<forall>c \<in> set (rec_links r). trace c = trace (inside s k)))"

definition pool_inv :: "nat \<Rightarrow> Pool \<Rightarrow> bool" where
  "pool_inv n s \<longleftrightarrow> (\<forall>t \<in> set (tasks s). task_ok s t) \<and> (\<forall>i < n. worker_ok s (current (pool_threads s i)) (pool_workers s i)) \<and>
     main_ok n s \<and> (\<forall>(k, r) \<in> set (spans s). record_ok s k r)"

lemma busy_count_upd:
  "i < n \<Longrightarrow> busy_count n (f(i := w)) + of_bool (busy (f i)) = busy_count n f + of_bool (busy w)"
proof -
  assume i: "i < n"
  have a: "busy_count n g = of_bool (busy (g i)) + (\<Sum>j\<in>{..<n} - {i}. of_bool (busy (g j)))" for g
    unfolding busy_count_def by (rule sum.remove) (simp_all add: i)
  have e: "(\<Sum>j\<in>{..<n} - {i}. of_bool (busy ((f(i := w)) j))) = (\<Sum>j\<in>{..<n} - {i}. of_bool (busy (f j)) :: nat)"
    by (intro sum.cong) auto
  show ?thesis unfolding a [of "f(i := w)"] a [of f] e by simp
qed

lemma fold_links:
  assumes "length (sp_links sp) + length rs \<le> kMaxSpanLinks" "\<forall>r \<in> set rs. Context_valid (Extract (Some r))"
  shows "sp_links (fold (\<lambda>r. AddLink (Extract (Some r))) rs sp) = sp_links sp @ map (\<lambda>r. Extract (Some r)) rs \<and>
    fixed_part (fold (\<lambda>r. AddLink (Extract (Some r))) rs sp) = fixed_part sp"
  using assms by (induction rs arbitrary: sp) (auto simp: AddLink_def fixed_part_def)

lemma opened_in_fixed: "fixed_part sp = fixed_part sp' \<Longrightarrow> opened_in s k name sp \<longleftrightarrow> opened_in s k name sp'"
  by (metis Span.select_convs(1,3,4) Span.surjective Span.update_convs(5) fixed_part_def opened_in_def)

text \<open>Steps that leave the iteration and its context alone keep what is known of tasks, threads and records.\<close>

lemma ok_frame:
  assumes "now_iter t = now_iter s" "inside t = inside s"
  shows "opened_in t = opened_in s" "task_ok t = task_ok s" "worker_ok t = worker_ok s" "record_ok t = record_ok s"
proof -
  show o: "opened_in t = opened_in s" using assms by (simp add: opened_in_def fun_eq_iff)
  show k: "task_ok t = task_ok s" using assms by (simp add: task_ok_def fun_eq_iff)
  show "worker_ok t = worker_ok s"
  proof (intro ext)
    fix c w show "worker_ok t c w = worker_ok s c w" by (cases w) (simp_all add: o k assms)
  qed
  show "record_ok t = record_ok s" using assms by (simp add: record_ok_def fun_eq_iff)
qed

lemma pool_step_inv:
  assumes I: "pool_inv n s" and i: "i < n" shows "pool_inv n (pool_step rd i now s)"
proof -
  let ?t = "pool_step rd i now s"
  have same: "now_iter ?t = now_iter s" "inside ?t = inside s" "main_at ?t = main_at s" "main_thread ?t = main_thread s"
      "guard_saved ?t = guard_saved s" "join_span ?t = join_span s" "iteration_span ?t = iteration_span s"
    by (simp_all add: pool_step_def now_iter_def set_worker_def set_thread_def Let_def split_beta split: worker.split list.split)
  note ok = ok_frame [OF same(1,2)]
  have others: "pool_threads ?t j = pool_threads s j" "pool_workers ?t j = pool_workers s j" if "j \<noteq> i" for j
    using that by (simp_all add: pool_step_def set_worker_def set_thread_def Let_def split_beta split: worker.split list.split)
  have W: "worker_ok s (current (pool_threads s i)) (pool_workers s i)" and T: "\<forall>t \<in> set (tasks s). task_ok s t"
    and M: "main_ok n s" and R: "\<forall>(k, r) \<in> set (spans s). record_ok s k r"
    using I i by (auto simp: pool_inv_def)
  have "worker_ok s (current (pool_threads ?t i)) (pool_workers ?t i)"
  proof (cases "pool_workers s i")
    case (Taken t)
    then have v: "envelope t = Inject (inside s (t_iter t))" "Context_valid (inside s (t_iter t))" using W by (auto simp: task_ok_def)
    obtain sp th where sp: "Span_ctor rd ''demo.pool.tile'' now ((pool_threads s i)\<lparr>current := inside s (t_iter t)\<rparr>) = (sp, th)" by fastforce
    have "opened_in s (t_iter t) ''demo.pool.tile'' sp" "trace (current th) = trace (inside s (t_iter t))"
      using Span_ctor_valid [OF _ sp] v(2) by (simp_all add: opened_in_def)
    then show ?thesis using Taken W v sp by (simp add: pool_step_def set_worker_def set_thread_def ContextGuard_enter_def)
  next
    case Waiting
    then show ?thesis using W T by (cases "tasks s") (simp_all add: pool_step_def set_worker_def)
  next
    case (Inside t saved sp)
    then show ?thesis using W by (auto simp: pool_step_def set_worker_def task_ok_def)
  next
    case (Pushed t saved sp)
    then show ?thesis using W by (simp add: pool_step_def set_worker_def set_thread_def Let_def split_beta ContextGuard_exit_def)
  qed (use W in \<open>simp add: pool_step_def\<close>)
  then have "\<forall>j < n. worker_ok s (current (pool_threads ?t j)) (pool_workers ?t j)"
    using I others by (metis pool_inv_def)
  moreover have "\<forall>t \<in> set (tasks ?t). task_ok s t"
    using T by (auto simp: pool_step_def set_worker_def set_thread_def Let_def split_beta split: worker.splits list.splits)
  moreover have "\<forall>(k, r) \<in> set (spans ?t). record_ok s k r"
    using R W by (auto simp: pool_step_def set_worker_def set_thread_def Let_def split_beta Span_dtor_def record_ok_def opened_in_def
        split: worker.splits list.splits)
  moreover have "main_ok n ?t"
  proof -
    have "pool_workers ?t = (pool_workers s)(i := pool_workers ?t i)" using others(2) by (auto simp: fun_eq_iff)
    then have b: "busy_count n (pool_workers ?t) + of_bool (busy (pool_workers s i)) =
        busy_count n (pool_workers s) + of_bool (busy (pool_workers ?t i))" using busy_count_upd [OF i] by metis
    have "length (tasks ?t) + length (results ?t) + of_bool (busy (pool_workers ?t i)) =
        length (tasks s) + length (results s) + of_bool (busy (pool_workers s i)) \<and>
        length (tasks ?t) + of_bool (busy (pool_workers ?t i)) \<le> length (tasks s) + (of_bool (busy (pool_workers s i)) :: nat)"
      by (cases "pool_workers s i"; cases "tasks s") (simp_all add: pool_step_def set_worker_def set_thread_def Let_def split_beta)
    then have d: "outstanding n ?t + length (results ?t) = outstanding n s + length (results s) \<and> outstanding n ?t \<le> outstanding n s"
      unfolding outstanding_def using b by linarith
    have "\<forall>r \<in> set (results ?t). r \<in> set (results s) \<or> (\<exists>c. r = Inject c \<and> trace c = trace (inside s (now_iter s)))"
      using W by (auto simp: pool_step_def set_worker_def set_thread_def Let_def split_beta task_ok_def CurrentContext_def split: worker.splits list.splits)
    moreover have "results ?t = results s" if "outstanding n s = 0"
    proof -
      have "length (results s) = length (results ?t)" using d that by simp
      then show ?thesis by (auto simp: pool_step_def set_worker_def set_thread_def Let_def split_beta split: worker.splits list.splits)
    qed
    ultimately show ?thesis
      using M d by (cases "main_at s") (fastforce simp: main_ok_def iteration_live_def same ok now_iter_def)+
  qed
  ultimately show ?thesis by (simp add: pool_inv_def ok)
qed

lemma begin_iteration_inv:
  assumes I: "pool_inv n s" and k: "main_at s = Iterate k" shows "pool_inv n (begin_iteration rd now k s)"
proof -
  obtain ctx th1 where nt: "NewTrace rd (main_thread s) = (ctx, th1)" by fastforce
  have v: "Context_valid ctx" "current th1 = current (main_thread s)"
    using context_envelope [of ctx "[]" "[]" rd "main_thread s"] nt by (auto simp: NewTrace_def NextId_def Let_def)
  obtain sp th where sp: "Span_ctor rd ''demo.pool.iteration'' now (th1\<lparr>current := ctx\<rparr>) = (sp, th)" by fastforce
  have c: "trace (current th) = trace ctx" "sp_name sp = ''demo.pool.iteration''" using Span_ctor_valid(1,5) [OF _ sp] v by simp_all
  let ?t = "begin_iteration rd now k s"
  have t: "?t = s\<lparr>main_thread := th, guard_saved := current (main_thread s), iteration_span := sp, results := [], main_at := Submitting k 0,
      inside := (inside s)(k := current th)\<rparr>"
    using nt sp v by (simp add: begin_iteration_def ContextGuard_enter_def)
  have o: "outstanding n s = 0" "0 < k" "k \<le> 2" "current (main_thread s) = zero_context" "now_iter s = k - 1"
    using I k by (auto simp: pool_inv_def main_ok_def now_iter_def)
  then have q: "tasks s = []" "busy_count n (pool_workers s) = 0" by (simp_all add: outstanding_def)
  have nb: "\<not> busy (pool_workers s i)" if "i < n" for i using q(2) that by (auto simp: busy_count_def)
  have ni: "now_iter ?t = k" "inside ?t = (inside s)(k := current th)" by (simp_all add: t now_iter_def)
  have "worker_ok ?t (current (pool_threads ?t i)) (pool_workers ?t i)" if "i < n" for i
  proof -
    have "worker_ok s (current (pool_threads s i)) (pool_workers s i)" using I that by (simp add: pool_inv_def)
    then show ?thesis using nb [OF that] o(2,5) ni by (cases "pool_workers s i") (auto simp: t opened_in_def)
  qed
  moreover have "record_ok ?t j r" if "(j, r) \<in> set (spans s)" for j r
  proof -
    have "record_ok s j r" using I that by (auto simp: pool_inv_def)
    moreover from this have "j < k" using o(2,5) by (auto simp: record_ok_def)
    ultimately show ?thesis by (simp add: record_ok_def ni)
  qed
  moreover have "main_ok n ?t" using o q v c by (simp add: t main_ok_def iteration_live_def kTiles_def outstanding_def Context_valid_def)
  ultimately show ?thesis using q by (auto simp: pool_inv_def t)
qed

lemma keep_inv:
  assumes I: "pool_inv n s" and f: "now_iter t = now_iter s" "inside t = inside s"
    and "pool_threads t = pool_threads s" "pool_workers t = pool_workers s" "main_ok n t"
    and "\<And>x. x \<in> set (tasks t) \<Longrightarrow> x \<in> set (tasks s) \<or> task_ok s x"
    and "\<And>k r. (k, r) \<in> set (spans t) \<Longrightarrow> (k, r) \<in> set (spans s) \<or> record_ok s k r"
  shows "pool_inv n t"
  unfolding pool_inv_def ok_frame [OF f] using I assms(4-8) by (fastforce simp: pool_inv_def)

lemma submit_or_join_inv:
  assumes I: "pool_inv n s" and k: "main_at s = Submitting k t" shows "pool_inv n (submit_or_join rd now k t s)"
proof -
  let ?t = "submit_or_join rd now k t s"
  have L: "iteration_live k s" "current (main_thread s) = inside s k" "outstanding n s + length (results s) = t" "t \<le> kTiles"
    using I k by (auto simp: pool_inv_def main_ok_def)
  then have v: "Context_valid (current (main_thread s))" by (simp add: iteration_live_def)
  obtain sp th where sp: "Span_ctor rd ''demo.pool.join'' now (main_thread s) = (sp, th)" by fastforce
  note p = Span_ctor_valid [OF v sp]
  have f: "now_iter ?t = now_iter s" "inside ?t = inside s"
    using k sp by (simp_all add: submit_or_join_def now_iter_def Submit_def)
  show ?thesis
  proof (rule keep_inv [OF I f])
    show "main_ok n ?t"
      using L p sp by (auto simp: submit_or_join_def Submit_def main_ok_def iteration_live_def opened_in_def outstanding_def)
    show "x \<in> set (tasks s) \<or> task_ok s x" if "x \<in> set (tasks ?t)" for x
      using that L sp k by (auto simp: submit_or_join_def Submit_def task_ok_def now_iter_def CurrentContext_def iteration_live_def split: if_splits)
  qed (use sp in \<open>auto simp: submit_or_join_def Submit_def split: if_splits\<close>)
qed

lemma link_results_inv:
  assumes I: "pool_inv n s" and k: "main_at s = Joining k" shows "pool_inv n (link_results k s)"
proof (cases "length (results s) = kTiles")
  case True
  let ?t = "link_results k s" and ?sp = "fold (\<lambda>r. AddLink (Extract (Some r))) (results s) (join_span s)"
  have t: "?t = s\<lparr>join_span := ?sp, main_at := Linked k\<rparr>" using True by (simp add: link_results_def)
  have f: "now_iter ?t = now_iter s" "inside ?t = inside s" using k by (simp_all add: t now_iter_def)
  have L: "iteration_live k s" "outstanding n s = 0" "opened_in s k ''demo.pool.join'' (join_span s)" "sp_links (join_span s) = []"
    using I k True by (auto simp: pool_inv_def main_ok_def)
  have "\<forall>r \<in> set (results s). Context_valid (Extract (Some r))"
    using L(1) by (auto simp: iteration_live_def Context_valid_def)
  from fold_links [OF _ this, of "join_span s"] L(4) True
  have sp: "sp_links ?sp = map (\<lambda>r. Extract (Some r)) (results s)" "fixed_part ?sp = fixed_part (join_span s)"
    by (simp_all add: kTiles_def kMaxSpanLinks_def)
  have "opened_in ?t k ''demo.pool.join'' ?sp" using L(3) opened_in_fixed [OF sp(2)] ok_frame(1) [OF f] by simp
  then have "main_ok n ?t" using sp True L(1,2) unfolding t by (simp add: main_ok_def iteration_live_def outstanding_def)
  then show ?thesis by (rule keep_inv [OF I f, rotated 2]) (simp_all add: t)
next
  case False
  then show ?thesis using I by (simp add: link_results_def)
qed

lemma end_iteration_inv:
  assumes I: "pool_inv n s" and k: "main_at s = Linked k" shows "pool_inv n (end_iteration now1 now2 k s)"
proof -
  let ?t = "end_iteration now1 now2 k s"
  have L: "iteration_live k s" "outstanding n s = 0" "length (results s) = kTiles" "opened_in s k ''demo.pool.join'' (join_span s)"
      "sp_links (join_span s) = map (\<lambda>r. Extract (Some r)) (results s)"
    using I k by (auto simp: pool_inv_def main_ok_def)
  have f: "now_iter ?t = now_iter s" "inside ?t = inside s"
    using k L(1) by (auto simp: end_iteration_def now_iter_def Let_def split_beta iteration_live_def)
  show ?thesis
  proof (rule keep_inv [OF I f])
    show "main_ok n ?t"
      using L(1,2) by (auto simp: main_ok_def end_iteration_def Let_def split_beta iteration_live_def outstanding_def ContextGuard_exit_def)
    show "(j, r) \<in> set (spans s) \<or> record_ok s j r" if "(j, r) \<in> set (spans ?t)" for j r
      using that L k by (fastforce simp: end_iteration_def Let_def split_beta Span_dtor_def record_ok_def opened_in_def now_iter_def iteration_live_def)
  qed (auto simp: end_iteration_def Let_def split_beta)
qed

lemma pool_main_step_inv:
  assumes "pool_inv n s" shows "pool_inv n (pool_main_step rd n now1 now2 s)"
proof (cases "main_at s")
  case Stopping
  let ?t = "pool_main_step rd n now1 now2 s"
  have f: "now_iter ?t = now_iter s" "inside ?t = inside s" using Stopping by (simp_all add: pool_main_step_def now_iter_def)
  have "main_ok n ?t" using assms Stopping by (auto simp: pool_inv_def main_ok_def pool_main_step_def outstanding_def)
  then show ?thesis using Stopping by (intro keep_inv [OF assms f]) (simp_all add: pool_main_step_def split: if_splits)
qed (use assms begin_iteration_inv submit_or_join_inv link_results_inv end_iteration_inv in \<open>simp_all add: pool_main_step_def\<close>)

interpretation pool: inductive_invariant pool_init "demo_step rd n" "\<lambda>_. True" "pool_inv n" for rd n
proof (unfold_locales, goal_cases)
  case (1 s)
  then show ?case
    by (auto simp: pool_init_def pool_inv_def main_ok_def fresh_thread_def outstanding_def busy_count_def)
next
  case (3 s t)
  then show ?case using pool_main_step_inv pool_step_inv by (blast elim: demo_stepE)
qed simp

section \<open>Properties\<close>

text \<open>Property C32. No trace pollution on reused threads: whatever task a pool thread ran before, between tasks it carries no
  context; every tile span is a child of the span of the iteration that submitted it and belongs to that iteration's trace,
  on whichever thread and however late it ran; and the joining span of an iteration links exactly four contexts, all of its
  own trace.\<close>

theorem pool_no_pollution:
  assumes "reach pool_init (demo_step rd n) s"
  shows "(\<forall>i < n. pool_workers s i \<in> {Waiting, Returned} \<longrightarrow> current (pool_threads s i) = zero_context) \<and>
    (\<forall>(k, r) \<in> set (spans s). rec_name r \<in> {''demo.pool.tile'', ''demo.pool.join''} \<longrightarrow>
       rec_parent r = span (inside s k) \<and> trace (rec_ctx r) = trace (inside s k)) \<and>
    (\<forall>(k, r) \<in> set (spans s). rec_name r = ''demo.pool.join'' \<longrightarrow>
       length (rec_links r) = 4 \<and> (\<forall>c \<in> set (rec_links r). trace c = trace (inside s k)))"
proof -
  have I: "pool_inv n s" using pool.reach_inv [OF assms] by simp
  have "current (pool_threads s i) = zero_context" if "i < n" "pool_workers s i \<in> {Waiting, Returned}" for i
  proof -
    have "worker_ok s (current (pool_threads s i)) (pool_workers s i)" using I that(1) by (simp add: pool_inv_def)
    then show ?thesis using that(2) by auto
  qed
  moreover have "\<forall>(k, r) \<in> set (spans s). record_ok s k r" using I by (simp add: pool_inv_def)
  ultimately show ?thesis by (fastforce simp: record_ok_def kTiles_def)
qed

definition idle_pool :: Pool where
  "idle_pool =
     \<lparr>tasks = [], stopping = False, pool_threads = (\<lambda>_. fresh_thread), pool_workers = (\<lambda>_. Waiting), main_thread = fresh_thread,
      main_at = Iterate 1, guard_saved = zero_context, iteration_span = fst (Span_ctor (0, 0) ''none'' 0 fresh_thread),
      join_span = fst (Span_ctor (0, 0) ''none'' 0 fresh_thread), results = [], spans = [], inside = (\<lambda>_. zero_context)\<rparr>"

definition one_tile :: Pool where
  "one_tile = (let rd = (1, 2); w = pool_step rd 0 7; m = pool_main_step rd 3 5 6 in w (w (w (w (m (m idle_pool))))))"

lemma one_tile_reach: "reach pool_init (demo_step (\<lambda>_. (1, 2)) 3) one_tile"
proof -
  have "reach pool_init (demo_step (\<lambda>_. (1, 2)) 3) idle_pool" by (rule reach_init) (simp add: idle_pool_def pool_init_def)
  moreover have "demo_step (\<lambda>_. (1, 2)) 3 s (pool_main_step (1, 2) 3 5 6 s)" "demo_step (\<lambda>_. (1, 2)) 3 s (pool_step (1, 2) 0 7 s)" for s
    using main_goes [of "\<lambda>_. (1, 2)" 3 s 5 6] thread_goes [of 0 3 "\<lambda>_. (1, 2)" s 7] by simp_all
  ultimately show ?thesis unfolding one_tile_def Let_def by (meson reach_step)
qed

theorem pool_no_pollution_witness:
  "map (rec_name \<circ> snd) (spans one_tile) = [''demo.pool.tile''] \<and>
   list_all (\<lambda>(k, r). rec_parent r = span (inside one_tile k) \<and> trace (rec_ctx r) = trace (inside one_tile k)) (spans one_tile)"
proof -
  have "map (rec_name \<circ> snd) (spans one_tile) = [''demo.pool.tile'']" by code_simp
  with pool_no_pollution [OF one_tile_reach] show ?thesis by (auto simp: list_all_iff)
qed

end
