(* ===== verification/Trace_Pipeline.thy ===== *)
theory Trace_Pipeline
  imports Trace_Pool Arg_Pack "HOL-Library.Multiset"
begin

text \<open>
  \<open>examples/trace_pipeline_example.cpp\<close>: one trace over four threads. Three producers run under the root context, each in a span of
  its own, and push an envelope with their current context; the main thread pops the three envelopes, links the contexts in them
  to its gathering span and searches in a linked span. Every access to the queue (under its mutex) is one step, and so is each
  stretch of a thread's own work between them; a poll of an empty queue and the join of a thread still running change nothing.
  The spans and events are what a bound SDK receives.
\<close>

section \<open>The program\<close>

record Envelope =
  env_ctx :: "u8 list"
  kind :: nat

text \<open>A producer thread: not constructed, started, with its guard and span entered (and what their destructors restore), after the push,
  returned.\<close>

datatype producer = Unstarted | Started | Producing Context "Span option" | Shipped Context "Span option" | Finished

datatype pipeline_point = Minting | Spawning nat | Gathering nat | Searching | JoiningThreads nat | PipelineDone

record Pipeline =
  pl_queue :: "Envelope list"
  producers :: "nat \<Rightarrow> producer"
  prod_threads :: "nat \<Rightarrow> Thread"
  pl_main :: Thread
  pl_at :: pipeline_point
  root :: Context
  plan_saved :: Context
  plan_span :: "Span option"
  gather :: Span
  search_span :: "Span option"
  \<comment> \<open>ghost: the spans and events handed to the binding, what each producer pushed, and the kinds popped so far\<close>
  pl_spans :: "SpanRecord list"
  pl_events :: "(string \<times> arg list) list"
  pushed_ctx :: "nat \<Rightarrow> Context"
  popped :: "nat list"

text \<open>The span macros and \<open>XM_INFO\<close> under the compile-time level.\<close>

definition xm_span :: "nat \<Rightarrow> u32 \<times> u32 \<Rightarrow> string \<Rightarrow> int \<Rightarrow> Thread \<Rightarrow> Span option \<times> Thread" where
  "xm_span lvl rd name now th =
     (if lvl \<le> 5 then let (sp, th') = Span_ctor rd name now th in (Some sp, th') else (None, th))"

definition xm_span_linked :: "nat \<Rightarrow> u32 \<times> u32 \<Rightarrow> string \<Rightarrow> Context \<Rightarrow> int \<Rightarrow> Thread \<Rightarrow> Span option \<times> Thread" where
  "xm_span_linked lvl rd name link now th =
     (if lvl \<le> 5 then let (sp, th') = Span_ctor_linked rd name link now th in (Some sp, th') else (None, th))"

definition xm_span_end :: "int \<Rightarrow> Span option \<Rightarrow> Thread \<Rightarrow> SpanRecord list \<times> Thread" where
  "xm_span_end now sp th = (case sp of None \<Rightarrow> ([], th) | Some sp \<Rightarrow> Span_dtor True now sp th)"

definition pl_info :: "nat \<Rightarrow> string \<Rightarrow> arg list \<Rightarrow> Pipeline \<Rightarrow> Pipeline" where
  "pl_info lvl fmt args s = (if lvl \<le> 2 then s\<lparr>pl_events := pl_events s @ [(fmt, args)]\<rparr> else s)"

text \<open>\<open>Queue::Push\<close> and \<open>Queue::Pop\<close>.\<close>

definition Push :: "Envelope \<Rightarrow> Pipeline \<Rightarrow> Pipeline" where
  "Push e s = s\<lparr>pl_queue := pl_queue s @ [e]\<rparr>"

definition Pop :: "Pipeline \<Rightarrow> Envelope option \<times> Pipeline" where
  "Pop s = (case pl_queue s of [] \<Rightarrow> (None, s) | e # q \<Rightarrow> (Some e, s\<lparr>pl_queue := q\<rparr>))"

definition input_name :: "nat \<Rightarrow> string" where
  "input_name i = (if i = 0 then ''demo.input.pose'' else if i = 1 then ''demo.input.map'' else ''demo.input.goal'')"

text \<open>\<open>ProduceInput\<close> on producer thread \<open>i\<close>.\<close>

definition set_producer :: "nat \<Rightarrow> producer \<Rightarrow> Thread \<Rightarrow> Pipeline \<Rightarrow> Pipeline" where
  "set_producer i p th s = s\<lparr>producers := (producers s)(i := p), prod_threads := (prod_threads s)(i := th)\<rparr>"

definition ProduceInput_step :: "nat \<Rightarrow> u32 \<times> u32 \<Rightarrow> int \<Rightarrow> nat \<Rightarrow> Pipeline \<Rightarrow> Pipeline" where
  "ProduceInput_step lvl rd now i s =
     (case producers s i of
        Started \<Rightarrow>
          (let (saved, th1) = ContextGuard_enter (root s) (prod_threads s i);
               (sp, th2) = xm_span lvl rd (input_name i) now th1
           in set_producer i (Producing saved sp) th2 s)
      | Producing saved sp \<Rightarrow>
          (let ctx = CurrentContext (prod_threads s i)
           in set_producer i (Shipped saved sp) (prod_threads s i)
                (Push \<lparr>env_ctx = Inject ctx, kind = i\<rparr> s)\<lparr>pushed_ctx := (pushed_ctx s)(i := ctx)\<rparr>)
      | Shipped saved sp \<Rightarrow>
          (let (r, th1) = xm_span_end now sp (prod_threads s i)
           in set_producer i Finished (ContextGuard_exit saved th1) (s\<lparr>pl_spans := pl_spans s @ r\<rparr>))
      | _ \<Rightarrow> s)"

text \<open>\<open>main\<close>: the root, the threads, the scopes of the plan and of its gathering stage.\<close>

definition mint :: "nat \<Rightarrow> u32 \<times> u32 \<Rightarrow> Pipeline \<Rightarrow> Pipeline" where
  "mint lvl rd s =
     (let s1 = pl_info lvl ''trace pipeline demo: 3 producer threads -> gather -> plan -> output'' [] s;
          (ctx, th) = NewTrace rd (pl_main s1)
      in s1\<lparr>root := ctx, pl_main := th, pl_at := Spawning 0\<rparr>)"

definition spawn :: "nat \<Rightarrow> u32 \<times> u32 \<Rightarrow> int \<Rightarrow> int \<Rightarrow> nat \<Rightarrow> Pipeline \<Rightarrow> Pipeline" where
  "spawn lvl rd now1 now2 i s =
     (if i < 3 then s\<lparr>producers := (producers s)(i := Started), pl_at := Spawning (i + 1)\<rparr>
      else let (saved, th1) = ContextGuard_enter (root s) (pl_main s);
               (plan, th2) = xm_span lvl rd ''demo.plan.iteration'' now1 th1;
               (ga, th3) = Span_ctor rd ''demo.plan.gather_inputs'' now2 th2
           in s\<lparr>pl_main := th3, plan_saved := saved, plan_span := plan, gather := ga, pl_at := Gathering 0\<rparr>)"

text \<open>One turn of the gathering loop; after the third envelope the gathering span ends and the search begins.\<close>

definition gather_turn :: "nat \<Rightarrow> u32 \<times> u32 \<Rightarrow> int \<Rightarrow> int \<Rightarrow> nat \<Rightarrow> Pipeline \<Rightarrow> Pipeline" where
  "gather_turn lvl rd now1 now2 got s =
     (if got < 3 then
        (case Pop s of
           (Some e, s1) \<Rightarrow>
             (let inc = Extract (Some (env_ctx e))
              in s1\<lparr>gather := (if Context_valid inc then AddLink inc (gather s1) else gather s1), pl_at := Gathering (got + 1),
                    popped := popped s1 @ [kind e]\<rparr>)
         | (None, s1) \<Rightarrow> s1)
      else
        let (r, th1) = Span_dtor True now1 (gather s) (pl_main s);
            (se, th2) = xm_span_linked lvl rd ''demo.plan.search'' (root s) now2 th1;
            s1 = s\<lparr>pl_main := th2, search_span := se, pl_spans := pl_spans s @ r, pl_at := Searching\<rparr>
        in pl_info lvl ''search done under trace {:x}{:x}''
             [AUint (hi (trace (CurrentContext th2))), AUint (lo (trace (CurrentContext th2)))] s1)"

definition leave_plan :: "int \<Rightarrow> int \<Rightarrow> Pipeline \<Rightarrow> Pipeline" where
  "leave_plan now1 now2 s =
     (let (r1, th1) = xm_span_end now1 (search_span s) (pl_main s);
          (r2, th2) = xm_span_end now2 (plan_span s) th1
      in s\<lparr>pl_main := ContextGuard_exit (plan_saved s) th2, pl_spans := pl_spans s @ r1 @ r2, pl_at := JoiningThreads 0\<rparr>)"

definition join_threads :: "nat \<Rightarrow> nat \<Rightarrow> Pipeline \<Rightarrow> Pipeline" where
  "join_threads lvl i s =
     (if i < 3 then (if producers s i = Finished then s\<lparr>pl_at := JoiningThreads (i + 1)\<rparr> else s)
      else (pl_info lvl (''done '' @ [CHR 0xE2, CHR 0x80, CHR 0x94] @ '' with the SDK bound, every stage above lands on ONE timeline under one TraceId, with the gather span linking all 3 inputs'') [] s)
        \<lparr>pl_at := PipelineDone\<rparr>)"

definition pipeline_main_step :: "nat \<Rightarrow> u32 \<times> u32 \<Rightarrow> int \<Rightarrow> int \<Rightarrow> Pipeline \<Rightarrow> Pipeline" where
  "pipeline_main_step lvl rd now1 now2 s =
     (case pl_at s of
        Minting \<Rightarrow> mint lvl rd s
      | Spawning i \<Rightarrow> spawn lvl rd now1 now2 i s
      | Gathering got \<Rightarrow> gather_turn lvl rd now1 now2 got s
      | Searching \<Rightarrow> leave_plan now1 now2 s
      | JoiningThreads i \<Rightarrow> join_threads lvl i s
      | PipelineDone \<Rightarrow> s)"

inductive pipeline_step :: "nat \<Rightarrow> (nat \<Rightarrow> u32 \<times> u32) \<Rightarrow> Pipeline \<Rightarrow> Pipeline \<Rightarrow> bool" for lvl :: nat and rd :: "nat \<Rightarrow> u32 \<times> u32" where
  pipeline_main: "pipeline_step lvl rd s (pipeline_main_step lvl (rd 3) now1 now2 s)"
| pipeline_producer: "i < 3 \<Longrightarrow> pipeline_step lvl rd s (ProduceInput_step lvl (rd i) now i s)"

inductive_cases pipeline_stepE: "pipeline_step lvl rd s t"

definition pipeline_init :: "Pipeline \<Rightarrow> bool" where
  "pipeline_init s \<longleftrightarrow> pl_queue s = [] \<and> producers s = (\<lambda>_. Unstarted) \<and> prod_threads s = (\<lambda>_. fresh_thread) \<and> pl_main s = fresh_thread \<and>
     pl_at s = Minting \<and> pl_spans s = [] \<and> pl_events s = [] \<and> popped s = []"

section \<open>Invariant\<close>

text \<open>A span scope of a macro under a context, and what it leaves current.\<close>

definition scope_in :: "nat \<Rightarrow> Context \<Rightarrow> string \<Rightarrow> Context list \<Rightarrow> Span option \<Rightarrow> Context \<Rightarrow> bool" where
  "scope_in lvl outer name links sp cur \<longleftrightarrow> trace cur = trace outer \<and>
     (case sp of
        None \<Rightarrow> 5 < lvl \<and> cur = outer
      | Some sp \<Rightarrow> lvl \<le> 5 \<and> sp_name sp = name \<and> sp_saved sp = outer \<and> sp_parent sp = span outer \<and> sp_links sp = links)"

fun producer_ok :: "nat \<Rightarrow> Context \<Rightarrow> (nat \<Rightarrow> Context) \<Rightarrow> nat \<Rightarrow> Context \<Rightarrow> producer \<Rightarrow> bool" where
  "producer_ok lvl rt pctx i cur Unstarted \<longleftrightarrow> cur = zero_context"
| "producer_ok lvl rt pctx i cur Started \<longleftrightarrow> cur = zero_context \<and> Context_valid rt"
| "producer_ok lvl rt pctx i cur (Producing saved sp) \<longleftrightarrow> saved = zero_context \<and> Context_valid rt \<and> scope_in lvl rt (input_name i) [] sp cur"
| "producer_ok lvl rt pctx i cur (Shipped saved sp) \<longleftrightarrow> saved = zero_context \<and> scope_in lvl rt (input_name i) [] sp cur \<and> pctx i = cur"
| "producer_ok lvl rt pctx i cur Finished \<longleftrightarrow> cur = zero_context"

fun has_shipped :: "producer \<Rightarrow> bool" where
  "has_shipped (Shipped saved sp) = True"
| "has_shipped Finished = True"
| "has_shipped _ = False"

definition threads_fine :: "nat \<Rightarrow> Pipeline \<Rightarrow> bool" where
  "threads_fine lvl s \<longleftrightarrow> (\<forall>i < 3. producer_ok lvl (root s) (pushed_ctx s) i (current (prod_threads s i)) (producers s i))"

text \<open>What was pushed is either popped or still queued, once each.\<close>

definition queue_fine :: "Pipeline \<Rightarrow> bool" where
  "queue_fine s \<longleftrightarrow> (\<forall>e \<in> set (pl_queue s). env_ctx e = Inject (pushed_ctx s (kind e))) \<and>
     distinct (popped s @ map kind (pl_queue s)) \<and>
     set (popped s @ map kind (pl_queue s)) = {i. i < 3 \<and> has_shipped (producers s i)} \<and>
     (\<forall>i < 3. has_shipped (producers s i) \<longrightarrow> trace (pushed_ctx s i) = trace (root s))"

definition in_plan :: "nat \<Rightarrow> Pipeline \<Rightarrow> bool" where
  "in_plan lvl s \<longleftrightarrow> plan_saved s = zero_context \<and> scope_in lvl (root s) ''demo.plan.iteration'' [] (plan_span s) (sp_saved (gather s))"

definition main_fine :: "nat \<Rightarrow> Pipeline \<Rightarrow> bool" where
  "main_fine lvl s \<longleftrightarrow>
     (case pl_at s of
        Minting \<Rightarrow> current (pl_main s) = zero_context \<and> popped s = [] \<and> (\<forall>i < 3. producers s i = Unstarted)
      | Spawning j \<Rightarrow> Context_valid (root s) \<and> j \<le> 3 \<and> current (pl_main s) = zero_context \<and> popped s = [] \<and>
          (\<forall>i < 3. producers s i = Unstarted \<longleftrightarrow> j \<le> i)
      | Gathering got \<Rightarrow> Context_valid (root s) \<and> in_plan lvl s \<and> (\<forall>i < 3. producers s i \<noteq> Unstarted) \<and> trace (current (pl_main s)) = trace (root s) \<and>
          sp_name (gather s) = ''demo.plan.gather_inputs'' \<and> sp_links (gather s) = map (pushed_ctx s) (popped s) \<and>
          length (popped s) = got \<and> got \<le> 3
      | Searching \<Rightarrow> Context_valid (root s) \<and> in_plan lvl s \<and> (\<forall>i < 3. producers s i \<noteq> Unstarted) \<and> length (popped s) = 3 \<and>
          scope_in lvl (sp_saved (gather s)) ''demo.plan.search'' [root s] (search_span s) (current (pl_main s))
      | JoiningThreads j \<Rightarrow> Context_valid (root s) \<and> current (pl_main s) = zero_context \<and> length (popped s) = 3 \<and> j \<le> 3 \<and>
          (\<forall>i < 3. producers s i \<noteq> Unstarted) \<and> (\<forall>i < j. producers s i = Finished)
      | PipelineDone \<Rightarrow> Context_valid (root s) \<and> current (pl_main s) = zero_context \<and> length (popped s) = 3 \<and> (\<forall>i < 3. producers s i = Finished))"

definition span_fine :: "Pipeline \<Rightarrow> SpanRecord \<Rightarrow> bool" where
  "span_fine s r \<longleftrightarrow> trace (rec_ctx r) = trace (root s) \<and>
     (\<forall>i < 3. rec_name r = input_name i \<longrightarrow> has_shipped (producers s i) \<and> rec_parent r = span (root s) \<and> rec_ctx r = pushed_ctx s i) \<and>
     (rec_name r = ''demo.plan.gather_inputs'' \<longrightarrow> length (popped s) = 3 \<and> rec_links r = map (pushed_ctx s) (popped s)) \<and>
     (rec_name r = ''demo.plan.search'' \<longrightarrow> rec_links r = [root s])"

text \<open>The names of the spans ended so far.\<close>

definition ended_names :: "nat \<Rightarrow> Pipeline \<Rightarrow> string multiset" where
  "ended_names lvl s =
     (if lvl \<le> 5 then (\<Sum>i<3. if producers s i = Finished then {#input_name i#} else {#}) else {#}) +
     (case pl_at s of
        Searching \<Rightarrow> {#''demo.plan.gather_inputs''#}
      | JoiningThreads j \<Rightarrow> {#''demo.plan.gather_inputs''#} + (if lvl \<le> 5 then {#''demo.plan.search'', ''demo.plan.iteration''#} else {#})
      | PipelineDone \<Rightarrow> {#''demo.plan.gather_inputs''#} + (if lvl \<le> 5 then {#''demo.plan.search'', ''demo.plan.iteration''#} else {#})
      | _ \<Rightarrow> {#})"

definition pipeline_inv :: "nat \<Rightarrow> Pipeline \<Rightarrow> bool" where
  "pipeline_inv lvl s \<longleftrightarrow> threads_fine lvl s \<and> queue_fine s \<and> main_fine lvl s \<and> (\<forall>r \<in> set (pl_spans s). span_fine s r) \<and>
     mset (map rec_name (pl_spans s)) = ended_names lvl s"

lemma scope_opened:
  assumes "Context_valid (current th)" "xm_span lvl rd name now th = (sp, th')"
  shows "scope_in lvl (current th) name [] sp (current th')"
proof (cases "lvl \<le> 5")
  case True
  obtain sp0 th0 where o: "Span_ctor rd name now th = (sp0, th0)" by fastforce
  with True assms(2) have "sp = Some sp0" "th' = th0" by (simp_all add: xm_span_def)
  then show ?thesis using Span_ctor_valid [OF assms(1) o] True by (simp add: scope_in_def)
qed (use assms in \<open>simp add: xm_span_def scope_in_def\<close>)

lemma scope_opened_linked:
  assumes "Context_valid (current th)" "Context_valid link" "xm_span_linked lvl rd name link now th = (sp, th')"
  shows "scope_in lvl (current th) name [link] sp (current th')"
proof (cases "lvl \<le> 5")
  case True
  obtain sp0 th0 where o: "Span_ctor rd name now th = (sp0, th0)" by fastforce
  with True assms(3) have "sp = Some (AddLink link sp0)" "th' = th0" by (auto simp: xm_span_linked_def Span_ctor_linked_def)
  then show ?thesis using Span_ctor_valid [OF assms(1) o] True assms(2) by (simp add: scope_in_def AddLink_def kMaxSpanLinks_def)
qed (use assms in \<open>simp add: xm_span_linked_def scope_in_def\<close>)

lemma scope_closed:
  assumes "scope_in lvl outer name links sp (current th)" "xm_span_end now sp th = (r, th')"
  shows "current th' = outer" "map rec_name r = (if lvl \<le> 5 then [name] else [])"
    "\<forall>x \<in> set r. rec_name x = name \<and> rec_ctx x = current th \<and> rec_parent x = span outer \<and> rec_links x = links \<and> trace (current th) = trace outer"
  using assms by (auto simp: scope_in_def xm_span_end_def Span_dtor_def split: option.splits)

lemma input_names [simp]:
  "input_name i \<noteq> ''demo.plan.gather_inputs''" "input_name i \<noteq> ''demo.plan.search''" "input_name i \<noteq> ''demo.plan.iteration''"
  by (simp_all add: input_name_def)

lemma input_name_inj: "i < 3 \<Longrightarrow> j < 3 \<Longrightarrow> input_name i = input_name j \<longleftrightarrow> i = j"
  by (auto simp: input_name_def less_Suc_eq numeral_3_eq_3)

text \<open>A step of producer \<open>i\<close>, seen from the rest.\<close>

definition producer_moved :: "nat \<Rightarrow> producer \<Rightarrow> Thread \<Rightarrow> Envelope list \<Rightarrow> Context \<Rightarrow> SpanRecord list \<Rightarrow> Pipeline \<Rightarrow> Pipeline" where
  "producer_moved i p th q c rs s = s\<lparr>producers := (producers s)(i := p), prod_threads := (prod_threads s)(i := th), pl_queue := q,
     pushed_ctx := (pushed_ctx s)(i := c), pl_spans := pl_spans s @ rs\<rparr>"

lemma producer_ok_other: "i \<noteq> j \<Longrightarrow> producer_ok lvl rt (f(i := c)) j cur p = producer_ok lvl rt f j cur p"
  by (cases p) simp_all

lemma ended_names_moved:
  assumes "i < 3" "producers s i \<noteq> Finished"
  shows "ended_names lvl (producer_moved i p th q c rs s) = (if p = Finished \<and> lvl \<le> 5 then {#input_name i#} else {#}) + ended_names lvl s"
proof -
  let ?f = "\<lambda>pr j. if pr j = Finished then {#input_name j#} else {#}"
  have e: "(\<Sum>j\<in>{..<3} - {i}. ?f ((producers s)(i := p)) j) = (\<Sum>j\<in>{..<3} - {i}. ?f (producers s) j)" by (intro sum.cong) auto
  have "(\<Sum>j<3. ?f pr j) = ?f pr i + (\<Sum>j\<in>{..<3} - {i}. ?f pr j)" for pr by (rule sum.remove) (simp_all add: assms(1))
  from this [of "producers s"] this [of "(producers s)(i := p)"] e
  have "(\<Sum>j<3. ?f ((producers s)(i := p)) j) = (if p = Finished then {#input_name i#} else {#}) + (\<Sum>j<3. ?f (producers s) j)"
    using assms(2) by simp
  then show ?thesis by (simp add: ended_names_def producer_moved_def add.assoc cong: if_cong)
qed

lemma producer_frame:
  assumes I: "pipeline_inv lvl s" and i: "i < 3" "producers s i \<noteq> Unstarted" "producers s i \<noteq> Finished" "p \<noteq> Unstarted"
    and sh: "has_shipped (producers s i) \<Longrightarrow> c = pushed_ctx s i \<and> has_shipped p"
    and ok: "producer_ok lvl (root s) ((pushed_ctx s)(i := c)) i (current th) p"
    and q: "queue_fine (producer_moved i p th q c rs s)"
    and r: "\<forall>r \<in> set rs. span_fine (producer_moved i p th q c rs s) r" "map rec_name rs = (if p = Finished \<and> lvl \<le> 5 then [input_name i] else [])"
  shows "pipeline_inv lvl (producer_moved i p th q c rs s)"
proof -
  let ?t = "producer_moved i p th q c rs s"
  have pop: "k \<in> set (popped s) \<Longrightarrow> ((pushed_ctx s)(i := c)) k = pushed_ctx s k" for k
    using I sh by (auto simp: pipeline_inv_def queue_fine_def)
  then have map: "map ((pushed_ctx s)(i := c)) (popped s) = map (pushed_ctx s) (popped s)" by (simp cong: map_cong)
  have "threads_fine lvl ?t"
    using I ok by (auto simp: pipeline_inv_def threads_fine_def producer_moved_def producer_ok_other)
  moreover have "main_fine lvl ?t"
    using I i map by (auto simp: pipeline_inv_def main_fine_def producer_moved_def in_plan_def split: pipeline_point.splits)
  moreover have "span_fine ?t r" if "r \<in> set (pl_spans s)" for r
  proof -
    have "span_fine s r" using I that by (simp add: pipeline_inv_def)
    then show ?thesis using sh map by (auto simp: span_fine_def producer_moved_def)
  qed
  moreover have "mset (map rec_name (pl_spans ?t)) = ended_names lvl ?t"
    using I r(2) unfolding ended_names_moved [OF i(1,3)] by (simp add: pipeline_inv_def producer_moved_def split: if_splits)
  ultimately show ?thesis using q r(1) by (auto simp: pipeline_inv_def producer_moved_def)
qed

lemma queue_push:
  assumes Q: "queue_fine s" and i: "\<not> has_shipped (producers s i)" "i < 3" and c: "trace c = trace (root s)"
  shows "queue_fine (producer_moved i (Shipped saved sp) th (pl_queue s @ [\<lparr>env_ctx = Inject c, kind = i\<rparr>]) c [] s)"
proof -
  have n: "i \<notin> set (popped s)" "\<And>e. e \<in> set (pl_queue s) \<Longrightarrow> kind e \<noteq> i"
    using Q i(1) by (auto simp: queue_fine_def)
  have "set (popped s @ map kind (pl_queue s @ [\<lparr>env_ctx = Inject c, kind = i\<rparr>])) =
      {j. j < 3 \<and> has_shipped (((producers s)(i := Shipped saved sp)) j)}"
    using Q i(2) by (auto simp: queue_fine_def)
  moreover have "distinct (popped s @ map kind (pl_queue s @ [\<lparr>env_ctx = Inject c, kind = i\<rparr>]))"
    using Q n by (force simp: queue_fine_def)
  ultimately show ?thesis using Q n c unfolding queue_fine_def producer_moved_def by simp
qed

lemma producer_step_inv:
  assumes I: "pipeline_inv lvl s" and i: "i < 3" shows "pipeline_inv lvl (ProduceInput_step lvl rd now i s)"
proof -
  have Q: "queue_fine s" and ok: "producer_ok lvl (root s) (pushed_ctx s) i (current (prod_threads s i)) (producers s i)"
    using I i by (auto simp: pipeline_inv_def threads_fine_def)
  show ?thesis
  proof (cases "producers s i")
    case Started
    obtain sp th where sp: "xm_span lvl rd (input_name i) now ((prod_threads s i)\<lparr>current := root s\<rparr>) = (sp, th)" by fastforce
    have "ProduceInput_step lvl rd now i s = producer_moved i (Producing zero_context sp) th (pl_queue s) (pushed_ctx s i) [] s"
      using Started sp ok by (simp add: ProduceInput_step_def ContextGuard_enter_def set_producer_def producer_moved_def)
    moreover have "queue_fine (producer_moved i (Producing zero_context sp) th (pl_queue s) (pushed_ctx s i) [] s)"
      using Q Started by (auto simp: queue_fine_def producer_moved_def)
    ultimately show ?thesis using Started ok scope_opened [OF _ sp] i by (auto intro!: producer_frame [OF I])
  next
    case (Producing saved sp)
    let ?c = "current (prod_threads s i)" and ?q = "pl_queue s @ [\<lparr>env_ctx = Inject (current (prod_threads s i)), kind = i\<rparr>]"
    have "ProduceInput_step lvl rd now i s = producer_moved i (Shipped saved sp) (prod_threads s i) ?q ?c [] s"
      using Producing by (simp add: ProduceInput_step_def set_producer_def Push_def producer_moved_def CurrentContext_def Let_def)
    moreover have "queue_fine (producer_moved i (Shipped saved sp) (prod_threads s i) ?q ?c [] s)"
      using queue_push [OF Q _ i] ok Producing by (simp add: scope_in_def)
    ultimately show ?thesis using Producing ok i by (auto intro!: producer_frame [OF I])
  next
    case (Shipped saved sp)
    obtain r th where e: "xm_span_end now sp (prod_threads s i) = (r, th)" by fastforce
    have "saved = zero_context" using ok Shipped by simp
    then have "ProduceInput_step lvl rd now i s = producer_moved i Finished (th\<lparr>current := zero_context\<rparr>) (pl_queue s) (pushed_ctx s i) r s"
      using Shipped e by (simp add: ProduceInput_step_def ContextGuard_exit_def set_producer_def producer_moved_def)
    moreover have "scope_in lvl (root s) (input_name i) [] sp (current (prod_threads s i))" using ok Shipped by simp
    note c = scope_closed [OF this e]
    have "queue_fine (producer_moved i Finished (th\<lparr>current := zero_context\<rparr>) (pl_queue s) (pushed_ctx s i) r s)"
      using Q Shipped by (auto simp: queue_fine_def producer_moved_def)
    moreover have "\<forall>x \<in> set r. span_fine (producer_moved i Finished (th\<lparr>current := zero_context\<rparr>) (pl_queue s) (pushed_ctx s i) r s) x"
      using c(3) ok Shipped i by (auto simp: span_fine_def producer_moved_def input_name_inj)
    ultimately show ?thesis using Shipped c(2) i by (auto intro!: producer_frame [OF I])
  qed (use I in \<open>simp_all add: ProduceInput_step_def\<close>)
qed

text \<open>A step of the main thread, seen from the producers.\<close>

lemma main_frame:
  assumes I: "pipeline_inv lvl s" and m: "main_fine lvl t" and q: "queue_fine t"
    and same: "root t = root s" "pushed_ctx t = pushed_ctx s" "prod_threads t = prod_threads s"
    and p: "\<And>i. i < 3 \<Longrightarrow> producers t i = producers s i \<or> producers s i = Unstarted \<and> producers t i = Started \<and> Context_valid (root s)"
    and pop: "popped t = popped s \<or> length (popped s) < 3"
    and spans: "pl_spans t = pl_spans s @ rs" "\<forall>r \<in> set rs. span_fine t r" "mset (map rec_name rs) + ended_names lvl s = ended_names lvl t"
  shows "pipeline_inv lvl t"
proof -
  have ship: "has_shipped (producers t i) = has_shipped (producers s i)" if "i < 3" for i using p [OF that] by auto
  have "threads_fine lvl t" unfolding threads_fine_def
  proof (intro allI impI)
    fix i :: nat assume i: "i < 3"
    then have "producer_ok lvl (root s) (pushed_ctx s) i (current (prod_threads s i)) (producers s i)" using I by (simp add: pipeline_inv_def threads_fine_def)
    then show "producer_ok lvl (root t) (pushed_ctx t) i (current (prod_threads t i)) (producers t i)" using p [OF i] same by auto
  qed
  moreover have "span_fine t r" if "r \<in> set (pl_spans s)" for r
  proof -
    have "span_fine s r" using I that by (simp add: pipeline_inv_def)
    then show ?thesis using pop ship same by (auto simp: span_fine_def)
  qed
  moreover have "mset (map rec_name (pl_spans t)) = ended_names lvl t"
    using I spans(1) spans(3) [symmetric] by (simp add: pipeline_inv_def)
  ultimately show ?thesis using m q spans(1,2) by (auto simp: pipeline_inv_def)
qed

lemma pl_info_sel [simp]:
  "pl_queue (pl_info lvl f a s) = pl_queue s" "producers (pl_info lvl f a s) = producers s" "prod_threads (pl_info lvl f a s) = prod_threads s"
  "pl_main (pl_info lvl f a s) = pl_main s" "pl_at (pl_info lvl f a s) = pl_at s" "root (pl_info lvl f a s) = root s"
  "plan_saved (pl_info lvl f a s) = plan_saved s" "plan_span (pl_info lvl f a s) = plan_span s" "gather (pl_info lvl f a s) = gather s"
  "search_span (pl_info lvl f a s) = search_span s" "pl_spans (pl_info lvl f a s) = pl_spans s" "pushed_ctx (pl_info lvl f a s) = pushed_ctx s"
  "popped (pl_info lvl f a s) = popped s"
  by (simp_all add: pl_info_def)

lemma mint_inv:
  assumes I: "pipeline_inv lvl s" and at: "pl_at s = Minting" shows "pipeline_inv lvl (mint lvl rd s)"
proof -
  let ?t = "mint lvl rd s"
  obtain ctx th where n: "NewTrace rd (pl_main s) = (ctx, th)" by fastforce
  have v: "Context_valid ctx" "current th = current (pl_main s)"
    using NewTrace_valid [of rd "pl_main s"] NewTrace_current [of rd "pl_main s"] n by simp_all
  have u: "\<forall>i < 3. producers s i = Unstarted" "popped s = []" "current (pl_main s) = zero_context"
    and z: "\<forall>i < 3. current (prod_threads s i) = zero_context"
    using I at by (auto simp: pipeline_inv_def main_fine_def threads_fine_def)
  have "{i. i < 3 \<and> has_shipped (producers s i)} = {}" using u(1) by auto
  then have q: "pl_queue s = []" using I unfolding pipeline_inv_def queue_fine_def by (metis Nil_is_append_conv Nil_is_map_conv set_empty)
  have e: "ended_names lvl s = {#}" "ended_names lvl ?t = {#}" using u(1) at by (simp_all add: ended_names_def mint_def n)
  then have "pl_spans s = []" using I by (simp add: pipeline_inv_def)
  moreover have "queue_fine s" using I by (simp add: pipeline_inv_def)
  ultimately show ?thesis using u v z e(2) n q
    by (auto simp: pipeline_inv_def mint_def main_fine_def threads_fine_def queue_fine_def)
qed

lemma spawn_inv:
  assumes I: "pipeline_inv lvl s" and at: "pl_at s = Spawning j" shows "pipeline_inv lvl (spawn lvl rd now1 now2 j s)"
proof (cases "j < 3")
  case True
  have u: "producers s j = Unstarted" "Context_valid (root s)" and M: "main_fine lvl s" and Q: "queue_fine s"
    using I at True by (auto simp: pipeline_inv_def main_fine_def)
  have "ended_names lvl (spawn lvl rd now1 now2 j s) = ended_names lvl s"
    using True at u by (simp add: spawn_def ended_names_def cong: if_cong sum.cong) (auto intro!: sum.cong)
  moreover have "queue_fine (spawn lvl rd now1 now2 j s)" using Q True u by (auto simp: spawn_def queue_fine_def)
  moreover have "main_fine lvl (spawn lvl rd now1 now2 j s)" using M at True by (auto simp: spawn_def main_fine_def)
  ultimately show ?thesis using True u by (intro main_frame [OF I, where rs = "[]"]) (auto simp: spawn_def)
next
  case False
  have v: "Context_valid (root s)" "current (pl_main s) = zero_context" and Q: "queue_fine s" and d: "popped s = []" "\<forall>i < 3. producers s i \<noteq> Unstarted"
    using I at False by (auto simp: pipeline_inv_def main_fine_def)
  obtain pl th2 where x: "xm_span lvl rd ''demo.plan.iteration'' now1 ((pl_main s)\<lparr>current := root s\<rparr>) = (pl, th2)" by fastforce
  obtain ga th3 where g: "Span_ctor rd ''demo.plan.gather_inputs'' now2 th2 = (ga, th3)" by fastforce
  have sc: "scope_in lvl (root s) ''demo.plan.iteration'' [] pl (current th2)" using scope_opened [OF _ x] v by simp
  then have c: "Context_valid (current th2)" using v by (simp add: scope_in_def Context_valid_def)
  have t: "spawn lvl rd now1 now2 j s = s\<lparr>pl_main := th3, plan_saved := zero_context, plan_span := pl, gather := ga, pl_at := Gathering 0\<rparr>"
    using False x g v by (simp add: spawn_def ContextGuard_enter_def)
  have "main_fine lvl (spawn lvl rd now1 now2 j s)"
    using sc v d Span_ctor_valid [OF c g] unfolding t by (simp add: main_fine_def in_plan_def scope_in_def)
  then show ?thesis using Q at by (intro main_frame [OF I, where rs = "[]"]) (simp_all add: t queue_fine_def ended_names_def)
qed

lemma gather_pop_inv:
  assumes I: "pipeline_inv lvl s" and at: "pl_at s = Gathering got" and g: "got < 3"
  shows "pipeline_inv lvl (gather_turn lvl rd now1 now2 got s)"
proof (cases "pl_queue s")
  case Nil
  then show ?thesis using I g by (simp add: gather_turn_def Pop_def)
next
  case (Cons e q)
  let ?t = "gather_turn lvl rd now1 now2 got s"
  have Q: "queue_fine s" and M: "main_fine lvl s" using I by (auto simp: pipeline_inv_def)
  have e: "env_ctx e = Inject (pushed_ctx s (kind e))" "kind e < 3" "has_shipped (producers s (kind e))"
    using Q Cons by (auto simp: queue_fine_def)
  then have "trace (pushed_ctx s (kind e)) = trace (root s)" using Q by (simp add: queue_fine_def)
  then have v: "Context_valid (pushed_ctx s (kind e))" using M at by (simp add: main_fine_def Context_valid_def)
  have t: "?t = s\<lparr>pl_queue := q, gather := AddLink (pushed_ctx s (kind e)) (gather s), pl_at := Gathering (got + 1), popped := popped s @ [kind e]\<rparr>"
    using g Cons e(1) v by (simp add: gather_turn_def Pop_def)
  have "main_fine lvl ?t"
    using M at g v unfolding t by (auto simp: main_fine_def in_plan_def AddLink_def kMaxSpanLinks_def)
  moreover have "queue_fine ?t" using Q Cons unfolding t by (auto simp: queue_fine_def)
  moreover have "ended_names lvl ?t = ended_names lvl s" using at unfolding t by (simp add: ended_names_def)
  moreover have "length (popped s) < 3" using M at g by (simp add: main_fine_def)
  ultimately show ?thesis by (intro main_frame [OF I, where rs = "[]"]) (simp_all add: t)
qed

lemma gather_end_inv:
  assumes I: "pipeline_inv lvl s" and at: "pl_at s = Gathering got" and g: "\<not> got < 3"
  shows "pipeline_inv lvl (gather_turn lvl rd now1 now2 got s)"
proof -
  let ?t = "gather_turn lvl rd now1 now2 got s"
  have Q: "queue_fine s" and M: "main_fine lvl s" using I by (auto simp: pipeline_inv_def)
  have m: "Context_valid (root s)" "in_plan lvl s" "length (popped s) = 3" "sp_links (gather s) = map (pushed_ctx s) (popped s)"
    "trace (current (pl_main s)) = trace (root s)" "sp_name (gather s) = ''demo.plan.gather_inputs''" "\<forall>i < 3. producers s i \<noteq> Unstarted"
    using M at g by (auto simp: main_fine_def)
  obtain r th1 where d: "Span_dtor True now1 (gather s) (pl_main s) = (r, th1)" by fastforce
  have th1: "current th1 = sp_saved (gather s)" and r: "\<exists>x. r = [x] \<and> rec_name x = ''demo.plan.gather_inputs'' \<and> rec_links x = sp_links (gather s) \<and> rec_ctx x = current (pl_main s)"
    using d m(6) by (auto simp: Span_dtor_def)
  obtain se th2 where x: "xm_span_linked lvl rd ''demo.plan.search'' (root s) now2 th1 = (se, th2)" by fastforce
  have "trace (current th1) = trace (root s)" using m(2) th1 by (simp add: in_plan_def scope_in_def)
  then have "Context_valid (current th1)" using m(1) by (simp add: Context_valid_def)
  note sc = scope_opened_linked [OF this m(1) x]
  obtain f a where t: "?t = pl_info lvl f a (s\<lparr>pl_main := th2, search_span := se, pl_spans := pl_spans s @ r, pl_at := Searching\<rparr>)"
    using g d x by (simp add: gather_turn_def)
  have "main_fine lvl ?t" using m sc th1 unfolding t by (simp add: main_fine_def in_plan_def)
  moreover have "queue_fine ?t" using Q unfolding t by (simp add: queue_fine_def)
  moreover have "\<forall>x \<in> set r. span_fine ?t x" using r m(3-5) input_names(1) [symmetric] unfolding t by (auto simp: span_fine_def)
  moreover have "mset (map rec_name r) + ended_names lvl s = ended_names lvl ?t" using at r unfolding t by (auto simp: ended_names_def)
  ultimately show ?thesis by (intro main_frame [OF I, where rs = r]) (simp_all add: t)
qed

lemma leave_plan_inv:
  assumes I: "pipeline_inv lvl s" and at: "pl_at s = Searching" shows "pipeline_inv lvl (leave_plan now1 now2 s)"
proof -
  let ?t = "leave_plan now1 now2 s"
  have Q: "queue_fine s" and M: "main_fine lvl s" using I by (auto simp: pipeline_inv_def)
  then have m: "Context_valid (root s)" "plan_saved s = zero_context" "length (popped s) = 3" "\<forall>i < 3. producers s i \<noteq> Unstarted"
    and sc: "scope_in lvl (root s) ''demo.plan.iteration'' [] (plan_span s) (sp_saved (gather s))"
      "scope_in lvl (sp_saved (gather s)) ''demo.plan.search'' [root s] (search_span s) (current (pl_main s))"
    using at by (auto simp: main_fine_def in_plan_def)
  obtain r1 th1 where e1: "xm_span_end now1 (search_span s) (pl_main s) = (r1, th1)" by fastforce
  note c1 = scope_closed [OF sc(2) e1]
  obtain r2 th2 where e2: "xm_span_end now2 (plan_span s) th1 = (r2, th2)" by fastforce
  have "scope_in lvl (root s) ''demo.plan.iteration'' [] (plan_span s) (current th1)" using sc(1) c1(1) by simp
  note c2 = scope_closed [OF this e2]
  have t: "?t = s\<lparr>pl_main := th2\<lparr>current := zero_context\<rparr>, pl_spans := pl_spans s @ r1 @ r2, pl_at := JoiningThreads 0\<rparr>"
    using e1 e2 m(2) by (simp add: leave_plan_def ContextGuard_exit_def)
  have "main_fine lvl ?t" using m unfolding t by (simp add: main_fine_def)
  moreover have "queue_fine ?t" using Q unfolding t by (simp add: queue_fine_def)
  moreover have "\<forall>x \<in> set (r1 @ r2). span_fine ?t x"
    using c1 c2 sc(1) input_names [symmetric] unfolding t by (fastforce simp: span_fine_def scope_in_def)
  moreover have "mset (map rec_name (r1 @ r2)) + ended_names lvl s = ended_names lvl ?t"
    using at c1(2) c2(2) unfolding t map_append by (simp add: ended_names_def)
  ultimately show ?thesis by (intro main_frame [OF I, where rs = "r1 @ r2"]) (simp_all add: t)
qed

lemma join_threads_inv:
  assumes I: "pipeline_inv lvl s" and at: "pl_at s = JoiningThreads j" shows "pipeline_inv lvl (join_threads lvl j s)"
proof -
  let ?t = "join_threads lvl j s"
  have "main_fine lvl ?t" using I at by (auto simp: pipeline_inv_def main_fine_def join_threads_def less_Suc_eq)
  moreover have "queue_fine ?t" using I by (simp add: pipeline_inv_def queue_fine_def join_threads_def)
  moreover have "ended_names lvl ?t = ended_names lvl s" using at by (simp add: ended_names_def join_threads_def)
  ultimately show ?thesis by (intro main_frame [OF I, where rs = "[]"]) (simp_all add: join_threads_def)
qed

lemma gather_turn_inv: "pipeline_inv lvl s \<Longrightarrow> pl_at s = Gathering got \<Longrightarrow> pipeline_inv lvl (gather_turn lvl rd now1 now2 got s)"
  using gather_pop_inv gather_end_inv by blast

lemma pipeline_main_inv: "pipeline_inv lvl s \<Longrightarrow> pipeline_inv lvl (pipeline_main_step lvl rd now1 now2 s)"
  by (cases "pl_at s") (simp_all add: pipeline_main_step_def mint_inv spawn_inv gather_turn_inv leave_plan_inv join_threads_inv)

text \<open>The event of the search names the trace of the root.\<close>

definition search_fmt :: string where
  "search_fmt = ''search done under trace {:x}{:x}''"

definition events_fine :: "Pipeline \<Rightarrow> bool" where
  "events_fine s \<longleftrightarrow> (\<forall>(f, a) \<in> set (pl_events s). f = search_fmt \<longrightarrow>
     pl_at s \<noteq> Minting \<and> a = [AUint (hi (trace (root s))), AUint (lo (trace (root s)))])"

lemma producer_events [simp]:
  "pl_events (ProduceInput_step lvl rd now i s) = pl_events s" "root (ProduceInput_step lvl rd now i s) = root s"
  "pl_at (ProduceInput_step lvl rd now i s) = pl_at s"
  by (simp_all add: ProduceInput_step_def set_producer_def Push_def Let_def split_beta split: producer.splits)

lemma main_events:
  assumes I: "pipeline_inv lvl s" and E: "events_fine s" shows "events_fine (pipeline_main_step lvl rd now1 now2 s)"
proof (cases "pl_at s")
  case (Gathering got)
  have "trace (current th2) = trace (root s)"
    if "Span_dtor True now1 (gather s) (pl_main s) = (r, th1)" "xm_span_linked lvl rd ''demo.plan.search'' (root s) now2 th1 = (se, th2)" for r th1 se th2
  proof -
    have m: "Context_valid (root s)" "trace (sp_saved (gather s)) = trace (root s)"
      using I Gathering by (auto simp: pipeline_inv_def main_fine_def in_plan_def scope_in_def)
    moreover have th1: "current th1 = sp_saved (gather s)" using that(1) by (auto simp: Span_dtor_def)
    ultimately have "Context_valid (current th1)" by (simp add: Context_valid_def)
    from scope_opened_linked [OF this m(1) that(2)] th1 m(2) show ?thesis by (simp add: scope_in_def)
  qed
  then show ?thesis using E Gathering
    by (auto simp: pipeline_main_step_def events_fine_def gather_turn_def Pop_def pl_info_def CurrentContext_def Let_def split_beta
        prod_eq_iff split: list.splits)
qed (use E in \<open>auto simp: pipeline_main_step_def events_fine_def search_fmt_def mint_def spawn_def leave_plan_def join_threads_def pl_info_def
    Let_def split_beta\<close>)

interpretation pipeline: inductive_invariant pipeline_init "pipeline_step lvl rd" "\<lambda>_. True" "\<lambda>s. pipeline_inv lvl s \<and> events_fine s" for lvl rd
proof (unfold_locales, goal_cases)
  case (1 s)
  then show ?case
    by (simp add: pipeline_init_def pipeline_inv_def threads_fine_def queue_fine_def main_fine_def ended_names_def fresh_thread_def events_fine_def)
next
  case (3 s t)
  from 3(1) show ?case
  proof cases
    case pipeline_main
    then show ?thesis using 3(2) by (simp add: pipeline_main_inv main_events)
  next
    case pipeline_producer
    then show ?thesis using 3(2) by (simp add: producer_step_inv events_fine_def)
  qed
qed simp

section \<open>Progress\<close>

fun producer_left :: "producer \<Rightarrow> nat" where
  "producer_left Unstarted = 4"
| "producer_left Started = 3"
| "producer_left (Producing saved sp) = 2"
| "producer_left (Shipped saved sp) = 1"
| "producer_left Finished = 0"

fun main_left :: "pipeline_point \<Rightarrow> nat" where
  "main_left Minting = 14"
| "main_left (Spawning i) = 13 - i"
| "main_left (Gathering got) = 9 - got"
| "main_left Searching = 5"
| "main_left (JoiningThreads i) = 4 - i"
| "main_left PipelineDone = 0"

definition work_left :: "Pipeline \<Rightarrow> nat" where
  "work_left s = main_left (pl_at s) + (\<Sum>i<3. producer_left (producers s i))"

lemma sum3: "(\<Sum>i<(3::nat). f i) = f 0 + f 1 + (f 2 :: nat)"
  by (simp add: numeral_3_eq_3 numeral_2_eq_2)

lemma producer_work:
  assumes "i < 3" "producers s i \<noteq> Unstarted" "producers s i \<noteq> Finished"
  shows "work_left (ProduceInput_step lvl rd now i s) < work_left s"
proof -
  have i: "i = 0 \<or> i = 1 \<or> i = 2" using assms(1) by auto
  show ?thesis using assms(2,3) i
    by (cases "producers s i") (auto simp: ProduceInput_step_def set_producer_def Push_def work_left_def sum3 Let_def split_beta)
qed

lemma producer_idle: "producers s i = Unstarted \<or> producers s i = Finished \<Longrightarrow> ProduceInput_step lvl rd now i s = s"
  by (auto simp: ProduceInput_step_def)

lemma main_work:
  assumes "pipeline_inv lvl s"
  shows "pipeline_main_step lvl rd now1 now2 s = s \<or> work_left (pipeline_main_step lvl rd now1 now2 s) < work_left s"
proof (cases "pl_at s")
  case (Spawning i)
  have i: "i < 3 \<longrightarrow> producers s i = Unstarted" "i \<le> 3" using assms Spawning by (auto simp: pipeline_inv_def main_fine_def)
  then have "i = 0 \<or> i = 1 \<or> i = 2 \<or> i = 3" by auto
  then show ?thesis using Spawning i
    by (auto simp: pipeline_main_step_def spawn_def work_left_def sum3 Let_def split_beta)
qed (use assms in \<open>auto simp: pipeline_main_step_def mint_def gather_turn_def Pop_def leave_plan_def join_threads_def work_left_def
    pipeline_inv_def main_fine_def Let_def split_beta split: list.splits\<close>)

lemma can_move:
  assumes I: "pipeline_inv lvl s" and at: "pl_at s \<noteq> PipelineDone"
  shows "\<exists>t. pipeline_step lvl rd s t \<and> work_left t < work_left s"
proof -
  have prod: "\<exists>t. pipeline_step lvl rd s t \<and> work_left t < work_left s"
    if "i < 3" "producers s i \<noteq> Unstarted" "producers s i \<noteq> Finished" for i
    using producer_work [OF that, of lvl "rd i"] pipeline_producer [OF that(1)] by blast
  have main: "\<exists>t. pipeline_step lvl rd s t \<and> work_left t < work_left s" if "pl_at (pipeline_main_step lvl (rd 3) 0 0 s) \<noteq> pl_at s"
    using main_work [OF I, of "rd 3" 0 0] that pipeline_main [of lvl rd s 0 0] by metis
  show ?thesis
  proof (cases "pl_at s")
    case (Gathering got)
    show ?thesis
    proof (cases "got < 3 \<and> pl_queue s = []")
      case True
      then have "length (popped s) < 3" "set (popped s) = {i. i < 3 \<and> has_shipped (producers s i)}" "\<forall>i < 3. producers s i \<noteq> Unstarted"
        using I Gathering by (auto simp: pipeline_inv_def main_fine_def queue_fine_def)
      moreover from this have "set (popped s) \<noteq> {..<3}" by (metis card_length card_lessThan not_le)
      ultimately obtain i where "i < 3" "\<not> has_shipped (producers s i)" "producers s i \<noteq> Unstarted" by auto
      then show ?thesis using prod [of i] by fastforce
    next
      case False
      then show ?thesis using Gathering
        by (intro main) (auto simp: pipeline_main_step_def gather_turn_def Pop_def Let_def split_beta neq_Nil_conv)
    qed
  next
    case (JoiningThreads j)
    show ?thesis
    proof (cases "j < 3 \<and> producers s j \<noteq> Finished")
      case True
      then show ?thesis using prod [of j] I JoiningThreads by (simp add: pipeline_inv_def main_fine_def)
    next
      case False
      then show ?thesis using JoiningThreads by (intro main) (auto simp: pipeline_main_step_def join_threads_def)
    qed
  qed (use at in \<open>auto intro!: main simp: pipeline_main_step_def mint_def spawn_def leave_plan_def Let_def split_beta split: if_splits\<close>)
qed

section \<open>Properties\<close>

text \<open>Property C36. One trace over four threads: in every interleaving of the example pipeline every span ended belongs to the
  trace minted at the start; a producer's span is a child of the root span, and the context it shipped is the context of that span;
  the gathering span links the contexts of the three producers, each once, in whatever order they arrived; the search links the root
  and its event names the root's trace; and a producer thread carries no context before and after its work.\<close>

theorem pipeline_one_trace:
  assumes "reach pipeline_init (pipeline_step lvl rd) s"
  shows "(\<forall>r \<in> set (pl_spans s). trace (rec_ctx r) = trace (root s)) \<and>
    (\<forall>r \<in> set (pl_spans s). \<forall>i < 3. rec_name r = input_name i \<longrightarrow> rec_parent r = span (root s) \<and> rec_ctx r = pushed_ctx s i) \<and>
    (\<forall>r \<in> set (pl_spans s). rec_name r = ''demo.plan.gather_inputs'' \<longrightarrow>
       mset (rec_links r) = {#pushed_ctx s 0, pushed_ctx s 1, pushed_ctx s 2#}) \<and>
    (\<forall>r \<in> set (pl_spans s). rec_name r = ''demo.plan.search'' \<longrightarrow> rec_links r = [root s]) \<and>
    (\<forall>(f, a) \<in> set (pl_events s). f = search_fmt \<longrightarrow> a = [AUint (hi (trace (root s))), AUint (lo (trace (root s)))]) \<and>
    (\<forall>i < 3. producers s i \<in> {Unstarted, Started, Finished} \<longrightarrow> current (prod_threads s i) = zero_context)"
proof -
  have I: "pipeline_inv lvl s" and E: "events_fine s" using pipeline.reach_inv [OF assms] by simp_all
  have S: "\<forall>r \<in> set (pl_spans s). span_fine s r" using I by (simp add: pipeline_inv_def)
  have "mset (rec_links r) = {#pushed_ctx s 0, pushed_ctx s 1, pushed_ctx s 2#}"
    if "r \<in> set (pl_spans s)" "rec_name r = ''demo.plan.gather_inputs''" for r
  proof -
    have l: "length (popped s) = 3" "rec_links r = map (pushed_ctx s) (popped s)" using S that by (auto simp: span_fine_def)
    have d: "distinct (popped s)" "set (popped s) \<subseteq> {..<3}" using I by (auto simp: pipeline_inv_def queue_fine_def)
    then have "set (popped s) = {..<3}" using l(1) by (metis card_lessThan card_subset_eq distinct_card finite_lessThan)
    also have "\<dots> = set [0, 1, 2]" by auto
    finally have "mset (popped s) = mset [0, 1, 2]" using d(1) by (subst set_eq_iff_mset_eq_distinct [symmetric]) simp_all
    then show ?thesis by (simp add: l(2))
  qed
  moreover have "current (prod_threads s i) = zero_context" if "i < 3" "producers s i \<in> {Unstarted, Started, Finished}" for i
  proof -
    have "producer_ok lvl (root s) (pushed_ctx s) i (current (prod_threads s i)) (producers s i)" using I that(1) by (simp add: pipeline_inv_def threads_fine_def)
    then show ?thesis using that(2) by auto
  qed
  ultimately show ?thesis using S E by (auto simp: span_fine_def events_fine_def)
qed

text \<open>Property C37. The pipeline runs to its end: a step either changes nothing (an empty poll, the join of a thread still running)
  or leaves less work; as long as the program is not done some thread can move on; and when it is done the queue is empty, every
  thread's context is restored and exactly the six spans of the program have been recorded (only the gathering span when the macros
  are compiled out).\<close>

theorem pipeline_completes:
  assumes "reach pipeline_init (pipeline_step lvl rd) s"
  shows "(\<forall>t. pipeline_step lvl rd s t \<longrightarrow> t = s \<or> work_left t < work_left s) \<and>
    (pl_at s \<noteq> PipelineDone \<longrightarrow> (\<exists>t. pipeline_step lvl rd s t \<and> work_left t < work_left s)) \<and>
    (pl_at s = PipelineDone \<longrightarrow> pl_queue s = [] \<and> current (pl_main s) = zero_context \<and> (\<forall>i < 3. current (prod_threads s i) = zero_context) \<and>
       mset (map rec_name (pl_spans s)) = (if lvl \<le> 5 then {#''demo.input.pose'', ''demo.input.map'', ''demo.input.goal'',
         ''demo.plan.gather_inputs'', ''demo.plan.search'', ''demo.plan.iteration''#} else {#''demo.plan.gather_inputs''#}))"
proof -
  have I: "pipeline_inv lvl s" using pipeline.reach_inv [OF assms] by simp
  have "t = s \<or> work_left t < work_left s" if "pipeline_step lvl rd s t" for t
    using that
  proof cases
    case (pipeline_main now1 now2)
    then show ?thesis using main_work [OF I, of "rd 3" now1 now2] by simp
  next
    case (pipeline_producer i now)
    then show ?thesis using producer_work [of i s lvl "rd i" now] producer_idle [of s i lvl "rd i" now] by auto
  qed
  moreover have "pl_queue s = [] \<and> current (pl_main s) = zero_context \<and> (\<forall>i < 3. current (prod_threads s i) = zero_context) \<and>
      mset (map rec_name (pl_spans s)) = ended_names lvl s" if d: "pl_at s = PipelineDone"
  proof -
    have F: "\<forall>i < 3. producers s i = Finished" "length (popped s) = 3" "current (pl_main s) = zero_context"
      and q: "distinct (popped s @ map kind (pl_queue s))" "set (popped s @ map kind (pl_queue s)) \<subseteq> {..<3}"
      using I d by (auto simp: pipeline_inv_def main_fine_def queue_fine_def)
    have "length (popped s @ map kind (pl_queue s)) \<le> 3" using card_mono [OF _ q(2)] distinct_card [OF q(1)] by simp
    then have "pl_queue s = []" using F(2) by simp
    moreover have "\<forall>i < 3. producer_ok lvl (root s) (pushed_ctx s) i (current (prod_threads s i)) (producers s i)"
      using I by (simp add: pipeline_inv_def threads_fine_def)
    ultimately show ?thesis using F I by (simp add: pipeline_inv_def)
  qed
  moreover have "ended_names lvl s = (if lvl \<le> 5 then {#''demo.input.pose'', ''demo.input.map'', ''demo.input.goal'',
         ''demo.plan.gather_inputs'', ''demo.plan.search'', ''demo.plan.iteration''#} else {#''demo.plan.gather_inputs''#})" if d: "pl_at s = PipelineDone"
  proof -
    have "\<forall>i < 3. producers s i = Finished" using I d by (simp add: pipeline_inv_def main_fine_def)
    then have "(\<Sum>i<3. if producers s i = Finished then {#input_name i#} else {#}) = {#input_name 0, input_name 1, input_name 2#}"
      by (simp add: numeral_3_eq_3 numeral_2_eq_2)
    then show ?thesis using d by (simp add: ended_names_def input_name_def)
  qed
  ultimately show ?thesis using can_move [OF I, of rd] by simp
qed

text \<open>A run with the envelopes arriving out of order.\<close>

definition pipeline_act :: "nat \<Rightarrow> Pipeline \<Rightarrow> Pipeline" where
  "pipeline_act k = (if k < 3 then ProduceInput_step 0 (1, 2) 7 k else pipeline_main_step 0 (1, 2) 5 6)"

definition pipeline_start :: Pipeline where
  "pipeline_start = \<lparr>pl_queue = [], producers = (\<lambda>_. Unstarted), prod_threads = (\<lambda>_. fresh_thread), pl_main = fresh_thread, pl_at = Minting,
     root = zero_context, plan_saved = zero_context, plan_span = None, gather = fst (Span_ctor (0, 0) ''none'' 0 fresh_thread), search_span = None,
     pl_spans = [], pl_events = [], pushed_ctx = (\<lambda>_. zero_context), popped = []\<rparr>"

definition pipeline_run :: Pipeline where
  "pipeline_run = fold pipeline_act [3, 3, 3, 3, 2, 2, 3, 3, 0, 1, 1, 3, 3, 0, 3, 3, 2, 3, 1, 0, 3, 3, 3, 3] pipeline_start"

lemma pipeline_acts_reach: "reach pipeline_init (pipeline_step 0 (\<lambda>_. (1, 2))) (fold pipeline_act ks pipeline_start)"
proof (induction ks rule: rev_induct)
  case Nil
  show ?case by (rule reach_init) (simp add: pipeline_init_def pipeline_start_def)
next
  case (snoc k ks)
  have "pipeline_step 0 (\<lambda>_. (1, 2)) s (pipeline_act k s)" for s
    using pipeline_main [of 0 "\<lambda>_. (1, 2)" s 5 6] pipeline_producer [of k 0 "\<lambda>_. (1, 2)" s 7] by (simp add: pipeline_act_def)
  with snoc show ?case by (auto intro: reach_step)
qed

lemmas pipeline_run_reach = pipeline_acts_reach [of "[3, 3, 3, 3, 2, 2, 3, 3, 0, 1, 1, 3, 3, 0, 3, 3, 2, 3, 1, 0, 3, 3, 3, 3]", folded pipeline_run_def]

theorem pipeline_one_trace_witness:
  "popped pipeline_run = [2, 1, 0] \<and> list_all (\<lambda>r. trace (rec_ctx r) = trace (root pipeline_run)) (pl_spans pipeline_run) \<and>
   list_all (\<lambda>r. mset (rec_links r) = {#pushed_ctx pipeline_run 0, pushed_ctx pipeline_run 1, pushed_ctx pipeline_run 2#})
     (filter (\<lambda>r. rec_name r = ''demo.plan.gather_inputs'') (pl_spans pipeline_run))"
proof -
  have "popped pipeline_run = [2, 1, 0]" by code_simp
  then show ?thesis using pipeline_one_trace [OF pipeline_run_reach] by (auto simp: list_all_iff)
qed

theorem pipeline_completes_witness:
  "pl_at pipeline_run = PipelineDone \<and> pl_queue pipeline_run = [] \<and>
   mset (map rec_name (pl_spans pipeline_run)) = {#''demo.input.pose'', ''demo.input.map'', ''demo.input.goal'',
     ''demo.plan.gather_inputs'', ''demo.plan.search'', ''demo.plan.iteration''#}"
proof -
  have "pl_at pipeline_run = PipelineDone" by code_simp
  then show ?thesis using pipeline_completes [OF pipeline_run_reach] by simp
qed

end
