(* ===== verification/Control_Loop.thy ===== *)
theory Control_Loop
  imports Mini_Main
begin

text \<open>
  \<open>examples/instrumented_control_loop_example.cpp\<close>: a controller whose hot loop uses every verb of the telemetry front end.
  The rounding operations on doubles, the representation of a double and the conversion of a duration are arguments; the literals
  are the doubles nearest to the source's decimals. \<open>clk i k\<close> is the \<open>k\<close>-th clock reading of cycle \<open>i\<close>.
\<close>

section \<open>The controller\<close>

record fp =
  f_add :: fadder
  f_sub :: "double \<Rightarrow> double \<Rightarrow> double"
  f_mul :: "double \<Rightarrow> double \<Rightarrow> double"
  f_bits :: "double \<Rightarrow> u64"
  f_raw :: "double \<Rightarrow> u8 list"
  f_us :: "int \<Rightarrow> double"

fun dabs :: "double \<Rightarrow> double" where
  "dabs NaN = NaN"
| "dabs (Inf n) = Inf False"
| "dabs (Fin q) = Fin \<bar>q\<bar>"

record Controller =
  ctrl_src :: EventSource
  jitter_us :: nat
  deadline_miss :: nat
  temp_c :: nat
  state_ch :: nat
  plant :: double
  command :: double
  health :: HealthState

definition Controller_ctor :: "bool \<Rightarrow> string \<Rightarrow> 'w Proc \<Rightarrow> Controller \<times> 'w Proc" where
  "Controller_ctor l tyname p =
     (let (s, p1) = GetEventSource l ''demo.motor'' p;
          (h, p2) = GetHistogram l ''demo.ctrl.jitter_us'' p1;
          (m, p3) = GetCounter l ''demo.ctrl.deadline_miss'' p2;
          (g, p4) = GetGauge l ''demo.motor.temp_c'' p3;
          (ch, p5) = GetChannel l ''demo.ctrl.state'' 24 8 tyname p4
      in (\<lparr>ctrl_src = s, jitter_us = h, deadline_miss = m, temp_c = g, state_ch = ch, plant = Fin 0, command = Fin 0, health = kOk\<rparr>, p5))"

text \<open>The new plant state, and the command before it is clamped.\<close>

definition control_law :: "fp \<Rightarrow> double \<Rightarrow> Controller \<Rightarrow> double \<times> double" where
  "control_law F setpoint c =
     (let measured = f_add F (plant c) (f_mul F (Fin (3602879701896397 / 18014398509481984)) (f_sub F (command c) (plant c)))
      in (measured, f_mul F (Fin 2) (f_sub F setpoint measured)))"

definition Step_body :: "fp \<Rightarrow> nat \<Rightarrow> bool \<Rightarrow> (nat \<Rightarrow> int) \<Rightarrow> double \<Rightarrow> int \<Rightarrow> Controller \<Rightarrow> 'w Proc \<Rightarrow> (Controller \<times> 'w Proc) option" where
  "Step_body F lvl l clk setpoint deadline c p =
     (let (measured, raw) = control_law F setpoint c;
          (cmd, p1) = (if dless (Fin 1) raw
             then (Fin 1, XM_LOG_SRC lvl l (clk 1) (ctrl_src c) kWarn ''saturated: cmd clamped to {} (sp={:.2f})''
                            [ADouble (f_bits F (Fin 1)), ADouble (f_bits F setpoint)] p)
             else (raw, p));
          p2 = Publish l (state_ch c) (f_raw F setpoint @ f_raw F measured @ f_raw F cmd) (clk 2) p1;
          p3 = Gauge_Set (temp_c c) (f_add F (Fin 35) (f_mul F (Fin (5764607523034235 / 576460752303423488)) (dabs cmd))) p2;
          now = clk 3;
          p4 = (if deadline < now then Counter_Add (f_add F) (deadline_miss c) (Fin 1) p3 else p3)
      in map_option (Pair (c\<lparr>plant := measured, command := cmd\<rparr>))
           (Histogram_Record (f_add F) (jitter_us c) (dabs (f_us F (now - deadline))) p4))"

definition Step :: "fp \<Rightarrow> nat \<Rightarrow> bool \<Rightarrow> u32 \<times> u32 \<Rightarrow> (nat \<Rightarrow> int) \<Rightarrow> double \<Rightarrow> int \<Rightarrow> Controller \<Rightarrow> 'w Proc \<Rightarrow> (Controller \<times> 'w Proc) option" where
  "Step F lvl l rd clk setpoint deadline c p =
     (if lvl \<le> 5 then
        let (sp, p1) = open_span rd ''demo.ctrl.cycle'' (clk 0) None p
        in map_option (\<lambda>(c2, p2). (c2, close_span l (clk 4) sp p2)) (Step_body F lvl l clk setpoint deadline c p1)
      else Step_body F lvl l clk setpoint deadline c p)"

definition Controller_Supervise :: "bool \<Rightarrow> int \<Rightarrow> bool \<Rightarrow> Controller \<Rightarrow> 'w Proc \<Rightarrow> Controller \<times> 'w Proc" where
  "Controller_Supervise l t fresh c p =
     (let next = (if fresh then kOk else kDegraded) in
      if next \<noteq> health c
      then (c\<lparr>health := next\<rparr>, ReportHealth l t (Some ''demo.motor'') next (Some (if fresh then ''recovered'' else ''sensor stale'')) p)
      else (c, p))"

section \<open>The program\<close>

definition period :: int where
  "period = 10000000"

fun control_cycles :: "fp \<Rightarrow> nat \<Rightarrow> bool \<Rightarrow> u32 \<times> u32 \<Rightarrow> (nat \<Rightarrow> double) \<Rightarrow> (nat \<Rightarrow> nat \<Rightarrow> int) \<Rightarrow> nat list \<Rightarrow> int \<Rightarrow> Controller \<Rightarrow> 'w Proc \<Rightarrow>
    (Controller \<times> 'w Proc) option" where
  "control_cycles F lvl l rd setpoint clk [] next c p = Some (c, p)"
| "control_cycles F lvl l rd setpoint clk (i # is) next c p =
     (case Step F lvl l rd (clk i) (setpoint i) next c p of
        None \<Rightarrow> None
      | Some (c1, p1) \<Rightarrow>
          let (c2, p2) = (if i = 60 then Controller_Supervise l (clk i 5) False c1 p1 else (c1, p1));
              (c3, p3) = (if i = 90 then Controller_Supervise l (clk i 6) True c2 p2 else (c2, p2))
          in control_cycles F lvl l rd setpoint clk is (next + period) c3 p3)"

definition control_main :: "fp \<Rightarrow> nat \<Rightarrow> bool \<Rightarrow> u32 \<times> u32 \<Rightarrow> string \<Rightarrow> (nat \<Rightarrow> double) \<Rightarrow> (nat \<Rightarrow> nat \<Rightarrow> int) \<Rightarrow> int \<Rightarrow> int \<Rightarrow> int \<Rightarrow> 'w Proc \<Rightarrow>
    (int \<times> 'w Proc) option" where
  "control_main F lvl l rd tyname setpoint clk t0 start t1 p0 =
     (let p1 = SetResource l ''robot.id'' ''demo-bot'' p0;
          p2 = XM_LOG lvl l t0 kInfo ''instrumented control loop demo: 200 cycles at 100 Hz'' [] p1;
          (c, p3) = Controller_ctor l tyname p2
      in case control_cycles F lvl l rd setpoint clk [0..<200] (start + period) c p3 of
           None \<Rightarrow> None
         | Some (_, p4) \<Rightarrow>
             Some (0, XM_LOG lvl l t1 kInfo (''done '' @ [CHR 0xE2, CHR 0x80, CHR 0x94] @ '' with the xmTelemetry SDK bound, the same run would have recorded 200 spans + 200 signal samples and exported the metrics'') [] p4))"

section \<open>What a bound backend sees\<close>

text \<open>The lines that report samples.\<close>

definition signal_lines :: "Mini World \<Rightarrow> string list" where
  "signal_lines w = filter (\<lambda>s. take 13 s = ''[mini] signal'') (printed (sdk w))"

lemmas line_kinds = span_lines_def is_span_line_def signal_lines_def health_lines_def

text \<open>What one call of the loop may do to the backend: it leaves the binding, the context and the registered names, and adds
  spans, samples and health lines.\<close>

definition adds :: "nat \<Rightarrow> nat \<Rightarrow> string list \<Rightarrow> Mini Proc \<Rightarrow> Mini Proc \<Rightarrow> bool" where
  "adds sp sg hs p q \<longleftrightarrow> g_binding q = g_binding p \<and> current (World.thread (world q)) = current (World.thread (world p)) \<and>
     counter_names (sdk (world q)) = counter_names (sdk (world p)) \<and>
     length (span_lines (world q)) = length (span_lines (world p)) + sp \<and>
     length (signal_lines (world q)) = length (signal_lines (world p)) + sg \<and> health_lines (world q) = health_lines (world p) @ hs"

lemma adds_refl [simp]: "adds 0 0 [] p p"
  by (simp add: adds_def)

lemma adds_trans: "adds a b hs p q \<Longrightarrow> adds a' b' hs' q r \<Longrightarrow> adds (a + a') (b + b') (hs @ hs') p r"
  by (simp add: adds_def)

definition same_handles :: "Controller \<Rightarrow> Controller \<Rightarrow> bool" where
  "same_handles c d \<longleftrightarrow> deadline_miss d = deadline_miss c \<and> jitter_us d = jitter_us c \<and> health d = health c"

lemma finite_bucket: "\<bar>q\<bar> < 2 ^ 1024 \<Longrightarrow> \<exists>b. HistogramBucketOf (Fin \<bar>q\<bar>) = Some b"
  using ilog2_range [of "\<bar>q\<bar>"] by (auto simp: HistogramBucketOf_def dle_def int_max_def Let_def)

text \<open>The body of a cycle: one sample, no span, no report; the counter goes up when the deadline was missed, and the histogram
  counts the cycle.\<close>

lemma Step_body_mini:
  assumes b: "g_binding p = Some (MiniBackend_Make ms)" and us: "f_us F (clk 3 - deadline) = Fin q" "\<bar>q\<bar> < 2 ^ 1024"
  obtains c' p' where "Step_body F lvl l clk sp deadline c p = Some (c', p')" "adds 0 1 [] p p'" "World.thread (world p') = World.thread (world p)"
    "cvalue (counters (world p') (deadline_miss c)) =
       (if deadline < clk 3 then f_add F (cvalue (counters (world p) (deadline_miss c))) (Fin 1) else cvalue (counters (world p) (deadline_miss c)))"
    "hcount (histograms (world p') (jitter_us c)) = hcount (histograms (world p) (jitter_us c)) + 1"
    "same_handles c c'" "\<not> dless (Fin 1) (command c')"
proof -
  obtain measured raw where law: "control_law F sp c = (measured, raw)" by fastforce
  obtain cmd p1 where cl: "(if dless (Fin 1) raw
       then (Fin 1, XM_LOG_SRC lvl l (clk 1) (ctrl_src c) kWarn ''saturated: cmd clamped to {} (sp={:.2f})''
          [ADouble (f_bits F (Fin 1)), ADouble (f_bits F sp)] p)
       else (raw, p)) = (cmd, p1)" by fastforce
  have cmd: "\<not> dless (Fin 1) cmd" using cl by (auto split: if_splits)
  have p1: "adds 0 0 [] p p1" "World.thread (world p1) = World.thread (world p)" "counters (world p1) = counters (world p)" "histograms (world p1) = histograms (world p)"
    using cl b by (auto simp: XM_LOG_SRC_def mini_calls adds_def line_kinds print_line_def split: if_splits)
  obtain bk where bk: "HistogramBucketOf (dabs (f_us F (clk 3 - deadline))) = Some bk" using finite_bucket [OF us(2)] us(1) by auto
  have b1: "g_binding p1 = Some (MiniBackend_Make ms)" using p1(1) b by (simp add: adds_def)
  define p2 where "p2 = Publish l (state_ch c) (f_raw F sp @ f_raw F measured @ f_raw F cmd) (clk 2) p1"
  define p3 where "p3 = Gauge_Set (temp_c c) (f_add F (Fin 35) (f_mul F (Fin (5764607523034235 / 576460752303423488)) (dabs cmd))) p2"
  define p4 where "p4 = (if deadline < clk 3 then Counter_Add (f_add F) (deadline_miss c) (Fin 1) p3 else p3)"
  obtain h where h: "HistogramSlot_Record (f_add F) (dabs (f_us F (clk 3 - deadline))) (histograms (world p4) (jitter_us c)) = Some h"
    "hcount h = hcount (histograms (world p4) (jitter_us c)) + 1" using bk by (simp add: HistogramSlot_Record_def)
  define p5 where "p5 = on_world (\<lambda>w. w\<lparr>histograms := (histograms w)(jitter_us c := h)\<rparr>) p4"
  have p2: "adds 0 1 [] p1 p2" "World.thread (world p2) = World.thread (world p1)" "counters (world p2) = counters (world p1)" "histograms (world p2) = histograms (world p1)"
    using b1 by (simp_all add: p2_def mini_calls adds_def line_kinds print_line_def)
  have p5: "adds 0 0 [] p2 p5" by (simp add: p5_def p4_def p3_def Gauge_Set_def Counter_Add_def adds_def line_kinds)
  show thesis
  proof (rule that [of "c\<lparr>plant := measured, command := cmd\<rparr>" p5])
    show "Step_body F lvl l clk sp deadline c p = Some (c\<lparr>plant := measured, command := cmd\<rparr>, p5)"
      unfolding Step_body_def law Let_def prod.case cl unfolding p2_def [symmetric] unfolding p3_def [symmetric] unfolding p4_def [symmetric]
      by (simp add: Histogram_Record_def h(1) p5_def)
    show "adds 0 1 [] p p5" using adds_trans [OF adds_trans [OF p1(1) p2(1)] p5] by simp
    show "World.thread (world p5) = World.thread (world p)"
      using p1 p2 by (simp add: p5_def p4_def p3_def Gauge_Set_def Counter_Add_def)
    show "cvalue (counters (world p5) (deadline_miss c)) =
       (if deadline < clk 3 then f_add F (cvalue (counters (world p) (deadline_miss c))) (Fin 1) else cvalue (counters (world p) (deadline_miss c)))"
      using p1 p2 by (simp add: p5_def p4_def p3_def Gauge_Set_def Counter_Add_def CounterSlot_Add_def)
    show "hcount (histograms (world p5) (jitter_us c)) = hcount (histograms (world p) (jitter_us c)) + 1"
      using p1 p2 h(2) by (simp add: p5_def p4_def p3_def Gauge_Set_def Counter_Add_def)
  qed (use cmd in \<open>simp_all add: same_handles_def\<close>)
qed

text \<open>A cycle: one sample and, unless compiled out, one span.\<close>

lemma open_span_thread:
  "open_span rd n t None p = (sp, p') \<Longrightarrow> \<exists>th. p' = on_world (\<lambda>w. w\<lparr>World.thread := th\<rparr>) p \<and> sp_saved sp = current (World.thread (world p))"
  by (auto simp: open_span_def on_thread_def Span_ctor_def split_beta Let_def)

lemma Step_mini:
  assumes b: "g_binding p = Some (MiniBackend_Make ms)" and us: "f_us F (clk 3 - deadline) = Fin q" "\<bar>q\<bar> < 2 ^ 1024"
  obtains c' p' where "Step F lvl l rd clk sp deadline c p = Some (c', p')" "adds (of_bool (lvl \<le> 5)) 1 [] p p'"
    "cvalue (counters (world p') (deadline_miss c)) =
       (if deadline < clk 3 then f_add F (cvalue (counters (world p) (deadline_miss c))) (Fin 1) else cvalue (counters (world p) (deadline_miss c)))"
    "hcount (histograms (world p') (jitter_us c)) = hcount (histograms (world p) (jitter_us c)) + 1"
    "same_handles c c'" "\<not> dless (Fin 1) (command c')"
proof (cases "lvl \<le> 5")
  case False
  show thesis
    by (rule Step_body_mini [where p = p and F = F and clk = clk and deadline = deadline and lvl = lvl and l = l and c = c and sp = sp, OF b us],
        rule that) (simp_all add: Step_def False)
next
  case True
  obtain s p1 where o: "open_span rd ''demo.ctrl.cycle'' (clk 0) None p = (s, p1)" by fastforce
  obtain th where p1: "p1 = on_world (\<lambda>w. w\<lparr>World.thread := th\<rparr>) p" and sv: "sp_saved s = current (World.thread (world p))"
    using open_span_thread [OF o] by blast
  have b1: "g_binding p1 = Some (MiniBackend_Make ms)" using b by (simp add: p1)
  obtain c' p2 where s: "Step_body F lvl l clk sp deadline c p1 = Some (c', p2)" "adds 0 1 [] p1 p2"
    "cvalue (counters (world p2) (deadline_miss c)) =
       (if deadline < clk 3 then f_add F (cvalue (counters (world p1) (deadline_miss c))) (Fin 1) else cvalue (counters (world p1) (deadline_miss c)))"
    "hcount (histograms (world p2) (jitter_us c)) = hcount (histograms (world p1) (jitter_us c)) + 1"
    "same_handles c c'" "\<not> dless (Fin 1) (command c')"
    by (rule Step_body_mini [where p = p1 and F = F and clk = clk and deadline = deadline and lvl = lvl and l = l and c = c and sp = sp, OF b1 us]) blast
  have b2: "g_binding p2 = Some (MiniBackend_Make ms)" using s(2) b1 by (simp add: adds_def)
  show thesis
  proof (rule that [of c' "close_span l (clk 4) s p2"])
    show "adds (of_bool (lvl \<le> 5)) 1 [] p (close_span l (clk 4) s p2)"
      using True s(2) sv by (simp add: mini_calls(8) [OF b2] adds_def line_kinds span_line_def p1 SetCurrentContext_def)
  qed (use True o s in \<open>simp_all add: Step_def mini_calls(8) [OF b2] print_line_def p1\<close>)
qed

section \<open>The run\<close>

text \<open>The deadlines missed, and the health transitions the supervision should report.\<close>

fun misses :: "(nat \<Rightarrow> nat \<Rightarrow> int) \<Rightarrow> int \<Rightarrow> nat list \<Rightarrow> nat" where
  "misses clk next [] = 0"
| "misses clk next (i # is) = of_bool (next < clk i 3) + misses clk (next + period) is"

definition supervised :: "nat \<Rightarrow> HealthState \<Rightarrow> HealthState \<times> HealthState list" where
  "supervised i h = (let h1 = (if i = 60 then kDegraded else h); h2 = (if i = 90 then kOk else h1)
     in (h2, (if h1 = h then [] else [h1]) @ (if h2 = h1 then [] else [h2])))"

fun reports :: "HealthState \<Rightarrow> nat list \<Rightarrow> HealthState list" where
  "reports h [] = []"
| "reports h (i # is) = snd (supervised i h) @ reports (fst (supervised i h)) is"

definition motor_line :: "HealthState \<Rightarrow> string" where
  "motor_line st = ''[mini] health demo.motor -> '' @ digits 10 False (health_code st) @ '' ('' @
     (if st = kOk then ''recovered'' else ''sensor stale'') @ '')'' @ [newline]"

lemma motor_texts: "cstr ''demo.motor'' = ''demo.motor''" "cstr ''recovered'' = ''recovered''" "cstr ''sensor stale'' = ''sensor stale''"
  by code_simp+

lemma Supervise_mini:
  assumes b: "g_binding p = Some (MiniBackend_Make ms)" and s: "Controller_Supervise l t fresh c p = (c', p')"
  defines "st \<equiv> if fresh then kOk else kDegraded"
  shows "adds 0 0 (if st = health c then [] else [motor_line st]) p p'" "c' = c\<lparr>health := st\<rparr>"
    "counters (world p') = counters (world p)" "histograms (world p') = histograms (world p)"
  using s by (auto simp: Controller_Supervise_def st_def mini_calls(3) [OF b] adds_def line_kinds motor_line_def c_str_def motor_texts print_line_def
      split: if_splits)

lemma supervision_mini:
  assumes b: "g_binding p1 = Some (MiniBackend_Make ms)"
    and s: "(if i = 60 then Controller_Supervise l t False c1 p1 else (c1, p1)) = (c2, p2)"
      "(if i = 90 then Controller_Supervise l t' True c2 p2 else (c2, p2)) = (c3, p3)"
  shows "adds 0 0 (map motor_line (snd (supervised i (health c1)))) p1 p3" "c3 = c1\<lparr>health := fst (supervised i (health c1))\<rparr>"
    "counters (world p3) = counters (world p1)" "histograms (world p3) = histograms (world p1)"
proof -
  have "adds 0 0 (map motor_line (snd (supervised i (health c1)))) p1 p3 \<and> c3 = c1\<lparr>health := fst (supervised i (health c1))\<rparr> \<and>
      counters (world p3) = counters (world p1) \<and> histograms (world p3) = histograms (world p1)"
  proof -
    consider (stale) "i = 60" | (fresh) "i = 90" | (other) "i \<noteq> 60" "i \<noteq> 90" by blast
    then show ?thesis
    proof cases
      case stale
      then have e: "Controller_Supervise l t False c1 p1 = (c3, p3)" using s by simp
      show ?thesis using Supervise_mini [OF b e] stale by (auto simp: supervised_def)
    next
      case fresh
      then have e: "Controller_Supervise l t' True c1 p1 = (c3, p3)" using s by simp
      show ?thesis using Supervise_mini [OF b e] fresh by (auto simp: supervised_def)
    next
      case other
      then show ?thesis using s by (simp add: supervised_def)
    qed
  qed
  then show "adds 0 0 (map motor_line (snd (supervised i (health c1)))) p1 p3" "c3 = c1\<lparr>health := fst (supervised i (health c1))\<rparr>"
    "counters (world p3) = counters (world p1)" "histograms (world p3) = histograms (world p1)" by simp_all
qed

lemma funpow_of_bool: "(f ^^ n) (if b then f x else x) = (f ^^ (of_bool b + n)) x"
  by (simp add: funpow_swap1)

lemma control_cycles_mini:
  assumes b: "g_binding p = Some (MiniBackend_Make ms)" and us: "\<And>n. \<exists>q. f_us F n = Fin q \<and> \<bar>q\<bar> < 2 ^ 1024"
  shows "\<exists>c' p'. control_cycles F lvl l rd sp clk is next c p = Some (c', p') \<and>
    adds (if lvl \<le> 5 then length is else 0) (length is) (map motor_line (reports (health c) is)) p p' \<and>
    cvalue (counters (world p') (deadline_miss c)) = ((\<lambda>x. f_add F x (Fin 1)) ^^ misses clk next is) (cvalue (counters (world p) (deadline_miss c))) \<and>
    hcount (histograms (world p') (jitter_us c)) = hcount (histograms (world p) (jitter_us c)) + of_nat (length is) \<and>
    (is \<noteq> [] \<longrightarrow> \<not> dless (Fin 1) (command c'))"
  using b
proof (induction "is" arbitrary: c p "next")
  case (Cons i "is")
  obtain q where q: "f_us F (clk i 3 - next) = Fin q" "\<bar>q\<bar> < 2 ^ 1024" using us by blast
  obtain c1 p1 where s: "Step F lvl l rd (clk i) (sp i) next c p = Some (c1, p1)" "adds (of_bool (lvl \<le> 5)) 1 [] p p1"
    "cvalue (counters (world p1) (deadline_miss c)) =
       (if next < clk i 3 then f_add F (cvalue (counters (world p) (deadline_miss c))) (Fin 1) else cvalue (counters (world p) (deadline_miss c)))"
    "hcount (histograms (world p1) (jitter_us c)) = hcount (histograms (world p) (jitter_us c)) + 1"
    "same_handles c c1" "\<not> dless (Fin 1) (command c1)"
    by (rule Step_mini [where F = F and clk = "clk i" and deadline = "next" and lvl = lvl and l = l and rd = rd and sp = "sp i" and c = c, OF Cons.prems q]) blast
  obtain c2 p2 where v2: "(if i = 60 then Controller_Supervise l (clk i 5) False c1 p1 else (c1, p1)) = (c2, p2)" by fastforce
  obtain c3 p3 where v3: "(if i = 90 then Controller_Supervise l (clk i 6) True c2 p2 else (c2, p2)) = (c3, p3)" by fastforce
  have b1: "g_binding p1 = Some (MiniBackend_Make ms)" using s(2) Cons.prems by (simp add: adds_def)
  note v = supervision_mini [OF b1 v2 v3]
  have b3: "g_binding p3 = Some (MiniBackend_Make ms)" using v(1) b1 by (simp add: adds_def)
  have slots: "deadline_miss c3 = deadline_miss c" "jitter_us c3 = jitter_us c" "health c3 = fst (supervised i (health c))" "command c3 = command c1" "health c1 = health c"
    using v(2) s(5) by (simp_all add: same_handles_def)
  obtain c' p' where r: "control_cycles F lvl l rd sp clk is (next + period) c3 p3 = Some (c', p')"
    "adds (if lvl \<le> 5 then length is else 0) (length is) (map motor_line (reports (health c3) is)) p3 p'"
    "cvalue (counters (world p') (deadline_miss c)) = ((\<lambda>x. f_add F x (Fin 1)) ^^ misses clk (next + period) is) (cvalue (counters (world p3) (deadline_miss c)))"
    "hcount (histograms (world p') (jitter_us c)) = hcount (histograms (world p3) (jitter_us c)) + of_nat (length is)"
    "is \<noteq> [] \<longrightarrow> \<not> dless (Fin 1) (command c')" using Cons.IH [OF b3, of "next + period" c3] slots by auto
  have "control_cycles F lvl l rd sp clk (i # is) next c p = Some (c', p')" using s(1) r(1) v2 v3 by (simp del: upt.simps)
  moreover have "adds (if lvl \<le> 5 then length (i # is) else 0) (length (i # is)) (map motor_line (reports (health c) (i # is))) p p'"
    using adds_trans [OF adds_trans [OF s(2) v(1)] r(2)] by (cases "lvl \<le> 5") (simp_all add: slots)
  moreover have "cvalue (counters (world p') (deadline_miss c)) =
      ((\<lambda>x. f_add F x (Fin 1)) ^^ misses clk next (i # is)) (cvalue (counters (world p) (deadline_miss c)))"
    unfolding r(3) v(3) s(3) misses.simps by (rule funpow_of_bool)
  moreover have "hcount (histograms (world p') (jitter_us c)) = hcount (histograms (world p) (jitter_us c)) + of_nat (length (i # is))"
    using r(4) v(4) s(4) by simp
  moreover have "\<not> dless (Fin 1) (command c')" using r(1,5) s(6) slots(4) by (cases "is") simp_all
  ultimately show ?case by blast
qed simp

lemma Controller_ctor_mini:
  assumes b: "g_binding p = Some (MiniBackend_Make ms)" and n: "counter_names (sdk (world p)) = []"
    and c: "Controller_ctor l tyname p = (c, p')"
  shows "g_binding p' = Some (MiniBackend_Make ms)" "World.thread (world p') = World.thread (world p)"
    "span_lines (world p') = span_lines (world p)" "signal_lines (world p') = signal_lines (world p)" "health_lines (world p') = health_lines (world p)"
    "cvalue (counters (world p') (deadline_miss c)) = Fin 0" "jitter_us c = mini_slot" "deadline_miss c = mini_slot" "health c = kOk"
    "histograms (world p') = histograms (world p)"
proof -
  define p1 where "p1 = on_world (\<lambda>w. snd (mini_counter ''demo.ctrl.deadline_miss'' w)) p"
  define p2 where "p2 = on_world (\<lambda>w. snd (mini_gauge ''demo.motor.temp_c'' w)) p1"
  have b2: "g_binding p1 = Some (MiniBackend_Make ms)" "g_binding p2 = Some (MiniBackend_Make ms)" using b by (simp_all add: p1_def p2_def)
  have "GetEventSource l ''demo.motor'' p = (\<lparr>source_id = 1, source_name = ''demo.motor''\<rparr>, p)"
    "GetHistogram l ''demo.ctrl.jitter_us'' p = (mini_slot, p)"
    using b by (simp_all add: GetEventSource_def GetHistogram_def with_binding_def MiniBackend_Make_def)
  moreover have "GetCounter l ''demo.ctrl.deadline_miss'' p = (mini_slot, p1)" using n by (simp add: mini_calls(4) [OF b] p1_def Slot_def)
  moreover have "GetGauge l ''demo.motor.temp_c'' p1 = (fst (mini_gauge ''demo.motor.temp_c'' (world p1)), p2)"
    using b2(1) by (simp add: GetGauge_def with_binding_def MiniBackend_Make_def p2_def on_world_def split_beta)
  ultimately have e: "c = \<lparr>ctrl_src = \<lparr>source_id = 1, source_name = ''demo.motor''\<rparr>, jitter_us = mini_slot, deadline_miss = mini_slot,
      temp_c = fst (mini_gauge ''demo.motor.temp_c'' (world p1)), state_ch = mini_slot, plant = Fin 0, command = Fin 0, health = kOk\<rparr>"
    "p' = on_world (print_line (''[mini] channel registered: '' @ cstr ''demo.ctrl.state'' @ '' ('' @ digits 10 False 24 @ '' B/sample)'' @ [newline])) p2"
    using c by (simp_all add: Controller_ctor_def mini_calls(5) [OF b2(2)])
  have h: "histograms (snd (mini_counter m w)) = histograms w" "histograms (snd (mini_gauge m w)) = histograms w"
    "histograms (print_line x w) = histograms w" for m w x
    by (simp_all add: mini_counter_def mini_gauge_def print_line_def Let_def split_beta)
  have "counters (world p1) mini_slot = CounterSlot_init" using n by (simp add: p1_def mini_counter_def Slot_def)
  then show "cvalue (counters (world p') (deadline_miss c)) = Fin 0" by (simp add: e p2_def CounterSlot_init_def)
  show "histograms (world p') = histograms (world p)" by (simp add: e p2_def p1_def h)
  show "g_binding p' = Some (MiniBackend_Make ms)" "World.thread (world p') = World.thread (world p)"
    "jitter_us c = mini_slot" "deadline_miss c = mini_slot" "health c = kOk" using b by (simp_all add: e p2_def p1_def)
  show "span_lines (world p') = span_lines (world p)" "signal_lines (world p') = signal_lines (world p)" "health_lines (world p') = health_lines (world p)"
    by (simp_all add: e p2_def p1_def line_kinds)
qed

section \<open>Properties\<close>

text \<open>
  Property C39. The claim the example prints at its end, for the example backend: bound before \<open>main\<close>, the run returns 0 and
  records 200 spans (none when the macros are compiled out) and 200 samples, reports health exactly twice (degraded,
  then recovered), leaves in the counter one addition of 1 for every cycle whose clock reading was past its deadline and in the
  histogram 200 more observations, and leaves the thread's context as it was.
\<close>

theorem control_loop_records:
  assumes "g_binding p = Some (MiniBackend_Make ms)" "counter_names (sdk (world p)) = []"
    and "\<forall>n. \<exists>q. f_us F n = Fin q \<and> \<bar>q\<bar> < 2 ^ 1024"
  shows "\<exists>p'. control_main F lvl l rd tyname setpoint clk t0 start t1 p = Some (0, p') \<and>
    length (span_lines (world p')) = length (span_lines (world p)) + (if lvl \<le> 5 then 200 else 0) \<and>
    length (signal_lines (world p')) = length (signal_lines (world p)) + 200 \<and>
    health_lines (world p') = health_lines (world p) @ [motor_line kDegraded, motor_line kOk] \<and>
    cvalue (counters (world p') mini_slot) = ((\<lambda>x. f_add F x (Fin 1)) ^^ misses clk (start + period) [0..<200]) (Fin 0) \<and>
    hcount (histograms (world p') mini_slot) = hcount (histograms (world p) mini_slot) + 200 \<and>
    current (World.thread (world p')) = current (World.thread (world p))"
proof -
  define p2 where "p2 = XM_LOG lvl l t0 kInfo ''instrumented control loop demo: 200 cycles at 100 Hz'' [] (SetResource l ''robot.id'' ''demo-bot'' p)"
  have p2: "adds 0 0 [] p p2" "histograms (world p2) = histograms (world p)"
    using assms(1) by (auto simp: p2_def XM_LOG_def mini_calls [of _ ms] adds_def line_kinds print_line_def)
  obtain c p3 where c: "Controller_ctor l tyname p2 = (c, p3)" by fastforce
  have b2: "g_binding p2 = Some (MiniBackend_Make ms)" "counter_names (sdk (world p2)) = []" using p2(1) assms(1,2) by (simp_all add: adds_def)
  note i = Controller_ctor_mini [OF b2 c]
  have us: "\<And>n. \<exists>q. f_us F n = Fin q \<and> \<bar>q\<bar> < 2 ^ 1024" using assms(3) by blast
  obtain c' p4 where r: "control_cycles F lvl l rd setpoint clk [0..<200] (start + period) c p3 = Some (c', p4)"
    "adds (if lvl \<le> 5 then length [0..<200] else 0) (length [0..<200]) (map motor_line (reports (health c) [0..<200])) p3 p4"
    "cvalue (counters (world p4) (deadline_miss c)) =
      ((\<lambda>x. f_add F x (Fin 1)) ^^ misses clk (start + period) [0..<200]) (cvalue (counters (world p3) (deadline_miss c)))"
    "hcount (histograms (world p4) (jitter_us c)) = hcount (histograms (world p3) (jitter_us c)) + of_nat (length [0..<200])"
    using control_cycles_mini [OF i(1) us, of lvl l rd setpoint clk "[0..<200]" "start + period" c] by blast
  define p5 where "p5 = XM_LOG lvl l t1 kInfo (''done '' @ [CHR 0xE2, CHR 0x80, CHR 0x94] @
    '' with the xmTelemetry SDK bound, the same run would have recorded 200 spans + 200 signal samples and exported the metrics'') [] p4"
  have "g_binding p4 = Some (MiniBackend_Make ms)" using r(2) i(1) by (simp add: adds_def)
  then have p5: "adds 0 0 [] p4 p5" "histograms (world p5) = histograms (world p4)" "counters (world p5) = counters (world p4)"
    by (auto simp: p5_def XM_LOG_def mini_calls [of _ ms] adds_def line_kinds print_line_def)
  have m: "control_main F lvl l rd tyname setpoint clk t0 start t1 p = Some (0, p5)"
    by (simp only: control_main_def Let_def p2_def [symmetric] c prod.case r(1) option.case p5_def)
  have rep: "reports kOk [0..<200] = [kDegraded, kOk]" by code_simp
  show ?thesis
  proof (intro exI conjI)
    show "control_main F lvl l rd tyname setpoint clk t0 start t1 p = Some (0, p5)" by (rule m)
  qed (use r p2 p5 i rep in \<open>simp_all add: adds_def del: upt.simps reports.simps\<close>)
qed

definition exact_fp :: fp where
  "exact_fp = \<lparr>f_add = exact_add, f_sub = (\<lambda>x y. case (x, y) of (Fin a, Fin b) \<Rightarrow> Fin (a - b) | _ \<Rightarrow> NaN),
     f_mul = (\<lambda>x y. case (x, y) of (Fin a, Fin b) \<Rightarrow> Fin (a * b) | _ \<Rightarrow> NaN), f_bits = (\<lambda>_. 0), f_raw = (\<lambda>_. replicate 8 0),
     f_us = (\<lambda>n. Fin (of_int (n mod 2 ^ 64)))\<rparr>"

theorem control_loop_records_witness:
  "\<exists>p'. control_main exact_fp 0 True (1, 2) ''ControlState'' (\<lambda>_. Fin 1) (\<lambda>i k. 0) 0 0 0 mini_process = Some (0, p') \<and>
     length (signal_lines (world p')) = 200 \<and> length (span_lines (world p')) = 200 \<and>
     health_lines (world p') = [motor_line kDegraded, motor_line kOk]"
proof -
  have b: "g_binding mini_process = Some (MiniBackend_Make (\<lambda>ns. digits 10 False (nat ns)))" "counter_names (sdk (world mini_process)) = []"
    and z: "signal_lines (world mini_process) = []" "span_lines (world mini_process) = []" "health_lines (world mini_process) = []"
    by (simp_all add: mini_process_def line_kinds)
  have f: "\<forall>n. \<exists>q. f_us exact_fp n = Fin q \<and> \<bar>q\<bar> < 2 ^ 1024"
  proof
    fix n :: int
    have "n mod 2 ^ 64 < 2 ^ 64" "0 \<le> n mod 2 ^ 64" by simp_all
    then have "\<bar>of_int (n mod 2 ^ 64)\<bar> < (2 :: rat) ^ 1024" by simp
    then show "\<exists>q. f_us exact_fp n = Fin q \<and> \<bar>q\<bar> < 2 ^ 1024" by (simp add: exact_fp_def)
  qed
  from control_loop_records [OF b f, of 0 True "(1, 2)" "''ControlState''" "\<lambda>_. Fin 1" "\<lambda>i k. 0" 0 0 0] z show ?thesis by auto
qed

end
