(* ===== verification/Logging_Demo.thy ===== *)
theory Logging_Demo
  imports Telemetry
begin

text \<open>
  \<open>examples/xm_logging_example.cpp\<close> on the console: the logging macros, the level at run time and four threads that log
  concurrently. A line is one write (the console never splits an event), so an interleaving of the threads is an order of their
  calls; \<open>clk\<close> gives the clock readings.
\<close>

section \<open>The program\<close>

text \<open>The bits of the double \<open>4.75\<close>.\<close>

definition amps :: u64 where
  "amps = 0x4013000000000000"

definition announce :: "nat \<Rightarrow> bool \<Rightarrow> (nat \<Rightarrow> int) \<Rightarrow> 'w Proc \<Rightarrow> 'w Proc" where
  "announce lvl l clk p0 =
     (let p1 = XM_LOG lvl l (clk 0) kInfo ''motor spun up: {} RPM at {:.2f} A'' [AInt 3200, ADouble amps] p0;
          p2 = XM_LOG lvl l (clk 1) kWarn ''temperature {} C approaching limit'' [AInt 71] p1
      in XM_LOG lvl l (clk 2) kError ''encoder {} dropped {} ticks'' [AInt 2, AInt 14] p2)"

text \<open>A compiled-out site does not evaluate its argument.\<close>

definition report_level :: "nat \<Rightarrow> bool \<Rightarrow> (nat \<Rightarrow> int) \<Rightarrow> 'w Proc \<Rightarrow> 'w Proc" where
  "report_level lvl l clk p =
     (if lvl \<le> 2 then let (sev, p1) = GetLogLevel l p
                      in XM_LOG lvl l (clk 4) kInfo ''current level = {}'' [AInt (of_nat (sev_code sev))] p1
      else p)"

definition level_control :: "nat \<Rightarrow> bool \<Rightarrow> (nat \<Rightarrow> int) \<Rightarrow> 'w Proc \<Rightarrow> 'w Proc" where
  "level_control lvl l clk p0 =
     (let p1 = report_level lvl l clk p0;
          p2 = SetLogLevel l kWarn p1;
          p3 = XM_LOG lvl l (clk 5) kInfo ''this INFO is now suppressed (level raised to WARN)'' [] p2;
          p4 = XM_LOG lvl l (clk 6) kWarn ''this WARN still shows'' [] p3
      in SetLogLevel l kInfo p4)"

text \<open>Tick \<open>i\<close> of worker \<open>id\<close>; the ticks of the four workers in the order they happened.\<close>

definition worker_tick :: "nat \<Rightarrow> bool \<Rightarrow> (nat \<Rightarrow> int) \<Rightarrow> nat \<times> nat \<Rightarrow> 'w Proc \<Rightarrow> 'w Proc" where
  "worker_tick lvl l clk = (\<lambda>(w, i). XM_LOG lvl l (clk (8 + 3 * w + i)) kInfo ''worker {} tick {}'' [AInt (of_nat w), AInt (of_nat i)])"

definition logging_main :: "nat \<Rightarrow> bool \<Rightarrow> (nat \<Rightarrow> int) \<Rightarrow> (nat \<times> nat) list \<Rightarrow> 'w Proc \<Rightarrow> 'w Proc" where
  "logging_main lvl l clk order p0 =
     (let p1 = announce lvl l clk p0;
          p2 = XM_STREAM lvl l (clk 3) kDebug (\<lambda>p. (''debug detail: phase=A count='' @ digits 10 False 42, p)) p1;
          p3 = level_control lvl l clk p2;
          p4 = XM_LOG lvl l (clk 7) kTrace ''trace sites compile out when XM_TELEMETRY_LEVEL > 0'' [] p3
      in fold (worker_tick lvl l clk) order p4)"

text \<open>Each worker's three ticks are in order; the workers interleave freely.\<close>

definition worker_order :: "(nat \<times> nat) list \<Rightarrow> bool" where
  "worker_order order \<longleftrightarrow> list_all (\<lambda>(w, i). w < 4) order \<and>
     list_all (\<lambda>k. filter (\<lambda>(w, i). w = k) order = [(k, 0), (k, 1), (k, 2)]) [0..<4]"

section \<open>Calls on the console\<close>

definition on_con :: "(Console \<Rightarrow> Console) \<Rightarrow> 'w Proc \<Rightarrow> 'w Proc" where
  "on_con f = on_world (\<lambda>w. w\<lparr>con := f (con w)\<rparr>)"

definition bound_at :: "OS \<Rightarrow> Severity \<Rightarrow> 'w Proc \<Rightarrow> bool" where
  "bound_at os lev p \<longleftrightarrow> g_binding p = Some console_binding \<and> env (world p) = os \<and> g_level (con (world p)) = lev"

text \<open>What reaches the console: an event with its text, if the level in force lets it through.\<close>

definition shown :: "OS \<Rightarrow> Severity \<Rightarrow> (Severity \<times> string) list \<Rightarrow> Console \<Rightarrow> Console" where
  "shown os lev evs = fold (\<lambda>(sev, msg). EmitLine os 0 sev msg) (filter (\<lambda>(sev, msg). lev \<le> sev) evs)"

abbreviation text_of :: "OS \<Rightarrow> string \<Rightarrow> arg list \<Rightarrow> string" where
  "text_of os fmt args \<equiv> FormatMessage (fprint os) 512 fmt (PackArgs args)"

lemma EmitLine_level: "EmitLine os sid sev msg (st\<lparr>g_level := x\<rparr>) = (EmitLine os sid sev msg st)\<lparr>g_level := x\<rparr>"
  by (simp add: EmitLine_def full_line_def LookupSource_def Let_def split_beta)

lemma shown_level [simp]: "g_level (shown os lev evs st) = g_level st"
  unfolding shown_def by (induction evs arbitrary: st) auto

lemma shown_set_level: "shown os lev evs (st\<lparr>g_level := x\<rparr>) = (shown os lev evs st)\<lparr>g_level := x\<rparr>"
  unfolding shown_def by (induction evs arbitrary: st) (auto simp: EmitLine_level)

lemma shown_append: "shown os lev (xs @ ys) st = shown os lev ys (shown os lev xs st)"
  by (simp add: shown_def)

lemma shown_Cons: "shown os lev (x # y # zs) = (\<lambda>st. shown os lev (y # zs) (shown os lev [x] st))"
  by (auto simp: shown_def fun_eq_iff)

lemma on_con_on_con [simp]: "on_con f (on_con g p) = on_con (\<lambda>c. f (g c)) p"
  by (simp add: on_con_def on_world_def)

lemma bound_on_con [simp]: "bound_at os lev p \<Longrightarrow> (\<And>c. g_level (f c) = g_level c) \<Longrightarrow> bound_at os lev (on_con f p)"
  by (simp add: bound_at_def on_con_def)

lemma log_shown:
  assumes "bound_at os lev p" "lvl \<le> sev_code sev" "sev \<noteq> kOff"
  shows "XM_LOG lvl l t sev fmt args p = on_con (shown os lev [(sev, text_of os fmt args)]) p"
  using assms
  by (auto simp: XM_LOG_def EmitEvent_def bound_at_def on_con_def on_world_def EmitEventImpl_def ShouldLogImpl_def shown_def)

lemma log_hidden:
  assumes "bound_at os lev p" "\<not> lev \<le> sev" shows "XM_LOG lvl l t sev fmt args p = p"
  using assms by (auto simp: XM_LOG_def EmitEvent_def bound_at_def ShouldLogImpl_def)

lemma con_on_con [simp]: "con (world (on_con f p)) = f (con (world p))"
  by (simp add: on_con_def)

lemma severities [simp]: "\<not> kInfo \<le> kTrace" "\<not> kWarn \<le> kInfo" "kInfo \<le> kInfo" "kWarn \<le> kWarn"
  by (simp_all add: less_eq_Severity_def)

lemma stream_shown:
  assumes "bound_at os lev p" "lvl \<le> sev_code sev" "sev \<noteq> kOff" "length msg < 512"
  shows "XM_STREAM lvl l t sev (\<lambda>p. (msg, p)) p = on_con (shown os lev [(sev, msg)]) p"
  using assms
  by (auto simp: XM_STREAM_def stream_body_def ShouldLog_def EmitEventDyn_def bound_at_def on_con_def on_world_def
      EmitEventDynImpl_def ShouldLogImpl_def shown_def)

lemma set_level_shown:
  assumes "bound_at os lev p"
  shows "SetLogLevel l m p = on_con (\<lambda>c. c\<lparr>g_level := m\<rparr>) p" "bound_at os m (SetLogLevel l m p)"
  using assms by (simp_all add: SetLogLevel_def bound_at_def on_con_def on_world_def SetLevelImpl_def)

lemma get_level_shown: "bound_at os lev p \<Longrightarrow> GetLogLevel l p = (lev, p)"
  by (simp add: GetLogLevel_def bound_at_def GetLevelImpl_def)

lemma announce_shown:
  assumes "bound_at os lev p"
  shows "announce 0 l clk p = on_con (shown os lev [(kInfo, text_of os ''motor spun up: {} RPM at {:.2f} A'' [AInt 3200, ADouble amps]),
    (kWarn, text_of os ''temperature {} C approaching limit'' [AInt 71]), (kError, text_of os ''encoder {} dropped {} ticks'' [AInt 2, AInt 14])]) p"
  using assms by (simp add: announce_def log_shown [of os lev] shown_Cons)

lemma level_control_shown:
  assumes "bound_at os lev p"
  shows "level_control 0 l clk p = on_con (\<lambda>c. (shown os kWarn [(kWarn, text_of os ''this WARN still shows'' [])]
      (shown os lev [(kInfo, text_of os ''current level = {}'' [AInt (of_nat (sev_code lev))])] c))\<lparr>g_level := kInfo\<rparr>) p"
    and "bound_at os kInfo (level_control 0 l clk p)"
proof -
  let ?p1 = "report_level 0 l clk p" and ?p2 = "SetLogLevel l kWarn (report_level 0 l clk p)"
  have p1: "?p1 = on_con (shown os lev [(kInfo, text_of os ''current level = {}'' [AInt (of_nat (sev_code lev))])]) p"
    using assms by (simp add: report_level_def get_level_shown log_shown [of os lev])
  have b1: "bound_at os lev ?p1" using assms by (simp add: p1)
  note p2 = set_level_shown [OF b1, where l = l and m = kWarn]
  let ?p3 = "XM_LOG 0 l (clk 5) kInfo ''this INFO is now suppressed (level raised to WARN)'' [] ?p2"
  have p3: "?p3 = ?p2" by (rule log_hidden [OF p2(2)]) simp
  let ?p4 = "XM_LOG 0 l (clk 6) kWarn ''this WARN still shows'' [] ?p2"
  have p4: "?p4 = on_con (shown os kWarn [(kWarn, text_of os ''this WARN still shows'' [])]) ?p2" using log_shown [OF p2(2)] by simp
  have b4: "bound_at os kWarn ?p4" using p2(2) by (simp add: p4)
  note p5 = set_level_shown [OF b4, where l = l and m = kInfo]
  have e: "level_control 0 l clk p = SetLogLevel l kInfo ?p4" by (simp add: level_control_def p3)
  show "bound_at os kInfo (level_control 0 l clk p)" using p5(2) by (simp add: e)
  show "level_control 0 l clk p = on_con (\<lambda>c. (shown os kWarn [(kWarn, text_of os ''this WARN still shows'' [])]
      (shown os lev [(kInfo, text_of os ''current level = {}'' [AInt (of_nat (sev_code lev))])] c))\<lparr>g_level := kInfo\<rparr>) p"
    unfolding e p5(1) unfolding p4 unfolding p2(1) unfolding p1 by (simp add: shown_set_level)
qed

abbreviation tick_text :: "OS \<Rightarrow> nat \<times> nat \<Rightarrow> string" where
  "tick_text os \<equiv> \<lambda>(w, i). text_of os ''worker {} tick {}'' [AInt (of_nat w), AInt (of_nat i)]"

lemma ticks_shown:
  "bound_at os kInfo p \<Longrightarrow> fold (worker_tick 0 l clk) order p = on_con (shown os kInfo (map (\<lambda>x. (kInfo, tick_text os x)) order)) p"
proof (induction order arbitrary: p)
  case Nil
  then show ?case by (simp add: shown_def on_con_def on_world_def)
next
  case (Cons x order)
  have "worker_tick 0 l clk x p = on_con (shown os kInfo [(kInfo, tick_text os x)]) p"
    using Cons.prems by (cases x) (simp add: worker_tick_def log_shown [of os kInfo])
  then show ?case using Cons.IH [of "worker_tick 0 l clk x p"] Cons.prems
    using shown_append [of os kInfo "[(kInfo, tick_text os x)]" "map (\<lambda>x. (kInfo, tick_text os x)) order"] by simp
qed

lemma interleaved_length:
  "list_all (\<lambda>(w, i). w < (n :: nat)) order \<Longrightarrow> length order = (\<Sum>k<n. length (filter (\<lambda>(w, i). w = k) order))"
proof (induction order)
  case (Cons x order)
  have "(\<Sum>k<n. length (filter (\<lambda>(w, i). w = k) (x # order))) = (\<Sum>k<n. of_bool (fst x = k) + length (filter (\<lambda>(w, i). w = k) order))"
    by (intro sum.cong) (auto split: prod.splits)
  also have "\<dots> = 1 + length order" using Cons by (auto simp: sum.distrib of_bool_def split: prod.splits)
  finally show ?case by simp
qed simp


text \<open>The program up to the level control, from a process that has installed nothing.\<close>

lemma opening_shown:
  fixes clk :: "nat \<Rightarrow> int"
  assumes "g_binding p = None" "\<not> g_explicitly_set p" "\<not> materialized p" "os = env (world p)" "lev = LevelFromEnv (xm_log_level os) kInfo"
  defines "q \<equiv> XM_STREAM 0 True (clk 3) kDebug (\<lambda>p. (''debug detail: phase=A count='' @ digits 10 False 42, p)) (announce 0 True clk p)"
  shows "bound_at os lev q" "con (world q) = (shown os lev
    [(kInfo, text_of os ''motor spun up: {} RPM at {:.2f} A'' [AInt 3200, ADouble amps]),
     (kWarn, text_of os ''temperature {} C approaching limit'' [AInt 71]),
     (kError, text_of os ''encoder {} dropped {} ticks'' [AInt 2, AInt 14]),
     (kDebug, ''debug detail: phase=A count=42'')] (con (world p)))\<lparr>g_level := lev\<rparr>"
proof -
  define p0 where "p0 = (p\<lparr>materialized := True, world := (world p)\<lparr>con := (con (world p))\<lparr>g_level := lev\<rparr>\<rparr>\<rparr>)\<lparr>g_binding := Some console_binding\<rparr>"
  have act: "ActiveBinding True p = (Some console_binding, p0)"
    using assms(1-5) by (simp add: ActiveBinding_def DefaultConsoleBinding_def p0_def SetLevelImpl_def Let_def)
  have b0: "bound_at os lev p0" using assms(4) by (simp add: bound_at_def p0_def)
  have a: "announce 0 True clk p = announce 0 True clk p0"
    using act b0 by (simp add: announce_def XM_LOG_def EmitEvent_def bound_at_def)
  note p1 = announce_shown [OF b0, of True clk]
  have b1: "bound_at os lev (announce 0 True clk p0)" using b0 by (simp add: p1)
  have "''debug detail: phase=A count='' @ digits 10 False 42 = ''debug detail: phase=A count=42''" by code_simp
  then have q: "q = on_con (shown os lev [(kDebug, ''debug detail: phase=A count=42'')]) (announce 0 True clk p0)"
    using stream_shown [OF b1, of 0 kDebug "''debug detail: phase=A count=42''"] by (simp add: q_def a)
  show "bound_at os lev q" using b1 by (simp add: q)
  have "con (world p0) = (con (world p))\<lparr>g_level := lev\<rparr>" by (simp add: p0_def)
  then show "con (world q) = (shown os lev
    [(kInfo, text_of os ''motor spun up: {} RPM at {:.2f} A'' [AInt 3200, ADouble amps]),
     (kWarn, text_of os ''temperature {} C approaching limit'' [AInt 71]),
     (kError, text_of os ''encoder {} dropped {} ticks'' [AInt 2, AInt 14]),
     (kDebug, ''debug detail: phase=A count=42'')] (con (world p)))\<lparr>g_level := lev\<rparr>"
    unfolding q p1 by (simp add: shown_Cons shown_set_level)
qed

section \<open>Properties\<close>

text \<open>
  Property C38. What the logging example prints: up to its first \<open>SetLogLevel\<close> exactly the events at or above the level of
  \<open>XM_LOG_LEVEL\<close>; after it, whatever that level was, the warning and the twelve ticks of the workers in the order in which they
  happened, and never the suppressed information or the trace event. So \<open>XM_LOG_LEVEL=0\<close> does not show everything and
  \<open>XM_LOG_LEVEL=4\<close> does not hide warnings: the last call sets \<open>kInfo\<close>, not the level the program started with.
\<close>

theorem logging_example_lines:
  assumes "g_binding p = None" "\<not> g_explicitly_set p" "\<not> materialized p" "worker_order order"
    and "os = env (world p)" "lev = LevelFromEnv (xm_log_level os) kInfo"
  shows "length order = 12 \<and> con (world (logging_main 0 True clk order p)) =
    (fold (\<lambda>(sev, msg). EmitLine os 0 sev msg)
      (filter (\<lambda>(sev, msg). lev \<le> sev)
         [(kInfo, text_of os ''motor spun up: {} RPM at {:.2f} A'' [AInt 3200, ADouble amps]),
          (kWarn, text_of os ''temperature {} C approaching limit'' [AInt 71]),
          (kError, text_of os ''encoder {} dropped {} ticks'' [AInt 2, AInt 14]),
          (kDebug, ''debug detail: phase=A count=42''),
          (kInfo, text_of os ''current level = {}'' [AInt (of_nat (sev_code lev))])] @
       (kWarn, text_of os ''this WARN still shows'' []) # map (\<lambda>x. (kInfo, tick_text os x)) order)
      (con (world p)))\<lparr>g_level := kInfo\<rparr>" (is "_ \<and> ?CON")
proof (rule conjI)
  have "length order = (\<Sum>k<4. length (filter (\<lambda>(w, i). w = k) order))" using assms(4) by (intro interleaved_length) (simp add: worker_order_def)
  also have "\<dots> = (\<Sum>k<(4::nat). 3)" using assms(4) by (intro sum.cong) (auto simp: worker_order_def list_all_iff)
  finally show "length order = 12" by simp
  let ?q = "XM_STREAM 0 True (clk 3) kDebug (\<lambda>p. (''debug detail: phase=A count='' @ digits 10 False 42, p)) (announce 0 True clk p)"
  note q = opening_shown [OF assms(1-3,5,6), where clk = clk]
  note c = level_control_shown [OF q(1), of True clk]
  have t: "XM_LOG 0 True (clk 7) kTrace ''trace sites compile out when XM_TELEMETRY_LEVEL > 0'' [] (level_control 0 True clk ?q) =
      level_control 0 True clk ?q" by (rule log_hidden [OF c(2)]) simp
  have "logging_main 0 True clk order p = on_con (shown os kInfo (map (\<lambda>x. (kInfo, tick_text os x)) order)) (level_control 0 True clk ?q)"
    unfolding logging_main_def Let_def t by (rule ticks_shown [OF c(2)])
  then have "con (world (logging_main 0 True clk order p)) = shown os kInfo (map (\<lambda>x. (kInfo, tick_text os x)) order) (con (world (level_control 0 True clk ?q)))"
    by (simp only: con_on_con)
  then show ?CON unfolding c(1) con_on_con q(2) shown_set_level by (simp add: shown_def filter_map o_def)
qed

definition round_robin :: "(nat \<times> nat) list" where
  "round_robin = concat (map (\<lambda>i. map (\<lambda>w. (w, i)) [0..<4]) [0..<3])"

text \<open>The process is started with \<open>XM_LOG_LEVEL=4\<close>: of the first events only the error is shown, then the warning and the twelve ticks.\<close>

theorem logging_example_lines_witness:
  "\<exists>evs. length evs = 14 \<and> con (world (logging_main 0 True int round_robin fresh_process)) =
     (fold (\<lambda>(sev, msg). EmitLine (env demo_world) 0 sev msg) evs (con demo_world))\<lparr>g_level := kInfo\<rparr>"
proof -
  have w: "worker_order round_robin" by code_simp
  have p: "g_binding fresh_process = None" "\<not> g_explicitly_set fresh_process" "\<not> materialized fresh_process" "world fresh_process = demo_world"
    by (simp_all add: fresh_process_def)
  have lev: "LevelFromEnv (xm_log_level (env demo_world)) kInfo = kError" by code_simp
  have l: "length round_robin = 12" by code_simp
  note c = conjunct2 [OF logging_example_lines [OF p(1-3) w refl refl, of int], unfolded p(4), unfolded lev]
  show ?thesis by (rule exI, rule conjI [rotated], rule c) (simp add: l less_eq_Severity_def)
qed

end
