(* ===== verification/Quantities.thy ===== *)
theory Quantities
  imports Prelude
begin

text \<open>
  \<open>types/quantities.hpp\<close>: \<open>Vec3<Tag>\<close>, an Eigen vector under a compile-time tag, with every constructor, accessor and
  operator of the header; Eigen's vectors and their operations are an argument. What the header promises ("mixing tags is
  a compile error; arithmetic is closed within a tag") is a statement about overload resolution, so the declarations are
  data: the constructors with their \<open>explicit\<close> flags, the member operators and the free template. \<open>resolve\<close> looks up the
  candidates of an operator expression as C++ does, a candidate being viable when the arguments convert implicitly to its
  parameters, and \<open>type_of\<close> and \<open>check1\<close> type client code with it. Shown: a well-typed vector expression is built from
  vectors of its own type only, one tag or bare Eigen and never both, however deeply nested, and conversely arithmetic
  within a tag is well typed; a well-typed program runs without a type error, its variables keep the types they were
  declared with, and it computes what it computes on bare Eigen vectors.
\<close>

section \<open>The class\<close>

datatype quantity_tag = LinearVelocity | AngularVelocity | LinearAcceleration | Force | Torque

text \<open>Eigen's \<open>Vector3d\<close> (\<open>'e\<close>) over scalars \<open>'r\<close>.\<close>

record ('r, 'e) Eigen =
  e_xyz :: "'r \<Rightarrow> 'r \<Rightarrow> 'r \<Rightarrow> 'e"
  e_zero :: 'e
  e_add :: "'e \<Rightarrow> 'e \<Rightarrow> 'e"
  e_sub :: "'e \<Rightarrow> 'e \<Rightarrow> 'e"
  e_neg :: "'e \<Rightarrow> 'e"
  e_mul :: "'e \<Rightarrow> 'r \<Rightarrow> 'e"
  e_quot :: "'e \<Rightarrow> 'r \<Rightarrow> 'e"
  e_eq :: "'e \<Rightarrow> 'e \<Rightarrow> bool"
  e_ne :: "'e \<Rightarrow> 'e \<Rightarrow> bool"
  e_x :: "'e \<Rightarrow> 'r"
  e_y :: "'e \<Rightarrow> 'r"
  e_z :: "'e \<Rightarrow> 'r"
  e_norm :: "'e \<Rightarrow> 'r"

datatype ('t, 'e) Vec3 = Vec3 (vec: 'e)

definition Vec3_default :: "('r, 'e) Eigen \<Rightarrow> ('t, 'e) Vec3" where
  "Vec3_default E = Vec3 (e_zero E)"

definition Vec3_xyz :: "('r, 'e) Eigen \<Rightarrow> 'r \<Rightarrow> 'r \<Rightarrow> 'r \<Rightarrow> ('t, 'e) Vec3" where
  "Vec3_xyz E x y z = Vec3 (e_xyz E x y z)"

definition Vec3_plus :: "('r, 'e) Eigen \<Rightarrow> ('t, 'e) Vec3 \<Rightarrow> ('t, 'e) Vec3 \<Rightarrow> ('t, 'e) Vec3" where
  "Vec3_plus E v w = Vec3 (e_add E (vec v) (vec w))"

definition Vec3_minus :: "('r, 'e) Eigen \<Rightarrow> ('t, 'e) Vec3 \<Rightarrow> ('t, 'e) Vec3 \<Rightarrow> ('t, 'e) Vec3" where
  "Vec3_minus E v w = Vec3 (e_sub E (vec v) (vec w))"

definition Vec3_neg :: "('r, 'e) Eigen \<Rightarrow> ('t, 'e) Vec3 \<Rightarrow> ('t, 'e) Vec3" where
  "Vec3_neg E v = Vec3 (e_neg E (vec v))"

definition Vec3_times :: "('r, 'e) Eigen \<Rightarrow> ('t, 'e) Vec3 \<Rightarrow> 'r \<Rightarrow> ('t, 'e) Vec3" where
  "Vec3_times E v s = Vec3 (e_mul E (vec v) s)"

definition Vec3_over :: "('r, 'e) Eigen \<Rightarrow> ('t, 'e) Vec3 \<Rightarrow> 'r \<Rightarrow> ('t, 'e) Vec3" where
  "Vec3_over E v s = Vec3 (e_quot E (vec v) s)"

text \<open>The compound assignments: the new value of the left operand.\<close>

definition Vec3_add_assign :: "('r, 'e) Eigen \<Rightarrow> ('t, 'e) Vec3 \<Rightarrow> ('t, 'e) Vec3 \<Rightarrow> ('t, 'e) Vec3" where
  "Vec3_add_assign E v w = Vec3 (e_add E (vec v) (vec w))"

definition Vec3_sub_assign :: "('r, 'e) Eigen \<Rightarrow> ('t, 'e) Vec3 \<Rightarrow> ('t, 'e) Vec3 \<Rightarrow> ('t, 'e) Vec3" where
  "Vec3_sub_assign E v w = Vec3 (e_sub E (vec v) (vec w))"

definition scale_left :: "('r, 'e) Eigen \<Rightarrow> 'r \<Rightarrow> ('t, 'e) Vec3 \<Rightarrow> ('t, 'e) Vec3" where
  "scale_left E s v = Vec3_times E v s"

definition Vec3_eq :: "('r, 'e) Eigen \<Rightarrow> ('t, 'e) Vec3 \<Rightarrow> ('t, 'e) Vec3 \<Rightarrow> bool" where
  "Vec3_eq E v w = e_eq E (vec v) (vec w)"

definition Vec3_ne :: "('r, 'e) Eigen \<Rightarrow> ('t, 'e) Vec3 \<Rightarrow> ('t, 'e) Vec3 \<Rightarrow> bool" where
  "Vec3_ne E v w = e_ne E (vec v) (vec w)"

definition Vec3_x :: "('r, 'e) Eigen \<Rightarrow> ('t, 'e) Vec3 \<Rightarrow> 'r" where
  "Vec3_x E v = e_x E (vec v)"

definition Vec3_y :: "('r, 'e) Eigen \<Rightarrow> ('t, 'e) Vec3 \<Rightarrow> 'r" where
  "Vec3_y E v = e_y E (vec v)"

definition Vec3_z :: "('r, 'e) Eigen \<Rightarrow> ('t, 'e) Vec3 \<Rightarrow> 'r" where
  "Vec3_z E v = e_z E (vec v)"

definition Vec3_norm :: "('r, 'e) Eigen \<Rightarrow> ('t, 'e) Vec3 \<Rightarrow> 'r" where
  "Vec3_norm E v = e_norm E (vec v)"

definition Vec3_Zero :: "('r, 'e) Eigen \<Rightarrow> ('t, 'e) Vec3" where
  "Vec3_Zero E = Vec3 (e_zero E)"

lemmas Vec3_ops = Vec3_default_def Vec3_xyz_def Vec3_plus_def Vec3_minus_def Vec3_neg_def Vec3_times_def Vec3_over_def
  Vec3_add_assign_def Vec3_sub_assign_def scale_left_def Vec3_eq_def Vec3_ne_def Vec3_Zero_def Vec3_x_def Vec3_y_def Vec3_z_def Vec3_norm_def

section \<open>The declarations\<close>

text \<open>The types of client expressions: \<open>Vec3<t>\<close>, Eigen's vector, \<open>double\<close> and \<open>bool\<close>.\<close>

datatype cxx_type = TV quantity_tag | TE | TD | TB

datatype binop = OpAdd | OpSub | OpMul | OpDiv | OpEq | OpNe

text \<open>The constructors of \<open>Vec3<t>\<close>, the implicit copy constructor last, each with whether it is \<open>explicit\<close>.\<close>

definition Vec3_ctors :: "quantity_tag \<Rightarrow> (bool \<times> cxx_type list) list" where
  "Vec3_ctors t = [(False, []), (True, [TE]), (False, [TD, TD, TD]), (False, [TV t])]"

text \<open>The member operators of a left operand of class type, as parameter and result.\<close>

fun Vec3_members :: "binop \<Rightarrow> cxx_type \<Rightarrow> (cxx_type \<times> cxx_type) list" where
  "Vec3_members OpAdd (TV t) = [(TV t, TV t)]"
| "Vec3_members OpSub (TV t) = [(TV t, TV t)]"
| "Vec3_members OpMul (TV t) = [(TD, TV t)]"
| "Vec3_members OpDiv (TV t) = [(TD, TV t)]"
| "Vec3_members OpEq (TV t) = [(TV t, TB)]"
| "Vec3_members OpNe (TV t) = [(TV t, TB)]"
| "Vec3_members _ _ = []"

text \<open>The free template \<open>operator*(double, const Vec3<Tag>&)\<close>: its tag is deduced from the right operand.\<close>

fun Vec3_templates :: "binop \<Rightarrow> cxx_type \<Rightarrow> (cxx_type \<times> cxx_type) list" where
  "Vec3_templates OpMul (TV t) = [(TD, TV t)]"
| "Vec3_templates _ _ = []"

text \<open>Eigen's operators, templates over its own expressions, and those of \<open>double\<close>.\<close>

fun other_operators :: "binop \<Rightarrow> cxx_type \<Rightarrow> cxx_type \<Rightarrow> cxx_type list" where
  "other_operators op TE TE = (if op = OpAdd \<or> op = OpSub then [TE] else if op = OpEq \<or> op = OpNe then [TB] else [])"
| "other_operators op TE TD = (if op = OpMul \<or> op = OpDiv then [TE] else [])"
| "other_operators op TD TE = (if op = OpMul then [TE] else [])"
| "other_operators op TD TD = (if op = OpEq \<or> op = OpNe then [TB] else [TD])"
| "other_operators op _ _ = []"

text \<open>A type converts implicitly to itself and, through a constructor that is not \<open>explicit\<close>, to a quantity.\<close>

definition implicit_conv :: "cxx_type \<Rightarrow> cxx_type \<Rightarrow> bool" where
  "implicit_conv a b \<longleftrightarrow> a = b \<or> (case b of TV t \<Rightarrow> (False, [a]) \<in> set (Vec3_ctors t) | _ \<Rightarrow> False)"

text \<open>Overload resolution: exactly one viable candidate.\<close>

definition resolve :: "binop \<Rightarrow> cxx_type \<Rightarrow> cxx_type \<Rightarrow> cxx_type option" where
  "resolve op a b =
     (case map snd (filter (\<lambda>(par, ret). implicit_conv b par) (Vec3_members op a)) @
           map snd (filter (\<lambda>(par, ret). implicit_conv a par) (Vec3_templates op b)) @ other_operators op a b of
        [ret] \<Rightarrow> Some ret
      | _ \<Rightarrow> None)"

text \<open>Direct initialization \<open>Vec3<t>(args)\<close> considers every constructor.\<close>

definition constructible :: "quantity_tag \<Rightarrow> cxx_type list \<Rightarrow> bool" where
  "constructible t args \<longleftrightarrow> list_ex (\<lambda>(ex, params). list_all2 implicit_conv args params) (Vec3_ctors t)"

section \<open>Client code\<close>

datatype accessor = AccX | AccY | AccZ | AccNorm

datatype ('r, 'e) qexpr =
    Lit 'r
  | EigenLit 'e
  | Var string
  | ZeroOf quantity_tag
  | Construct quantity_tag "('r, 'e) qexpr list"
  | VecOf "('r, 'e) qexpr"
  | Access accessor "('r, 'e) qexpr"
  | Neg "('r, 'e) qexpr"
  | Bin binop "('r, 'e) qexpr" "('r, 'e) qexpr"

text \<open>Declarations with and without an initializer (\<open>Vec3<t> n = e;\<close>), assignments, compound assignments and assignments
  through \<open>vec()\<close>.\<close>

datatype ('r, 'e) qstmt =
    Declare quantity_tag string
  | Define quantity_tag string "('r, 'e) qexpr"
  | Assign string "('r, 'e) qexpr"
  | AddTo string "('r, 'e) qexpr"
  | SubFrom string "('r, 'e) qexpr"
  | SetVec string "('r, 'e) qexpr"

datatype type_error = Undeclared string | Redeclared string | NoMatch

type_synonym tags = "string \<rightharpoonup> quantity_tag"

definition on_type :: "type_error + 'a \<Rightarrow> ('a \<Rightarrow> type_error + 'b) \<Rightarrow> type_error + 'b" where
  "on_type x f = (case x of Inl err \<Rightarrow> Inl err | Inr a \<Rightarrow> f a)"

fun type_of :: "tags \<Rightarrow> ('r, 'e) qexpr \<Rightarrow> type_error + cxx_type"
  and types_of :: "tags \<Rightarrow> ('r, 'e) qexpr list \<Rightarrow> type_error + cxx_type list" where
  "type_of G (Lit r) = Inr TD"
| "type_of G (EigenLit v) = Inr TE"
| "type_of G (Var n) = (case G n of Some t \<Rightarrow> Inr (TV t) | None \<Rightarrow> Inl (Undeclared n))"
| "type_of G (ZeroOf t) = Inr (TV t)"
| "type_of G (Construct t es) = on_type (types_of G es) (\<lambda>Ts. if constructible t Ts then Inr (TV t) else Inl NoMatch)"
| "type_of G (VecOf e) = on_type (type_of G e) (\<lambda>T. case T of TV t \<Rightarrow> Inr TE | _ \<Rightarrow> Inl NoMatch)"
| "type_of G (Access a e) = on_type (type_of G e) (\<lambda>T. case T of TV t \<Rightarrow> Inr TD | TE \<Rightarrow> Inr TD | _ \<Rightarrow> Inl NoMatch)"
| "type_of G (Neg e) = on_type (type_of G e) (\<lambda>T. if T = TB then Inl NoMatch else Inr T)"
| "type_of G (Bin op a b) = on_type (type_of G a) (\<lambda>T. on_type (type_of G b) (\<lambda>U.
     case resolve op T U of Some R \<Rightarrow> Inr R | None \<Rightarrow> Inl NoMatch))"
| "types_of G [] = Inr []"
| "types_of G (e # es) = on_type (type_of G e) (\<lambda>T. on_type (types_of G es) (\<lambda>Ts. Inr (T # Ts)))"

text \<open>The parameter of an assignment, a copy initialization or a compound assignment is a quantity of the variable's tag.\<close>

definition assignable :: "tags \<Rightarrow> string \<Rightarrow> ('r, 'e) qexpr \<Rightarrow> type_error + tags" where
  "assignable G n e =
     (case G n of
        None \<Rightarrow> Inl (Undeclared n)
      | Some t \<Rightarrow> on_type (type_of G e) (\<lambda>T. if implicit_conv T (TV t) then Inr G else Inl NoMatch))"

fun check1 :: "tags \<Rightarrow> ('r, 'e) qstmt \<Rightarrow> type_error + tags" where
  "check1 G (Declare t n) = (if G n \<noteq> None then Inl (Redeclared n) else Inr (G(n \<mapsto> t)))"
| "check1 G (Define t n e) =
     (if G n \<noteq> None then Inl (Redeclared n)
      else on_type (type_of G e) (\<lambda>T. if implicit_conv T (TV t) then Inr (G(n \<mapsto> t)) else Inl NoMatch))"
| "check1 G (Assign n e) = assignable G n e"
| "check1 G (AddTo n e) = assignable G n e"
| "check1 G (SubFrom n e) = assignable G n e"
| "check1 G (SetVec n e) =
     (case G n of None \<Rightarrow> Inl (Undeclared n) | Some t \<Rightarrow> on_type (type_of G e) (\<lambda>T. if T = TE then Inr G else Inl NoMatch))"

fun check :: "tags \<Rightarrow> ('r, 'e) qstmt list \<Rightarrow> type_error + tags" where
  "check G [] = Inr G"
| "check G (c # cs) = on_type (check1 G c) (\<lambda>G1. check G1 cs)"

section \<open>What the tags guarantee\<close>

text \<open>The vectors an expression is built from, by type, read off its text: a read through \<open>vec()\<close> is a bare Eigen vector, an
  explicit construction a quantity of the type it names.\<close>

fun leaves :: "tags \<Rightarrow> ('r, 'e) qexpr \<Rightarrow> cxx_type set" where
  "leaves G (EigenLit v) = {TE}"
| "leaves G (Var n) = {TV (the (G n))}"
| "leaves G (ZeroOf t) = {TV t}"
| "leaves G (Construct t es) = {TV t}"
| "leaves G (VecOf e) = {TE}"
| "leaves G (Neg e) = leaves G e"
| "leaves G (Bin op a b) = leaves G a \<union> leaves G b"
| "leaves G _ = {}"

text \<open>Linear arithmetic, whatever the types: sums of like shapes, products and quotients with a scalar.\<close>

datatype arith_shape = Vector | Scalar

fun shape2 :: "binop \<Rightarrow> arith_shape option \<Rightarrow> arith_shape option \<Rightarrow> arith_shape option" where
  "shape2 op (Some Vector) (Some Vector) = (if op = OpAdd \<or> op = OpSub then Some Vector else None)"
| "shape2 op (Some Vector) (Some Scalar) = (if op = OpMul \<or> op = OpDiv then Some Vector else None)"
| "shape2 op (Some Scalar) (Some Vector) = (if op = OpMul then Some Vector else None)"
| "shape2 op (Some Scalar) (Some Scalar) = (if op = OpEq \<or> op = OpNe then None else Some Scalar)"
| "shape2 op _ _ = None"

fun shape_of :: "('r, 'e) qexpr \<Rightarrow> arith_shape option" where
  "shape_of (Lit r) = Some Scalar"
| "shape_of (Access a e) = Some Scalar"
| "shape_of (Neg e) = shape_of e"
| "shape_of (Bin op a b) = shape2 op (shape_of a) (shape_of b)"
| "shape_of _ = Some Vector"

text \<open>The atoms of the arithmetic are well formed: declared variables, reads and constructions that compile.\<close>

fun atoms_ok :: "tags \<Rightarrow> ('r, 'e) qexpr \<Rightarrow> bool" where
  "atoms_ok G (Neg e) = atoms_ok G e"
| "atoms_ok G (Bin op a b) = (atoms_ok G a \<and> atoms_ok G b)"
| "atoms_ok G e = (\<exists>T. type_of G e = Inr T)"

lemma implicit_conv_eq [simp]: "implicit_conv a b \<longleftrightarrow> a = b"
  by (auto simp: implicit_conv_def Vec3_ctors_def split: cxx_type.splits)

lemma on_type_Inr [simp]: "on_type x f = Inr b \<longleftrightarrow> (\<exists>a. x = Inr a \<and> f a = Inr b)"
  by (simp add: on_type_def split: sum.splits)

text \<open>The table of overload resolution.\<close>

lemma resolve_iff:
  "resolve op a b = Some (TV t) \<longleftrightarrow>
     a = TV t \<and> b = TV t \<and> (op = OpAdd \<or> op = OpSub) \<or> a = TV t \<and> b = TD \<and> (op = OpMul \<or> op = OpDiv) \<or> a = TD \<and> b = TV t \<and> op = OpMul"
  "resolve op a b = Some TE \<longleftrightarrow>
     a = TE \<and> b = TE \<and> (op = OpAdd \<or> op = OpSub) \<or> a = TE \<and> b = TD \<and> (op = OpMul \<or> op = OpDiv) \<or> a = TD \<and> b = TE \<and> op = OpMul"
  "resolve op a b = Some TD \<longleftrightarrow> a = TD \<and> b = TD \<and> op \<noteq> OpEq \<and> op \<noteq> OpNe"
  "resolve op a b = Some TB \<longleftrightarrow> a = b \<and> a \<noteq> TB \<and> (op = OpEq \<or> op = OpNe)"
  by (cases op; cases a; cases b; auto simp: resolve_def)+

lemma leaves_scalar: "shape_of e = Some Scalar \<Longrightarrow> leaves G e = {}"
proof (induction e)
  case (Bin op a b)
  then show ?case by (cases "shape_of a"; cases "shape_of b"; cases "the (shape_of a)"; cases "the (shape_of b)") (auto split: if_splits)
qed auto

lemma leaves_vector: "shape_of e = Some Vector \<Longrightarrow> leaves G e \<noteq> {}"
proof (induction e)
  case (Bin op a b)
  then show ?case by (cases "shape_of a"; cases "shape_of b"; cases "the (shape_of a)"; cases "the (shape_of b)") (auto split: if_splits)
qed auto

definition vector_type :: "cxx_type \<Rightarrow> bool" where
  "vector_type T \<longleftrightarrow> T \<noteq> TD \<and> T \<noteq> TB"

lemma resolve_vector:
  "vector_type T \<Longrightarrow> resolve op a b = Some T \<longleftrightarrow>
     a = T \<and> b = T \<and> (op = OpAdd \<or> op = OpSub) \<or> a = T \<and> b = TD \<and> (op = OpMul \<or> op = OpDiv) \<or> a = TD \<and> b = T \<and> op = OpMul"
  using resolve_iff [of op a b] by (cases T) (auto simp: vector_type_def)

lemma shape2_iff:
  "shape2 op x y = Some Vector \<longleftrightarrow> x = Some Vector \<and> y = Some Vector \<and> (op = OpAdd \<or> op = OpSub) \<or>
     x = Some Vector \<and> y = Some Scalar \<and> (op = OpMul \<or> op = OpDiv) \<or> x = Some Scalar \<and> y = Some Vector \<and> op = OpMul"
  "shape2 op x y = Some Scalar \<longleftrightarrow> x = Some Scalar \<and> y = Some Scalar \<and> op \<noteq> OpEq \<and> op \<noteq> OpNe"
  by (cases x; cases y; cases "the x"; cases "the y"; auto)+

lemma type_of_Bin: "type_of G (Bin op a b) = Inr T \<longleftrightarrow> (\<exists>A B. type_of G a = Inr A \<and> type_of G b = Inr B \<and> resolve op A B = Some T)"
  by (cases "type_of G a"; cases "type_of G b") (auto simp: on_type_def split: option.splits)

lemma type_of_VecOf: "type_of G (VecOf e) = Inr T \<longleftrightarrow> T = TE \<and> (\<exists>t. type_of G e = Inr (TV t))"
  by (cases "type_of G e") (auto simp: on_type_def split: cxx_type.splits)

lemma type_of_Access: "type_of G (Access a e) = Inr T \<longleftrightarrow> T = TD \<and> (type_of G e = Inr TE \<or> (\<exists>t. type_of G e = Inr (TV t)))"
  by (cases "type_of G e") (auto simp: on_type_def split: cxx_type.splits)

lemma type_of_Construct: "type_of G (Construct t es) = Inr T \<longleftrightarrow> T = TV t \<and> (\<exists>Ts. types_of G es = Inr Ts \<and> constructible t Ts)"
  by (cases "types_of G es") (auto simp: on_type_def)

text \<open>Arithmetic over well-formed atoms has a vector type exactly when it is linear and all its vectors are of that type.\<close>

lemma shape_types:
  "atoms_ok G e \<Longrightarrow> (vector_type T \<longrightarrow> (type_of G e = Inr T \<longleftrightarrow> shape_of e = Some Vector \<and> leaves G e = {T})) \<and>
     (type_of G e = Inr TD \<longleftrightarrow> shape_of e = Some Scalar)"
proof (induction e)
  case (Bin op a b)
  then have IH: "vector_type T \<Longrightarrow> type_of G a = Inr T \<longleftrightarrow> shape_of a = Some Vector \<and> leaves G a = {T}"
      "vector_type T \<Longrightarrow> type_of G b = Inr T \<longleftrightarrow> shape_of b = Some Vector \<and> leaves G b = {T}"
      "type_of G a = Inr TD \<longleftrightarrow> shape_of a = Some Scalar" "type_of G b = Inr TD \<longleftrightarrow> shape_of b = Some Scalar" by simp_all
  have "type_of G (Bin op a b) = Inr T \<longleftrightarrow> shape_of (Bin op a b) = Some Vector \<and> leaves G (Bin op a b) = {T}" if v: "vector_type T"
  proof -
    have "type_of G (Bin op a b) = Inr T \<longleftrightarrow>
        type_of G a = Inr T \<and> type_of G b = Inr T \<and> (op = OpAdd \<or> op = OpSub) \<or>
        type_of G a = Inr T \<and> type_of G b = Inr TD \<and> (op = OpMul \<or> op = OpDiv) \<or> type_of G a = Inr TD \<and> type_of G b = Inr T \<and> op = OpMul"
      unfolding type_of_Bin resolve_vector [OF v] by blast
    moreover have "leaves G a \<union> leaves G b = {T} \<longleftrightarrow> leaves G a = {T} \<and> leaves G b = {T}"
      if "shape_of a = Some Vector" "shape_of b = Some Vector"
      using leaves_vector [OF that(1), of G] leaves_vector [OF that(2), of G] by auto
    moreover have "shape_of a = Some Scalar \<Longrightarrow> leaves G a = {}" "shape_of b = Some Scalar \<Longrightarrow> leaves G b = {}"
      by (simp_all add: leaves_scalar)
    ultimately show ?thesis
      unfolding shape_of.simps leaves.simps shape2_iff IH(3,4) IH(1,2) [OF v]
      by (cases "shape_of a = Some Vector"; cases "shape_of b = Some Vector"; cases "shape_of a = Some Scalar"; cases "shape_of b = Some Scalar") (simp_all add: conj_commute conj_left_commute)
  qed
  moreover have "type_of G (Bin op a b) = Inr TD \<longleftrightarrow> shape_of (Bin op a b) = Some Scalar"
    unfolding type_of_Bin resolve_iff shape_of.simps shape2_iff IH(3,4) [symmetric] by blast
  ultimately show ?case by blast
next
  case (Construct t es)
  then show ?case by (auto simp: type_of_Construct vector_type_def simp del: type_of.simps)
next
  case (VecOf e)
  then show ?case by (auto simp: type_of_VecOf vector_type_def simp del: type_of.simps)
next
  case (Access a e)
  then show ?case by (auto simp: type_of_Access vector_type_def simp del: type_of.simps)
next
  case (Neg e)
  then show ?case by (auto simp: vector_type_def split: if_splits)
qed (auto simp: vector_type_def split: option.splits)

section \<open>Running client code\<close>

text \<open>The operators of \<open>double\<close>. Values do not test tags: the left operand's class decides which member runs.\<close>

record 'r Doubles =
  d_neg :: "'r \<Rightarrow> 'r"
  d_bin :: "binop \<Rightarrow> 'r \<Rightarrow> 'r \<Rightarrow> 'r"
  d_cmp :: "binop \<Rightarrow> 'r \<Rightarrow> 'r \<Rightarrow> bool"

datatype ('r, 'e) qvalue = VV quantity_tag "(quantity_tag, 'e) Vec3" | VE 'e | VD 'r | VB bool

fun Vec3_binop :: "('r, 'e) Eigen \<Rightarrow> binop \<Rightarrow> quantity_tag \<Rightarrow> (quantity_tag, 'e) Vec3 \<Rightarrow> (quantity_tag, 'e) Vec3 \<Rightarrow> ('r, 'e) qvalue option" where
  "Vec3_binop E OpAdd t v w = Some (VV t (Vec3_plus E v w))"
| "Vec3_binop E OpSub t v w = Some (VV t (Vec3_minus E v w))"
| "Vec3_binop E OpEq t v w = Some (VB (Vec3_eq E v w))"
| "Vec3_binop E OpNe t v w = Some (VB (Vec3_ne E v w))"
| "Vec3_binop E _ t v w = None"

fun Eigen_binop :: "('r, 'e) Eigen \<Rightarrow> binop \<Rightarrow> 'e \<Rightarrow> 'e \<Rightarrow> ('r, 'e) qvalue option" where
  "Eigen_binop E OpAdd v w = Some (VE (e_add E v w))"
| "Eigen_binop E OpSub v w = Some (VE (e_sub E v w))"
| "Eigen_binop E OpEq v w = Some (VB (e_eq E v w))"
| "Eigen_binop E OpNe v w = Some (VB (e_ne E v w))"
| "Eigen_binop E _ v w = None"

fun apply_op :: "('r, 'e) Eigen \<Rightarrow> 'r Doubles \<Rightarrow> binop \<Rightarrow> ('r, 'e) qvalue \<Rightarrow> ('r, 'e) qvalue \<Rightarrow> ('r, 'e) qvalue option" where
  "apply_op E D op (VV t v) (VV u w) = Vec3_binop E op t v w"
| "apply_op E D op (VV t v) (VD r) =
     (if op = OpMul then Some (VV t (Vec3_times E v r)) else if op = OpDiv then Some (VV t (Vec3_over E v r)) else None)"
| "apply_op E D op (VD r) (VV t v) = (if op = OpMul then Some (VV t (scale_left E r v)) else None)"
| "apply_op E D op (VE v) (VE w) = Eigen_binop E op v w"
| "apply_op E D op (VE v) (VD r) =
     (if op = OpMul then Some (VE (e_mul E v r)) else if op = OpDiv then Some (VE (e_quot E v r)) else None)"
| "apply_op E D op (VD r) (VE v) = (if op = OpMul then Some (VE (e_mul E v r)) else None)"
| "apply_op E D op (VD r) (VD q) = (if op = OpEq \<or> op = OpNe then Some (VB (d_cmp D op r q)) else Some (VD (d_bin D op r q)))"
| "apply_op E D op _ _ = None"

fun apply_neg :: "('r, 'e) Eigen \<Rightarrow> 'r Doubles \<Rightarrow> ('r, 'e) qvalue \<Rightarrow> ('r, 'e) qvalue option" where
  "apply_neg E D (VV t v) = Some (VV t (Vec3_neg E v))"
| "apply_neg E D (VE v) = Some (VE (e_neg E v))"
| "apply_neg E D (VD r) = Some (VD (d_neg D r))"
| "apply_neg E D (VB b) = None"

fun Eigen_access :: "('r, 'e) Eigen \<Rightarrow> accessor \<Rightarrow> 'e \<Rightarrow> 'r" where
  "Eigen_access E AccX v = e_x E v"
| "Eigen_access E AccY v = e_y E v"
| "Eigen_access E AccZ v = e_z E v"
| "Eigen_access E AccNorm v = e_norm E v"

fun Vec3_access :: "('r, 'e) Eigen \<Rightarrow> accessor \<Rightarrow> (quantity_tag, 'e) Vec3 \<Rightarrow> 'r" where
  "Vec3_access E AccX v = Vec3_x E v"
| "Vec3_access E AccY v = Vec3_y E v"
| "Vec3_access E AccZ v = Vec3_z E v"
| "Vec3_access E AccNorm v = Vec3_norm E v"

fun construct :: "('r, 'e) Eigen \<Rightarrow> ('r, 'e) qvalue list \<Rightarrow> (quantity_tag, 'e) Vec3 option" where
  "construct E [] = Some (Vec3_default E)"
| "construct E [VE v] = Some (Vec3 v)"
| "construct E [VV t v] = Some v"
| "construct E [VD x, VD y, VD z] = Some (Vec3_xyz E x y z)"
| "construct E _ = None"

fun value_of :: "('r, 'e) Eigen \<Rightarrow> 'r Doubles \<Rightarrow> (string \<rightharpoonup> quantity_tag \<times> (quantity_tag, 'e) Vec3) \<Rightarrow> ('r, 'e) qexpr \<Rightarrow> ('r, 'e) qvalue option"
  and values_of :: "('r, 'e) Eigen \<Rightarrow> 'r Doubles \<Rightarrow> (string \<rightharpoonup> quantity_tag \<times> (quantity_tag, 'e) Vec3) \<Rightarrow> ('r, 'e) qexpr list \<Rightarrow> ('r, 'e) qvalue list option" where
  "value_of E D s (Lit r) = Some (VD r)"
| "value_of E D s (EigenLit v) = Some (VE v)"
| "value_of E D s (Var n) = map_option (\<lambda>(t, v). VV t v) (s n)"
| "value_of E D s (ZeroOf t) = Some (VV t (Vec3_Zero E))"
| "value_of E D s (Construct t es) = Option.bind (values_of E D s es) (\<lambda>vs. map_option (VV t) (construct E vs))"
| "value_of E D s (VecOf e) = Option.bind (value_of E D s e) (\<lambda>v. case v of VV t w \<Rightarrow> Some (VE (vec w)) | _ \<Rightarrow> None)"
| "value_of E D s (Access a e) = Option.bind (value_of E D s e) (\<lambda>v. case v of VV t w \<Rightarrow> Some (VD (Vec3_access E a w))
     | VE w \<Rightarrow> Some (VD (Eigen_access E a w)) | _ \<Rightarrow> None)"
| "value_of E D s (Neg e) = Option.bind (value_of E D s e) (apply_neg E D)"
| "value_of E D s (Bin op a b) = Option.bind (value_of E D s a) (\<lambda>v. Option.bind (value_of E D s b) (apply_op E D op v))"
| "values_of E D s [] = Some []"
| "values_of E D s (e # es) = Option.bind (value_of E D s e) (\<lambda>v. map_option (\<lambda>vs. v # vs) (values_of E D s es))"

fun exec1 :: "('r, 'e) Eigen \<Rightarrow> 'r Doubles \<Rightarrow> ('r, 'e) qstmt \<Rightarrow> (string \<rightharpoonup> quantity_tag \<times> (quantity_tag, 'e) Vec3) \<Rightarrow>
    (string \<rightharpoonup> quantity_tag \<times> (quantity_tag, 'e) Vec3) option" where
  "exec1 E D (Declare t n) s = Some (s(n \<mapsto> (t, Vec3_default E)))"
| "exec1 E D (Define t n e) s = (case value_of E D s e of Some (VV u v) \<Rightarrow> Some (s(n \<mapsto> (t, v))) | _ \<Rightarrow> None)"
| "exec1 E D (Assign n e) s =
     (case (s n, value_of E D s e) of (Some (t, w), Some (VV u v)) \<Rightarrow> Some (s(n \<mapsto> (t, v))) | _ \<Rightarrow> None)"
| "exec1 E D (AddTo n e) s =
     (case (s n, value_of E D s e) of (Some (t, w), Some (VV u v)) \<Rightarrow> Some (s(n \<mapsto> (t, Vec3_add_assign E w v))) | _ \<Rightarrow> None)"
| "exec1 E D (SubFrom n e) s =
     (case (s n, value_of E D s e) of (Some (t, w), Some (VV u v)) \<Rightarrow> Some (s(n \<mapsto> (t, Vec3_sub_assign E w v))) | _ \<Rightarrow> None)"
| "exec1 E D (SetVec n e) s =
     (case (s n, value_of E D s e) of (Some (t, w), Some (VE v)) \<Rightarrow> Some (s(n \<mapsto> (t, Vec3 v))) | _ \<Rightarrow> None)"

fun exec_program :: "('r, 'e) Eigen \<Rightarrow> 'r Doubles \<Rightarrow> ('r, 'e) qstmt list \<Rightarrow> (string \<rightharpoonup> quantity_tag \<times> (quantity_tag, 'e) Vec3) \<Rightarrow>
    (string \<rightharpoonup> quantity_tag \<times> (quantity_tag, 'e) Vec3) option" where
  "exec_program E D [] s = Some s"
| "exec_program E D (c # cs) s = Option.bind (exec1 E D c s) (exec_program E D cs)"

text \<open>The same code on bare Eigen vectors.\<close>

fun bare_construct :: "('r, 'e) Eigen \<Rightarrow> ('r, 'e) qvalue list \<Rightarrow> 'e option" where
  "bare_construct E [] = Some (e_zero E)"
| "bare_construct E [VE v] = Some v"
| "bare_construct E [VD x, VD y, VD z] = Some (e_xyz E x y z)"
| "bare_construct E _ = None"

fun bare_value :: "('r, 'e) Eigen \<Rightarrow> 'r Doubles \<Rightarrow> (string \<rightharpoonup> 'e) \<Rightarrow> ('r, 'e) qexpr \<Rightarrow> ('r, 'e) qvalue option"
  and bare_values :: "('r, 'e) Eigen \<Rightarrow> 'r Doubles \<Rightarrow> (string \<rightharpoonup> 'e) \<Rightarrow> ('r, 'e) qexpr list \<Rightarrow> ('r, 'e) qvalue list option" where
  "bare_value E D s (Lit r) = Some (VD r)"
| "bare_value E D s (EigenLit v) = Some (VE v)"
| "bare_value E D s (Var n) = map_option VE (s n)"
| "bare_value E D s (ZeroOf t) = Some (VE (e_zero E))"
| "bare_value E D s (Construct t es) = Option.bind (bare_values E D s es) (\<lambda>vs. map_option VE (bare_construct E vs))"
| "bare_value E D s (VecOf e) = bare_value E D s e"
| "bare_value E D s (Access a e) = Option.bind (bare_value E D s e) (\<lambda>v. case v of VE w \<Rightarrow> Some (VD (Eigen_access E a w)) | _ \<Rightarrow> None)"
| "bare_value E D s (Neg e) = Option.bind (bare_value E D s e) (apply_neg E D)"
| "bare_value E D s (Bin op a b) = Option.bind (bare_value E D s a) (\<lambda>v. Option.bind (bare_value E D s b) (apply_op E D op v))"
| "bare_values E D s [] = Some []"
| "bare_values E D s (e # es) = Option.bind (bare_value E D s e) (\<lambda>v. map_option (\<lambda>vs. v # vs) (bare_values E D s es))"

fun bare1 :: "('r, 'e) Eigen \<Rightarrow> 'r Doubles \<Rightarrow> ('r, 'e) qstmt \<Rightarrow> (string \<rightharpoonup> 'e) \<Rightarrow> (string \<rightharpoonup> 'e) option" where
  "bare1 E D (Declare t n) s = Some (s(n \<mapsto> e_zero E))"
| "bare1 E D (Define t n e) s = (case bare_value E D s e of Some (VE v) \<Rightarrow> Some (s(n \<mapsto> v)) | _ \<Rightarrow> None)"
| "bare1 E D (Assign n e) s = (case (s n, bare_value E D s e) of (Some w, Some (VE v)) \<Rightarrow> Some (s(n \<mapsto> v)) | _ \<Rightarrow> None)"
| "bare1 E D (AddTo n e) s = (case (s n, bare_value E D s e) of (Some w, Some (VE v)) \<Rightarrow> Some (s(n \<mapsto> e_add E w v)) | _ \<Rightarrow> None)"
| "bare1 E D (SubFrom n e) s = (case (s n, bare_value E D s e) of (Some w, Some (VE v)) \<Rightarrow> Some (s(n \<mapsto> e_sub E w v)) | _ \<Rightarrow> None)"
| "bare1 E D (SetVec n e) s = (case (s n, bare_value E D s e) of (Some w, Some (VE v)) \<Rightarrow> Some (s(n \<mapsto> v)) | _ \<Rightarrow> None)"

fun bare_program :: "('r, 'e) Eigen \<Rightarrow> 'r Doubles \<Rightarrow> ('r, 'e) qstmt list \<Rightarrow> (string \<rightharpoonup> 'e) \<Rightarrow> (string \<rightharpoonup> 'e) option" where
  "bare_program E D [] s = Some s"
| "bare_program E D (c # cs) s = Option.bind (bare1 E D c s) (bare_program E D cs)"

section \<open>Soundness\<close>

fun kind_of :: "('r, 'e) qvalue \<Rightarrow> cxx_type" where
  "kind_of (VV t v) = TV t"
| "kind_of (VE v) = TE"
| "kind_of (VD r) = TD"
| "kind_of (VB b) = TB"

fun stripped :: "('r, 'e) qvalue \<Rightarrow> ('r, 'e) qvalue" where
  "stripped (VV t v) = VE (vec v)"
| "stripped v = v"

definition tags_in :: "(string \<rightharpoonup> quantity_tag \<times> (quantity_tag, 'e) Vec3) \<Rightarrow> tags" where
  "tags_in s n = map_option fst (s n)"

definition bare :: "(string \<rightharpoonup> quantity_tag \<times> (quantity_tag, 'e) Vec3) \<Rightarrow> (string \<rightharpoonup> 'e)" where
  "bare s n = map_option (\<lambda>(t, v). vec v) (s n)"

lemma store_upd [simp]:
  "tags_in (s(n \<mapsto> (t, v))) = (tags_in s)(n \<mapsto> t)" "bare (s(n \<mapsto> (t, v))) = (bare s)(n \<mapsto> vec v)"
  by (auto simp: tags_in_def bare_def)

lemma store_empty [simp]: "tags_in Map.empty = Map.empty" "bare Map.empty = Map.empty"
  by (simp_all add: tags_in_def bare_def fun_eq_iff)

lemma kind_cases:
  "kind_of v = TV t \<longleftrightarrow> (\<exists>w. v = VV t w)" "kind_of v = TE \<longleftrightarrow> (\<exists>w. v = VE w)"
  "kind_of v = TD \<longleftrightarrow> (\<exists>w. v = VD w)" "kind_of v = TB \<longleftrightarrow> (\<exists>w. v = VB w)"
  by (cases v; simp)+

text \<open>A resolved operator runs, yields a value of the resolved type, and is Eigen's operator underneath.\<close>

lemma op_sound:
  assumes "resolve op (kind_of v) (kind_of w) = Some T"
  shows "\<exists>x. apply_op E D op v w = Some x \<and> kind_of x = T \<and> apply_op E D op (stripped v) (stripped w) = Some (stripped x)"
  using assms by (cases op; cases v; cases w; auto simp: resolve_def Vec3_ops split: if_splits)

lemma construct_sound:
  assumes "constructible t (map kind_of vs)"
  shows "\<exists>x. construct E vs = Some x \<and> bare_construct E (map stripped vs) = Some (vec x)"
  using assms by (auto simp: constructible_def Vec3_ctors_def list_all2_Cons2 kind_cases Vec3_ops)

lemma neg_sound:
  "kind_of v \<noteq> TB \<Longrightarrow> \<exists>x. apply_neg E D v = Some x \<and> kind_of x = kind_of v \<and> apply_neg E D (stripped v) = Some (stripped x)"
  by (cases v) (simp_all add: Vec3_ops)

lemma access_bare: "Vec3_access E a v = Eigen_access E a (vec v)"
  by (cases a) (simp_all add: Vec3_ops)

lemma value_sound:
  "type_of (tags_in s) e = Inr T \<Longrightarrow> \<exists>v. value_of E D s e = Some v \<and> kind_of v = T \<and> bare_value E D (bare s) e = Some (stripped v)"
  "types_of (tags_in s) es = Inr Ts \<Longrightarrow>
     \<exists>vs. values_of E D s es = Some vs \<and> map kind_of vs = Ts \<and> bare_values E D (bare s) es = Some (map stripped vs)"
proof (induction "tags_in s" e and "tags_in s" es arbitrary: T and Ts rule: type_of_types_of.induct)
  case (3 n)
  then show ?case by (auto simp: tags_in_def bare_def split: option.split_asm)
next
  case (5 t es)
  then obtain Ts where "types_of (tags_in s) es = Inr Ts" "constructible t Ts" "T = TV t" by (auto split: if_splits)
  with 5 obtain vs where "values_of E D s es = Some vs" "map kind_of vs = Ts" "bare_values E D (bare s) es = Some (map stripped vs)" by blast
  with construct_sound [of t vs E] \<open>constructible t Ts\<close> \<open>T = TV t\<close> show ?case by auto
next
  case (6 e)
  then obtain t where "type_of (tags_in s) e = Inr (TV t)" "T = TE" unfolding type_of_VecOf by blast
  with 6(1) [of "TV t"] show ?case by (auto simp: kind_cases)
next
  case (7 a e)
  then consider t where "type_of (tags_in s) e = Inr (TV t)" "T = TD" | "type_of (tags_in s) e = Inr TE" "T = TD"
    unfolding type_of_Access by blast
  then show ?case
  proof cases
    case 1
    with 7(1) [of "TV t" for t] show ?thesis by (auto simp: kind_cases access_bare)
  next
    case 2
    with 7(1) [of TE] show ?thesis by (auto simp: kind_cases)
  qed
next
  case (8 e)
  then have "type_of (tags_in s) e = Inr T" "T \<noteq> TB" by (auto split: if_splits)
  with 8 obtain v where "value_of E D s e = Some v" "kind_of v = T" "bare_value E D (bare s) e = Some (stripped v)" by blast
  with neg_sound [of v E D] \<open>T \<noteq> TB\<close> show ?case by auto
next
  case (9 op a b)
  then obtain A B where ab: "type_of (tags_in s) a = Inr A" "type_of (tags_in s) b = Inr B" "resolve op A B = Some T"
    unfolding type_of_Bin by blast
  with 9 obtain v w where "value_of E D s a = Some v" "kind_of v = A" "bare_value E D (bare s) a = Some (stripped v)"
      "value_of E D s b = Some w" "kind_of w = B" "bare_value E D (bare s) b = Some (stripped w)" by blast
  with op_sound [of op v w T E D] ab(3) show ?case by auto
next
  case (11 e es)
  then show ?case by fastforce
qed (auto simp: Vec3_ops)

lemma typed_quantity:
  assumes "type_of (tags_in s) e = Inr (TV t)"
  obtains v where "value_of E D s e = Some (VV t v)" "bare_value E D (bare s) e = Some (VE (vec v))"
  using value_sound(1) [OF assms, of E D] by (auto simp: kind_cases)

lemma declared: "tags_in s n = Some t \<Longrightarrow> \<exists>w. s n = Some (t, w) \<and> bare s n = Some (vec w) \<and> (tags_in s)(n \<mapsto> t) = tags_in s"
  by (cases "s n") (auto simp: tags_in_def bare_def fun_eq_iff)

lemma assignable_iff: "assignable G n e = Inr H \<longleftrightarrow> H = G \<and> (\<exists>t. G n = Some t \<and> type_of G e = Inr (TV t))"
  by (cases "G n"; cases "type_of G e") (auto simp: assignable_def on_type_def)

lemma check_SetVec: "check1 G (SetVec n e) = Inr H \<longleftrightarrow> H = G \<and> (\<exists>t. G n = Some t) \<and> type_of G e = Inr TE"
  by (cases "G n"; cases "type_of G e") (auto simp: on_type_def)

lemma assign_sound:
  assumes "assignable (tags_in s) n e = Inr G"
  obtains t v w where "G = tags_in s" "s n = Some (t, w)" "bare s n = Some (vec w)" "(tags_in s)(n \<mapsto> t) = tags_in s"
    "value_of E D s e = Some (VV t v)" "bare_value E D (bare s) e = Some (VE (vec v))"
proof -
  obtain t where t: "tags_in s n = Some t" "type_of (tags_in s) e = Inr (TV t)" "G = tags_in s"
    using assms unfolding assignable_iff by blast
  obtain w where "s n = Some (t, w)" "bare s n = Some (vec w)" "(tags_in s)(n \<mapsto> t) = tags_in s" using declared [OF t(1)] by blast
  moreover obtain v where "value_of E D s e = Some (VV t v)" "bare_value E D (bare s) e = Some (VE (vec v))" by (rule typed_quantity [OF t(2)])
  ultimately show ?thesis by (rule that [OF t(3)])
qed

lemma statement_sound:
  assumes "check1 (tags_in s) c = Inr G"
  shows "\<exists>s'. exec1 E D c s = Some s' \<and> tags_in s' = G \<and> bare1 E D c (bare s) = Some (bare s')"
proof (cases c)
  case (Declare t n)
  with assms show ?thesis by (auto simp: Vec3_ops split: if_splits)
next
  case (Define t n e)
  with assms have T: "type_of (tags_in s) e = Inr (TV t)" "G = (tags_in s)(n \<mapsto> t)" by (auto split: if_splits)
  obtain v where "value_of E D s e = Some (VV t v)" "bare_value E D (bare s) e = Some (VE (vec v))" by (rule typed_quantity [OF T(1)])
  then show ?thesis by (simp add: Define T(2))
next
  case (Assign n e)
  with assms show ?thesis by (auto elim!: assign_sound [of s n e G E D])
next
  case (AddTo n e)
  with assms show ?thesis by (auto simp: Vec3_ops elim!: assign_sound [of s n e G E D])
next
  case (SubFrom n e)
  with assms show ?thesis by (auto simp: Vec3_ops elim!: assign_sound [of s n e G E D])
next
  case (SetVec n e)
  with assms obtain t where t: "tags_in s n = Some t" "type_of (tags_in s) e = Inr TE" "G = tags_in s" unfolding SetVec check_SetVec by blast
  from declared [OF t(1)] value_sound(1) [OF t(2), of E D] t(3) show ?thesis by (auto simp: SetVec kind_cases)
qed

lemma program_sound:
  "check (tags_in s) cs = Inr G \<Longrightarrow> \<exists>s'. exec_program E D cs s = Some s' \<and> tags_in s' = G \<and> bare_program E D cs (bare s) = Some (bare s')"
proof (induction cs arbitrary: s)
  case (Cons c cs)
  then obtain G1 where "check1 (tags_in s) c = Inr G1" "check G1 cs = Inr G" by auto
  with statement_sound [of s c G1 E D] Cons.IH show ?case by fastforce
qed simp

lemma check_keeps: "check G cs = Inr G' \<Longrightarrow> G n = Some t \<Longrightarrow> G' n = Some t"
proof (induction cs arbitrary: G)
  case (Cons c cs)
  then obtain G1 where "check1 G c = Inr G1" "check G1 cs = Inr G'" by auto
  moreover from this(1) Cons.prems(2) have "G1 n = Some t" by (cases c) (auto simp: assignable_iff split: option.splits if_splits)
  ultimately show ?case using Cons.IH by blast
qed simp

section \<open>Theorems\<close>

text \<open>Mixing tags is a compile error and arithmetic is closed within a tag: over well-formed atoms an expression is a
  \<open>Vec3<t>\<close> exactly when it is linear arithmetic all of whose vectors are \<open>Vec3<t>\<close>. So no quantity of another tag enters it, and
  a bare Eigen vector only through an explicit construction.\<close>

theorem quantities_do_not_mix:
  assumes "atoms_ok G e"
  shows "type_of G e = Inr (TV t) \<longleftrightarrow> shape_of e = Some Vector \<and> leaves G e = {TV t}"
  using shape_types [OF assms, of "TV t"] by (simp add: vector_type_def)

theorem quantities_do_not_mix_witness:
  "type_of [''f'' \<mapsto> Force, ''tau'' \<mapsto> Torque] (Bin OpAdd (Var ''f'') (VecOf (Var ''tau'')) :: (int, int) qexpr) \<noteq> Inr (TV Force)"
  using quantities_do_not_mix [of "[''f'' \<mapsto> Force, ''tau'' \<mapsto> Torque]" "Bin OpAdd (Var ''f'') (VecOf (Var ''tau'')) :: (int, int) qexpr" Force]
  by simp

text \<open>A program that compiles runs without meeting operands it has no operator for, its variables have the tags they were
  declared with, and it computes the vectors that the same code computes on bare Eigen vectors: the tags cost nothing.\<close>

theorem quantity_programs_sound:
  assumes "check Map.empty cs = Inr G"
  shows "\<exists>s. exec_program E D cs Map.empty = Some s \<and> tags_in s = G \<and> bare_program E D cs Map.empty = Some (bare s) \<and>
    (\<forall>ds H n t. check G ds = Inr H \<longrightarrow> G n = Some t \<longrightarrow> H n = Some t)"
  using program_sound [of Map.empty cs G E D] assms check_keeps [of G] by auto

definition int_vectors :: "(int, int \<times> int \<times> int) Eigen" where
  "int_vectors =
     \<lparr>e_xyz = (\<lambda>x y z. (x, y, z)), e_zero = (0, 0, 0), e_add = (\<lambda>(a, b, c) (x, y, z). (a + x, b + y, c + z)),
      e_sub = (\<lambda>(a, b, c) (x, y, z). (a - x, b - y, c - z)), e_neg = (\<lambda>(a, b, c). (- a, - b, - c)),
      e_mul = (\<lambda>(a, b, c) r. (a * r, b * r, c * r)), e_quot = (\<lambda>(a, b, c) r. (a div r, b div r, c div r)),
      e_eq = (=), e_ne = (\<noteq>), e_x = fst, e_y = (\<lambda>v. fst (snd v)), e_z = (\<lambda>v. snd (snd v)), e_norm = (\<lambda>(a, b, c). \<bar>a\<bar> + \<bar>b\<bar> + \<bar>c\<bar>)\<rparr>"

definition net_force :: "(int, int \<times> int \<times> int) qstmt list" where
  "net_force = [Define Force ''grav'' (Construct Force [Lit 0, Lit 0, Lit (- 10)]), Define Force ''push'' (Construct Force [Lit 2, Lit 0, Lit 0]),
     Define Force ''net'' (Bin OpAdd (Var ''grav'') (Bin OpMul (Lit 3) (Var ''push'')))]"

theorem quantity_programs_sound_witness:
  "\<exists>s. exec_program int_vectors D net_force Map.empty = Some s \<and> bare s ''net'' = Some (6, 0, - 10) \<and> tags_in s ''net'' = Some Force"
proof -
  have c: "check Map.empty net_force = Inr [''grav'' \<mapsto> Force, ''push'' \<mapsto> Force, ''net'' \<mapsto> Force]"
    by (simp add: net_force_def on_type_def constructible_def Vec3_ctors_def resolve_def fun_upd_twist)
  from quantity_programs_sound [OF c, of int_vectors D] show ?thesis
    by (auto simp: net_force_def int_vectors_def Vec3_ops)
qed

end
