(* ===== verification/Data_Types.thy ===== *)
theory Data_Types
  imports Quantities Telemetry
begin

text \<open>
  The data types of \<open>types/\<close> (time, plain vectors, geometry, stamped values) and the program of \<open>examples/types_example.cpp\<close>.
  Eigen's vectors and quaternions are arguments, the vectors in the record of the strong quantities. A time is a count of
  nanoseconds; the steady clock counts ticks of its own period.
\<close>

section \<open>Time\<close>

text \<open>\<open>time_point_cast\<close> of a count of ticks of \<open>num / den\<close> seconds to nanoseconds, truncating toward zero.\<close>

definition Now :: "int \<Rightarrow> int \<Rightarrow> int \<Rightarrow> int" where
  "Now num den ticks = trunc_quot (ticks * num * 1000000000) den"

text \<open>\<open>duration_cast\<close> of a \<open>Duration\<close> to microseconds.\<close>

definition micros :: "int \<Rightarrow> int" where
  "micros d = trunc_quot d 1000"

section \<open>Composite types\<close>

record 'a vector3_t =
  v3_x :: 'a
  v3_y :: 'a
  v3_z :: 'a

record 'a vector4_t = "'a vector3_t" +
  v4_w :: 'a

definition vector3_default :: "'a \<Rightarrow> 'a vector3_t" where
  "vector3_default z = \<lparr>v3_x = z, v3_y = z, v3_z = z\<rparr>"

definition vector4_default :: "'a \<Rightarrow> 'a vector4_t" where
  "vector4_default z = \<lparr>v3_x = z, v3_y = z, v3_z = z, v4_w = z\<rparr>"

record ('r, 'e, 'q) Eigen_geometry = "('r, 'e) Eigen" +
  e_dot :: "'e \<Rightarrow> 'e \<Rightarrow> 'r"
  q_identity :: 'q
  q_about_z :: "'r \<Rightarrow> 'q"
  q_w :: "'q \<Rightarrow> 'r"

record 'e Twist =
  linear :: 'e
  angular :: 'e

record 'e Wrench =
  force :: 'e
  torque :: 'e

record ('e, 'q) Pose =
  position :: 'e
  orientation :: 'q

record 'f Euler =
  roll :: 'f
  pitch :: 'f
  yaw :: 'f

record ('e, 'q) Odometry =
  child_frame_id :: string
  odom_pose :: "('e, 'q) Pose"
  odom_twist :: "'e Twist"
  frame_id :: string
  odom_stamp :: int

definition Twist_default :: "('r, 'e, 'q) Eigen_geometry \<Rightarrow> 'e Twist" where
  "Twist_default E = \<lparr>linear = e_zero E, angular = e_zero E\<rparr>"

definition Wrench_default :: "('r, 'e, 'q) Eigen_geometry \<Rightarrow> 'e Wrench" where
  "Wrench_default E = \<lparr>force = e_zero E, torque = e_zero E\<rparr>"

definition Pose_default :: "('r, 'e, 'q) Eigen_geometry \<Rightarrow> ('e, 'q) Pose" where
  "Pose_default E = \<lparr>position = e_zero E, orientation = q_identity E\<rparr>"

definition Euler_default :: "'f \<Rightarrow> 'f Euler" where
  "Euler_default z = \<lparr>roll = z, pitch = z, yaw = z\<rparr>"

definition Odometry_default :: "('r, 'e, 'q) Eigen_geometry \<Rightarrow> ('e, 'q) Odometry" where
  "Odometry_default E = \<lparr>child_frame_id = [], odom_pose = Pose_default E, odom_twist = Twist_default E, frame_id = [], odom_stamp = 0\<rparr>"

section \<open>Stamped values\<close>

record 'a Stamped =
  stamp :: int
  stamped_value :: 'a

definition Stamped_default :: "'a \<Rightarrow> 'a Stamped" where
  "Stamped_default v = \<lparr>stamp = 0, stamped_value = v\<rparr>"

definition Stamped_ctor :: "int \<Rightarrow> 'a \<Rightarrow> 'a Stamped" where
  "Stamped_ctor t v = \<lparr>stamp = t, stamped_value = v\<rparr>"

definition StampNow :: "int \<Rightarrow> 'a \<Rightarrow> 'a Stamped" where
  "StampNow now v = Stamped_ctor now v"

section \<open>The example\<close>

datatype ForceTag = ForceTag

datatype TorqueTag = TorqueTag

text \<open>\<open>lit\<close> is a decimal literal, \<open>bits\<close> the bits of a double; \<open>now k\<close> is the program's own \<open>k\<close>-th clock reading and \<open>clk k\<close> that of
  its \<open>k\<close>-th event.\<close>

definition example_pose :: "('r, 'e, 'q) Eigen_geometry \<Rightarrow> (rat \<Rightarrow> 'r) \<Rightarrow> ('e, 'q) Pose" where
  "example_pose E lit = (Pose_default E)\<lparr>position := e_xyz E (lit 1) (lit 2) (lit (1 / 2)),
     orientation := q_about_z E (lit (157079632679489661923 / 100000000000000000000))\<rparr>"

definition example_cmd :: "('r, 'e, 'q) Eigen_geometry \<Rightarrow> (rat \<Rightarrow> 'r) \<Rightarrow> 'e Twist" where
  "example_cmd E lit = (Twist_default E)\<lparr>linear := e_xyz E (lit (4 / 10)) (lit 0) (lit 0), angular := e_xyz E (lit 0) (lit 0) (lit (2 / 10))\<rparr>"

definition example_odom :: "('r, 'e, 'q) Eigen_geometry \<Rightarrow> (rat \<Rightarrow> 'r) \<Rightarrow> int \<Rightarrow> ('e, 'q) Odometry" where
  "example_odom E lit t = (Odometry_default E)\<lparr>frame_id := ''odom'', child_frame_id := ''base_link'', odom_pose := example_pose E lit,
     odom_twist := example_cmd E lit, odom_stamp := t\<rparr>"

definition types_events :: "('r, 'e, 'q) Eigen_geometry \<Rightarrow> (rat \<Rightarrow> 'r) \<Rightarrow> ('r \<Rightarrow> u64) \<Rightarrow> (nat \<Rightarrow> int) \<Rightarrow> (string \<times> arg list) list" where
  "types_events E lit bits now =
     (let pose = example_pose E lit;
          odom = example_odom E lit (now 0);
          t0 = now 1;
          elapsed = now 2 - t0;
          stamped_pose = StampNow (now 3) pose;
          f_grav = (Vec3_xyz (Eigen.truncate E) (lit 0) (lit 0) (lit (- 981 / 100)) :: (ForceTag, 'e) Vec3);
          f_push = Vec3_xyz (Eigen.truncate E) (lit 2) (lit 0) (lit 0);
          f_net = Vec3_plus (Eigen.truncate E) f_grav f_push;
          tau = (Vec3_xyz (Eigen.truncate E) (lit 0) (lit 0) (lit (1 / 2)) :: (TorqueTag, 'e) Vec3);
          work = e_dot E (vec f_push) (position pose)
      in [(''pose: p=({:.2f},{:.2f},{:.2f}) yaw_w={:.3f}'',
             map (\<lambda>r. ADouble (bits r)) [e_x E (position pose), e_y E (position pose), e_z E (position pose), q_w E (orientation pose)]),
          (''odometry: {} in {} (vx={:.2f} wz={:.2f})'',
             [AStr (Some (child_frame_id odom)), AStr (Some (frame_id odom)), ADouble (bits (e_x E (linear (odom_twist odom)))),
              ADouble (bits (e_z E (angular (odom_twist odom))))]),
          (''elapsed {} us'', [AInt (of_int (micros elapsed))]),
          (''stamped pose captured at t={} ns'', [AInt (of_int (stamp stamped_pose))]),
          (''net force = ({:.2f},{:.2f},{:.2f}), |tau| = {:.2f}'',
             map (\<lambda>r. ADouble (bits r)) [Vec3_x (Eigen.truncate E) f_net, Vec3_y (Eigen.truncate E) f_net,
               Vec3_z (Eigen.truncate E) f_net, Vec3_norm (Eigen.truncate E) tau]),
          (''work along displacement = {:.3f} J'', [ADouble (bits work)])])"

definition types_main :: "nat \<Rightarrow> bool \<Rightarrow> ('r, 'e, 'q) Eigen_geometry \<Rightarrow> (rat \<Rightarrow> 'r) \<Rightarrow> ('r \<Rightarrow> u64) \<Rightarrow> (nat \<Rightarrow> int) \<Rightarrow> (nat \<Rightarrow> int) \<Rightarrow> 'w Proc \<Rightarrow> 'w Proc" where
  "types_main lvl l E lit bits now clk =
     fold (\<lambda>(k, fmt, args). XM_LOG lvl l (clk k) kInfo fmt args) (List.enumerate 0 (types_events E lit bits now))"

section \<open>Lemmas\<close>

lemma trunc_quot_nonneg: "0 \<le> a \<Longrightarrow> trunc_quot a d = a div d"
  by (cases "a = 0") (simp_all add: trunc_quot_def)

lemma trunc_quot_neg: "a < 0 \<Longrightarrow> trunc_quot a d = - ((- a) div d)"
  by (simp add: trunc_quot_def)

lemma trunc_quot_mono:
  assumes "a \<le> b" "0 < d" shows "trunc_quot a d \<le> trunc_quot b d"
proof -
  consider "0 \<le> a" | "a < 0" "0 \<le> b" | "b < 0" by linarith
  then show ?thesis
  proof cases
    case 1
    then show ?thesis using assms by (simp add: trunc_quot_nonneg zdiv_mono1)
  next
    case 2
    then have "0 \<le> - a div d" "0 \<le> b div d" using assms(2) by (simp_all add: pos_imp_zdiv_nonneg_iff)
    then show ?thesis using 2 by (simp add: trunc_quot_nonneg trunc_quot_neg)
  next
    case 3
    then show ?thesis using assms zdiv_mono1 [of "- b" "- a" d] by (simp add: trunc_quot_neg)
  qed
qed

section \<open>Theorems\<close>

text \<open>The clock of the library is monotone whatever the period of the steady clock, before its epoch as after it.\<close>

theorem Now_monotone:
  assumes "0 < num" "0 < den" "t \<le> t'" shows "Now num den t \<le> Now num den t'"
  unfolding Now_def using assms by (intro trunc_quot_mono) simp_all

text \<open>Rounding never shortens a sleep: when the steady clock has counted at least \<open>d\<close> nanoseconds, two readings are at least \<open>d\<close>
  apart. So the example, which sleeps five milliseconds between its readings, prints at least 5000 microseconds.\<close>

lemma Now_apart:
  assumes "0 < num" "0 < den" "0 \<le> t" "t \<le> t'" "d * den \<le> (t' - t) * num * 1000000000"
  shows "d \<le> Now num den t' - Now num den t"
proof -
  let ?a = "t * num * 1000000000" and ?b = "t' * num * 1000000000"
  have "?a + d * den \<le> ?b" using assms(5) by (simp add: algebra_simps)
  then have "(?a + d * den) div den \<le> ?b div den" using assms(2) by (rule zdiv_mono1)
  moreover have "(?a + d * den) div den = ?a div den + d" using assms(2) by simp
  moreover have "0 \<le> ?a" "0 \<le> ?b" using assms by simp_all
  ultimately show ?thesis by (simp add: Now_def trunc_quot_nonneg)
qed

theorem example_elapsed:
  assumes "0 < num" "0 < den" "0 \<le> ticks 1" "ticks 1 \<le> ticks 2" "5000000 * den \<le> (ticks 2 - ticks 1) * num * 1000000000"
  shows "\<exists>e \<ge> 5000. types_events E lit bits (\<lambda>k. Now num den (ticks k)) ! 2 = (''elapsed {} us'', [AInt (of_int e)])"
proof -
  let ?d = "Now num den (ticks 2) - Now num den (ticks 1)"
  have "5000000 \<le> ?d" using Now_apart [OF assms] .
  then have "5000 \<le> micros ?d" using zdiv_mono1 [of 5000000 ?d 1000] by (simp add: micros_def trunc_quot_nonneg)
  then show ?thesis by (intro exI [of _ "micros ?d"]) (simp add: types_events_def Let_def)
qed

text \<open>Default-constructed composite values are the identity and zero, and the example's odometry carries the pose and the twist it was given.\<close>

theorem composite_defaults:
  "position (odom_pose (Odometry_default E)) = e_zero E \<and> orientation (odom_pose (Odometry_default E)) = q_identity E \<and>
   linear (odom_twist (Odometry_default E)) = e_zero E \<and> angular (odom_twist (Odometry_default E)) = e_zero E \<and>
   odom_pose (example_odom E lit t) = example_pose E lit \<and> odom_twist (example_odom E lit t) = example_cmd E lit \<and>
   stamped_value (StampNow t (example_pose E lit)) = odom_pose (example_odom E lit t)"
  by (simp add: Odometry_default_def Pose_default_def Twist_default_def example_odom_def StampNow_def Stamped_ctor_def)

end
