(* ===== verification/Spec2Isabelle.thy ===== *)
theory Spec2Isabelle
  imports Seqlock_Conc Message_Cells Spsc_Conc Storage Event_Count Serialization Binding_Conc Mini_Backend Mini_Main Bench_Report Bench_Program
    Device_Health Sensor_Demos Worker_Inbox Trace_Pool Trace_Pipeline Control_Loop Logging_Demo Quantities Data_Types
begin

text \<open>
  \<^bold>\<open>xmBase: a verification library\<close>

  xmBase is the C++ base layer of a robotics software family. It has four parts:
  lock-free single-writer cells and queues with the parking primitive they are used with
  (\<open>include/xmbase/concurrency\<close>), byte-order and checksum helpers (\<open>serialization\<close>), the telemetry
  front end with its built-in console sink (\<open>telemetry\<close>, \<open>src/telemetry_unbound.cpp\<close>,
  \<open>src/telemetry_console_binding.cpp\<close>), and a measurement tier (\<open>testing\<close>). Cells, queues and their
  headers are placed by a storage policy, on the heap or in a region that several processes map;
  telemetry calls go through the one active binding table, by default the console's, which packs,
  formats and writes lines to \<open>stderr\<close>.

  \<^bold>\<open>Theories\<close>

  \<^item> \<open>Prelude\<close>: machine types, \<open>memcpy\<close> between bytes and 64-bit words, bounded buffers, reachability,
    and the locale \<open>inductive_invariant\<close> that every interleaved system instantiates.
  \<^item> \<open>Seqlock_Ring\<close>, \<open>Seqlock_Conc\<close> (\<open>concurrency/detail/seqlock_ring.hpp\<close>): the ring as a record of
    cells and a cursor; \<open>Store\<close>, \<open>Load\<close>, \<open>LoadBounded\<close>, \<open>Snapshot\<close>, \<open>RepairAfterWriterCrash\<close>
    sequentially, and one writer with any number of readers, crashes and repairs, one shared access
    per step. Shown, as long as no crash repair overlaps the read: reads are untorn, snapshots are consecutive and lose
    only what a writer has lapped, emptiness is sound; and the two ways in which a repair that does overlap breaks this.
    Stores and snapshots are wait-free; the budget of \<open>LoadBounded\<close> is exact.
  \<^item> \<open>Message_Cells\<close> (\<open>message_slot.hpp\<close>, \<open>message_buffer.hpp\<close>): the facades, against the locales
    \<open>latest_cell\<close> and \<open>history_buffer\<close>; the lock-free and the mutex slot are interchangeable.
  \<^item> \<open>Spsc_Queue\<close>, \<open>Spsc_Conc\<close> (\<open>spsc_queue.hpp\<close>): the queue refines a bounded FIFO (locale
    \<open>bounded_fifo\<close>); with a concurrent producer and consumer it keeps order, loses nothing, has no
    data race on its plain cells, refuses only when full or empty, and is wait-free.
  \<^item> \<open>Storage\<close> (\<open>storage.hpp\<close>): the bump allocator over a byte region and the heap policy, against
    the locale \<open>storage_policy\<close>: alignment, disjointness, bounds, deterministic attachment, and the
    exact size of the ring's layout.
  \<^item> \<open>Event_Count\<close> (\<open>event_count.hpp\<close>): waiters and notifiers on the futex word and on the condition
    variable: no lost wakeup; the parking loop against a clock returns by its deadline.
  \<^item> \<open>Serialization\<close> (\<open>byte_order.hpp\<close>, \<open>checksum.hpp\<close>): round trips, CRC-16 as polynomial
    remainder, detection and closure of both CRCs (locale \<open>crc_register\<close>), the additive checksum.
  \<^item> \<open>Arg_Pack\<close>, \<open>Formatter\<close> (\<open>binding.hpp\<close>, both \<open>.cpp\<close> files): packing refines its reference; both
    format loops are cuts of one reference text (locale \<open>brace_scanner\<close>), so they agree where no placeholder has a spec; the spec
    parser inverts printing and clamps.
  \<^item> \<open>Trace_Context\<close> (\<open>context.hpp\<close>, \<open>span.hpp\<close>, \<open>NextId\<close>): ids, envelopes, guards and spans; scopes
    restore the context, spans nest, and what nested spans record is the tree of their nesting.
  \<^item> \<open>Console_Binding\<close>: level, source registry, line assembly, write loop and entry points of the
    console sink.
  \<^item> \<open>Metrics\<close> (\<open>binding.hpp\<close>): counters, gauges, histogram buckets and slots; concurrent recording
    loses nothing (locale \<open>extremal_cell\<close> for minimum and maximum).
  \<^item> \<open>Telemetry\<close>, \<open>Binding_Conc\<close> (\<open>binding.hpp\<close>, \<open>telemetry_unbound.cpp\<close>, \<open>event.hpp\<close>, \<open>handles.hpp\<close>,
    \<open>health.hpp\<close>): the binding table as a record of operations on the process's world, installation
    and lazy adoption, the inline operations and macros, the level contract (locale \<open>level_gate\<close>);
    and installation and lookup interleaved.
  \<^item> \<open>Span_Process\<close>, \<open>Mini_Backend\<close>, \<open>Mini_Main\<close> (\<open>span.hpp\<close>, \<open>examples/custom_binding_example.cpp\<close>): blocks of telemetry
    calls and spans in a process (locales \<open>quiet_table\<close>, \<open>span_recorder\<close>): any recording table receives the whole record of
    every span, once and in order; the example's binding table: its registries (locale \<open>name_registry\<close>), exact counters,
    its span lines; and the example's
    \<open>main\<close> with the output it prints.
  \<^item> \<open>Control_Loop\<close>, \<open>Logging_Demo\<close> (\<open>examples/instrumented_control_loop_example.cpp\<close>, \<open>xm_logging_example.cpp\<close>): what
    a bound backend records of the 200 control cycles; which lines the logging example prints under which
    \<open>XM_LOG_LEVEL\<close>, with its four threads in any order.
  \<^item> \<open>Device_Health\<close>, \<open>Sensor_Demos\<close> (\<open>examples/device_health_example.cpp\<close>, \<open>concurrency_message_slot_example.cpp\<close>,
    \<open>concurrency_message_buffer_example.cpp\<close>, \<open>concurrency_region_storage_example.cpp\<close>): the health monitor's
    hysteresis, its counter's overflow and the reports of its program; the sensor examples as producer and consumer over the interleaved
    ring (locale \<open>sized_demo\<close>), whose exit codes are 0 in every schedule.
  \<^item> \<open>Worker_Inbox\<close>, \<open>Trace_Pool\<close>, \<open>Trace_Pipeline\<close> (\<open>examples/concurrency_worker_inbox_example.cpp\<close>,
    \<open>worker_pool_context_example.cpp\<close>, \<open>trace_pipeline_example.cpp\<close>): queue and eventcount composed (no lost wakeup,
    exact counts, and the commands a shutdown abandons); trace contexts on reused pool threads; one trace over
    three producers and a gathering thread, which always runs to its end.
  \<^item> \<open>Quantities\<close>, \<open>Data_Types\<close> (\<open>types/\<close>, \<open>examples/types_example.cpp\<close>): the tagged vectors, the header's
    declarations with overload resolution over them (tags do not mix, Eigen vectors enter only through an explicit
    construction) and client programs; clock, vectors, geometry and stamped values, and the example that uses them.
  \<^item> \<open>Bench_Harness\<close>, \<open>Bench_Report\<close> (\<open>bench_harness.hpp\<close>, \<open>alloc_probe.hpp\<close>): order statistics, the
    allocation gate, and the report as well-formed JSON (an inductive grammar).
  \<^item> \<open>Bench_Program\<close> (\<open>bench/xmbase_bench.cpp\<close>): command line, rows, filter, gate and exit code.
  \<^item> this theory: what needs several components, an event's way from the call to the terminal.

  \<^bold>\<open>How the code is read\<close>

  Structs are records, enumerations datatypes, fixed-width integers words that wrap. Calls that can
  fail return an option or a sum; undefined behaviour the code can reach (signed overflow, a store
  outside the contract) is \<open>None\<close>. Concurrency is interleaving of single atomic accesses under
  sequential consistency: the acquire/release pairs the sources document order the plain accesses,
  and weaker behaviours of relaxed atomics are not modelled. Counters that would have to exceed
  \<open>2 ^ 64\<close> (positions of the ring, indices of a queue whose capacity does not divide \<open>2 ^ 64\<close>) or
  \<open>2 ^ 32\<close> (epochs, source ids) are bounded by hypotheses of the theorems concerned. Unbounded loops
  are \<open>partial_function (option)\<close> or steps of a system; their termination is stated where claimed.
  Ghost fields (histories, commit lists) are read by no operation.

  Parameters stand for what is not in the repository: the C library's rendering of doubles (\<open>fp\<close>),
  the machine's rounding (\<open>fadd\<close>, \<open>rnd\<close>), \<open>std::random_device\<close>, the clock, the environment, the
  answers of \<open>write(2)\<close>, \<open>malloc\<close> and the futex, and the tables an application installs.

  \<^bold>\<open>Not modelled\<close>: type aliases and static assertions, which have no behaviour of their own; Eigen's arithmetic and quaternions
  (arguments); tests and build files; destruction of objects; a failing \<open>mmap\<close> or \<open>fork\<close> and
  a killed child in the region example; the log events of the pool example; the reader threads of the contended benchmark; what
  a build without assertions does past the end of a region; the Windows branches of the console; memory orders
  weaker than sequential consistency.
\<close>

lemma unpack_args:
  assumes "unpack p = as" shows "unat (argc p) = length as" "i < length as \<Longrightarrow> arg_at p i = as ! i"
  using assms by (auto simp: unpack_def)

lemma full_line_level: "full_line os (st\<lparr>g_level := l\<rparr>) sid sev msg = full_line os st sid sev msg"
  by (simp add: full_line_def LookupSource_def)

text \<open>The text an event should read as: its format with every placeholder replaced by the rendering
  of the argument it stands for.\<close>

definition event_text :: "fprinter \<Rightarrow> string \<Rightarrow> arg list \<Rightarrow> string" where
  "event_text fp fmt args =
     scan_ref (\<lambda>i body. arg_text fp (placeholder_spec body) (sent (args ! i))) (length args) fmt 0"

lemma format_event:
  assumes "length args \<le> 8" "sum_list (map arg_size args) \<le> 160"
  shows "FormatMessage fp cap fmt (PackArgs args) = take (cap - 1) (event_text fp fmt args)"
proof -
  note u = unpack_args [OF unpack_fits [OF assms]]
  have "scan_ref (\<lambda>i body. arg_text fp (placeholder_spec body) (arg_at (PackArgs args) i)) (length args) fmt 0 = event_text fp fmt args"
    unfolding event_text_def by (rule scan_ref_cong) (simp add: u)
  then show ?thesis using message.scan_is_take [of "[]" cap fp "PackArgs args" fmt 0] by (simp add: FormatMessage_def u)
qed

section \<open>Properties across components\<close>

text \<open>
  Property C17. From the macro to the terminal: the first event of a process that has configured nothing,
  at or above the level of \<open>XM_LOG_LEVEL\<close>, appends to \<open>stderr\<close> exactly the line with the severity,
  time, process and source prefix and the first 511 characters of its format with the arguments in
  place (when the arguments fit a pack, the line fits its buffer and \<open>write(2)\<close> does not fail);
  below that level it writes nothing. Either way the console is then the active binding.
\<close>

theorem first_event_reaches_stderr:
  assumes "g_binding p = None" "\<not> g_explicitly_set p" "\<not> materialized p"
    and "length args \<le> 8" "sum_list (map arg_size args) \<le> 160"
    and "WriteError \<notin> set (write_script (con (world p)))"
    and "line = full_line (env (world p)) (con (world p)) sid sev (take 511 (event_text (fprint (env (world p))) fmt args))"
    and "length line \<le> 767"
    and "p' = EmitEvent True now sid sname sev fmt args p"
  shows "stderr_out (con (world p')) = stderr_out (con (world p)) @
      (if sev \<noteq> kOff \<and> LevelFromEnv (xm_log_level (env (world p))) kInfo \<le> sev then line else []) \<and>
    g_binding p' = Some console_binding"
proof -
  let ?w = "world p"
  let ?lvl = "LevelFromEnv (xm_log_level (env ?w)) kInfo"
  let ?c = "(con ?w)\<lparr>g_level := ?lvl\<rparr>"
  define p1 where "p1 = p\<lparr>materialized := True, world := ?w\<lparr>con := ?c\<rparr>, g_binding := Some console_binding\<rparr>"
  have a: "ActiveBinding True p = (Some console_binding, p1)"
    using assms(1-3) by (simp add: ActiveBinding_def DefaultConsoleBinding_def Let_def SetLevelImpl_def p1_def)
  have out: "stderr_out (EmitLine (env ?w) sid sev (take 511 (event_text (fprint (env ?w)) fmt args)) ?c) = stderr_out (con ?w) @ line"
    using assms(6,8) WriteLine_complete [of "write_script (con ?w)"]
    by (simp add: EmitLine_def full_line_level assms(7) [symmetric] Let_def line_buffer_fits case_prod_unfold)
  show ?thesis
    using a out format_event [OF assms(4,5), of "fprint (env ?w)" 512 fmt]
    by (auto simp: assms(9) EmitEvent_def ShouldLogImpl_def EmitEventImpl_def p1_def)
qed

theorem first_event_reaches_stderr_witness:
  "stderr_out (con (world (EmitEvent True 0 0 [] kError ''t={:d}'' [AInt 42] fresh_process))) =
    ''[error] [0.000000000] [xmbase]: t=42'' @ [newline]"
proof -
  let ?line = "full_line (env demo_world) (con demo_world) 0 kError (take 511 (event_text (fprint (env demo_world)) ''t={:d}'' [AInt 42]))"
  have line: "?line = ''[error] [0.000000000] [xmbase]: t=42'' @ [newline]" by code_simp
  have p: "g_binding fresh_process = None" "\<not> g_explicitly_set fresh_process" "\<not> materialized fresh_process"
    "world fresh_process = demo_world" by (simp_all add: fresh_process_def)
  have w: "write_script (con demo_world) = []" "stderr_out (con demo_world) = []" "xm_log_level (env demo_world) = Some ''4''"
    by (simp_all add: demo_world_def)
  have lvl: "kError \<noteq> kOff \<and> LevelFromEnv (Some ''4'') kInfo \<le> kError" by code_simp
  have "stderr_out (con (world (EmitEvent True 0 0 [] kError ''t={:d}'' [AInt 42] fresh_process))) = stderr_out (con demo_world) @ ?line"
    using first_event_reaches_stderr [OF p(1-3), of "[AInt 42]" ?line 0 kError "''t={:d}''" _ 0 "[]", OF _ _ _ _ _ refl, unfolded p(4) w]
      lvl line w(2) by simp
  then show ?thesis unfolding w line by simp
qed

end
